(* ===== verification/Prelude.thy ===== *)
theory Prelude
  imports Main "HOL-Library.Word" "HOL-Library.List_Lexorder" "HOL-Library.Sublist"
begin

text \<open>
  Shared vocabulary of the development: bytes and Go's fixed-width integers, the errors the
  code returns, results and state-passing actions that may fail, big-endian integers
  (\<^verbatim>\<open>encoding/binary.BigEndian\<close>) and the order of byte strings (\<^verbatim>\<open>bytes.Compare\<close>), with the
  generic lemmas the components use.
\<close>

unbundle bit_operations_syntax

named_theorems act_simps \<open>unfolding of actions on a concrete state\<close>
named_theorems key_simps \<open>injectivity and disjointness of storage keys\<close>

section \<open>Types\<close>

type_synonym byte = "8 word"
type_synonym bytes = "byte list"
type_synonym u32 = "32 word"
type_synonym u64 = "64 word"
type_synonym i64 = "64 word"

text \<open>A Go string is a byte sequence; \<open>str\<close> reads a string literal of the source.\<close>

definition str :: "string \<Rightarrow> bytes" where
  "str s = map of_char s"

text \<open>
  The errors of the modelled packages, one constructor per error value or message format.
  \<open>Wrap\<close> is \<^verbatim>\<open>fmt.Errorf("...: %w", err)\<close>: the text of the message is dropped, the wrapped
  error is kept because \<^verbatim>\<open>errors.Is\<close> looks through it.
\<close>

datatype error =
    ErrNotFound
  | ErrConflict
  | ErrTxnTooLarge
  | ErrEngine nat
  | ErrReadOnly
  | ErrEmptyKey
  | ErrShort
  | ErrNonIndexable
  | ErrUnknownTag byte
  | ErrInvalidEscape byte
  | ErrMalformedKey byte nat
  | ErrUnsupportedType
  | ErrImplausible nat
  | ErrFuel
  | ErrMalformedId nat
  | ErrMalformedCounter nat
  | ErrOutOfIds byte
  | ErrMalformedRegistry nat
  | ErrMalformedConstraint
  | ErrMalformedFormat nat
  | ErrFormatVersion u32
  | ErrNodeNotFound
  | ErrEdgeNotFound
  | ErrNodeHasEdges
  | ErrConstraintViolation bytes bytes
  | ErrMalformedOwner nat
  | ErrIntegerOverflow
  | ErrResultLimit
  | ErrCancelled
  | ErrExec string
  | Wrap error

text \<open>\<^verbatim>\<open>errors.Is\<close> against a sentinel error.\<close>

fun errors_Is :: "error \<Rightarrow> error \<Rightarrow> bool" where
  "errors_Is (Wrap e) t = (Wrap e = t \<or> errors_Is e t)"
| "errors_Is e t = (e = t)"

lemma errors_Is_refl [simp]: "errors_Is e e"
  by (cases e) auto

section \<open>Results and actions\<close>

type_synonym 'a result = "error + 'a"

definition bindR :: "'a result \<Rightarrow> ('a \<Rightarrow> 'b result) \<Rightarrow> 'b result" where
  "bindR r f = (case r of Inl e \<Rightarrow> Inl e | Inr x \<Rightarrow> f x)"

definition wrapR :: "'a result \<Rightarrow> 'a result" where
  "wrapR r = (case r of Inl e \<Rightarrow> Inl (Wrap e) | Inr x \<Rightarrow> Inr x)"

lemma bindR_simps [simp]: "bindR (Inl e) f = Inl e" "bindR (Inr x) f = f x"
  by (simp_all add: bindR_def)

lemma wrapR_simps [simp]: "wrapR (Inl e) = Inl (Wrap e)" "wrapR (Inr x) = Inr x"
  by (simp_all add: wrapR_def)

lemma bindR_Inr_iff: "bindR r f = Inr y \<longleftrightarrow> (\<exists>x. r = Inr x \<and> f x = Inr y)"
  by (cases r) auto

lemma wrapR_Inr_iff [simp]: "wrapR r = Inr y \<longleftrightarrow> r = Inr y"
  by (cases r) auto

lemma bindR_cong [fundef_cong]:
  "r = r' \<Longrightarrow> (\<And>x. r' = Inr x \<Longrightarrow> f x = g x) \<Longrightarrow> bindR r f = bindR r' g"
  by (cases r') auto

text \<open>
  An action on a state of type \<open>'s\<close>. The state after an error is kept: a Go function that
  returns an error leaves behind the writes it made before.
\<close>

type_synonym ('s, 'a) act = "'s \<Rightarrow> 'a result \<times> 's"

definition ret :: "'a \<Rightarrow> ('s, 'a) act" where
  "ret x s = (Inr x, s)"

definition throw :: "error \<Rightarrow> ('s, 'a) act" where
  "throw e s = (Inl e, s)"

definition bnd :: "('s, 'a) act \<Rightarrow> ('a \<Rightarrow> ('s, 'b) act) \<Rightarrow> ('s, 'b) act" where
  "bnd m f s = (case m s of (Inl e, s') \<Rightarrow> (Inl e, s') | (Inr x, s') \<Rightarrow> f x s')"

definition seqA :: "('s, unit) act \<Rightarrow> ('s, 'b) act \<Rightarrow> ('s, 'b) act" where
  "seqA m n = bnd m (\<lambda>_. n)"

definition reads :: "('s \<Rightarrow> 'a result) \<Rightarrow> ('s, 'a) act" where
  "reads f s = (f s, s)"

definition liftR :: "'a result \<Rightarrow> ('s, 'a) act" where
  "liftR r s = (r, s)"

definition wrapA :: "('s, 'a) act \<Rightarrow> ('s, 'a) act" where
  "wrapA m s = (case m s of (r, s') \<Rightarrow> (wrapR r, s'))"

text \<open>\<^verbatim>\<open>for _, x := range xs { if err := f(x); err != nil { return err } }\<close>\<close>

fun each :: "('a \<Rightarrow> ('s, unit) act) \<Rightarrow> 'a list \<Rightarrow> ('s, unit) act" where
  "each f [] = ret ()"
| "each f (x # xs) = seqA (f x) (each f xs)"

text \<open>\<open>runs m s x s'\<close>: from \<open>s\<close> the action returns \<open>x\<close> without an error, in state \<open>s'\<close>.\<close>

definition runs :: "('s, 'a) act \<Rightarrow> 's \<Rightarrow> 'a \<Rightarrow> 's \<Rightarrow> bool" where
  "runs m s x s' \<longleftrightarrow> m s = (Inr x, s')"

lemma runs_ret [simp]: "runs (ret x) s y s' \<longleftrightarrow> y = x \<and> s' = s"
  by (auto simp: runs_def ret_def)

lemma runs_throw [simp]: "\<not> runs (throw e) s y s'"
  by (simp add: runs_def throw_def)

lemma runs_bnd: "runs (bnd m f) s y s' \<longleftrightarrow> (\<exists>x t. runs m s x t \<and> runs (f x) t y s')"
  by (auto simp: runs_def bnd_def split: prod.splits sum.splits)

lemma runs_seqA: "runs (seqA m n) s y s' \<longleftrightarrow> (\<exists>t. runs m s () t \<and> runs n t y s')"
  by (auto simp: seqA_def runs_bnd)

lemma runs_reads [simp]: "runs (reads f) s y s' \<longleftrightarrow> f s = Inr y \<and> s' = s"
  by (auto simp: runs_def reads_def)

lemma runs_liftR [simp]: "runs (liftR r) s y s' \<longleftrightarrow> r = Inr y \<and> s' = s"
  by (auto simp: runs_def liftR_def)

lemma runs_wrapA [simp]: "runs (wrapA m) s y s' \<longleftrightarrow> runs m s y s'"
  by (auto simp: runs_def wrapA_def split: prod.splits)

lemma runs_if: "runs (if b then m else n) s y s' \<longleftrightarrow> (if b then runs m s y s' else runs n s y s')"
  by simp

lemma runs_each_Cons: "runs (each f (x # xs)) s y s' \<longleftrightarrow> (\<exists>t. runs (f x) s () t \<and> runs (each f xs) t y s')"
  by (simp add: runs_seqA)

lemmas runs_simps = runs_bnd runs_seqA runs_if

lemma runs_det: "runs m s x s' \<Longrightarrow> runs m s y t \<Longrightarrow> x = y \<and> s' = t"
  by (simp add: runs_def)

lemma bnd_eval [act_simps]:
  "m s = (Inr x, s') \<Longrightarrow> bnd m f s = f x s'"
  "m s = (Inl e, s') \<Longrightarrow> bnd m f s = (Inl e, s')"
  by (simp_all add: bnd_def)

text \<open>The rule for loops: an invariant kept by each iteration holds at the end.\<close>

lemma each_invariant:
  assumes "runs (each f xs) s u s'"
    and "P s"
    and "\<And>x t t'. x \<in> set xs \<Longrightarrow> P t \<Longrightarrow> runs (f x) t () t' \<Longrightarrow> P t'"
  shows "P s'"
  using assms
proof (induction xs arbitrary: s)
  case Nil
  then show ?case by simp
next
  case (Cons x xs)
  from Cons.prems(1) obtain t where t: "runs (f x) s () t" and r: "runs (each f xs) t u s'"
    by (auto simp: runs_seqA)
  have "P t" using Cons.prems(2,3) t by auto
  then show ?case using Cons.IH [OF r] Cons.prems(3) by auto
qed

end
