(* ===== verification/Bytes.thy ===== *)
theory Bytes
  imports Prelude
begin

text \<open>
  Big-endian integers as \<^verbatim>\<open>encoding/binary.BigEndian\<close> writes and reads them, and the
  lexicographic order of byte strings (\<^verbatim>\<open>bytes.Compare\<close>), which is the order of the list type.
  The main facts: reading inverts writing, and for equal widths byte order is numeric order.
\<close>

section \<open>Lexicographic order\<close>

lemma less_append_same_length:
  fixes xs ys :: "'a::linorder list"
  assumes "length xs = length ys"
  shows "xs @ us < ys @ vs \<longleftrightarrow> xs < ys \<or> xs = ys \<and> us < vs"
  using assms by (induction xs ys rule: list_induct2) auto

lemma less_append_left [simp]: "(xs :: 'a::linorder list) @ us < xs @ vs \<longleftrightarrow> us < vs"
  by (induction xs) auto

lemma le_append_left [simp]: "(xs :: 'a::linorder list) @ us \<le> xs @ vs \<longleftrightarrow> us \<le> vs"
  by (induction xs) auto

lemma le_append [simp]: "(xs :: 'a::linorder list) \<le> xs @ us"
  by (induction xs) auto

lemma prefix_le: "prefix xs ys \<Longrightarrow> xs \<le> (ys :: 'a::linorder list)"
  by (auto simp: prefix_def)

lemma append_eq_same_length:
  "length xs = length ys \<Longrightarrow> xs @ us = ys @ vs \<longleftrightarrow> xs = ys \<and> us = vs"
  by simp

lemma prefix_append_same_length:
  "length xs = length ys \<Longrightarrow> prefix (xs @ us) (ys @ vs) \<longleftrightarrow> xs = ys \<and> prefix us vs"
  by (auto simp: prefix_def)

lemma prefix_same_length_append:
  "length xs = length ys \<Longrightarrow> prefix xs (ys @ vs) \<longleftrightarrow> xs = ys"
  by (auto simp: prefix_def)

section \<open>Big-endian integers\<close>

text \<open>\<open>be_bytes n x\<close>: the \<open>n\<close> low-order bytes of \<open>x\<close>, most significant first.\<close>

fun be_bytes :: "nat \<Rightarrow> int \<Rightarrow> bytes" where
  "be_bytes 0 x = []"
| "be_bytes (Suc n) x = word_of_int (x div 256 ^ n) # be_bytes n x"

fun be_val :: "bytes \<Rightarrow> int" where
  "be_val [] = 0"
| "be_val (b # bs) = uint b * 256 ^ length bs + be_val bs"

definition PutUint32 :: "u32 \<Rightarrow> bytes" where
  "PutUint32 v = be_bytes 4 (uint v)"

definition PutUint64 :: "u64 \<Rightarrow> bytes" where
  "PutUint64 v = be_bytes 8 (uint v)"

definition Uint32 :: "bytes \<Rightarrow> u32" where
  "Uint32 bs = word_of_int (be_val bs)"

definition Uint64 :: "bytes \<Rightarrow> u64" where
  "Uint64 bs = word_of_int (be_val bs)"

lemma length_be_bytes [simp]: "length (be_bytes n x) = n"
  by (induction n) auto

lemma be_val_bounds: "0 \<le> be_val bs \<and> be_val bs < 256 ^ length bs"
proof (induction bs)
  case Nil
  then show ?case by simp
next
  case (Cons b bs)
  let ?p = "256 ^ length bs :: int"
  have "uint b + 1 \<le> 256" using uint_lt2p [of b] by simp
  then have "(uint b + 1) * ?p \<le> 256 * ?p" by (rule mult_right_mono) simp
  then have "uint b * ?p + ?p \<le> 256 * ?p" by (simp only: distrib_right mult_1)
  moreover have "0 \<le> uint b * ?p" by simp
  moreover have "0 \<le> be_val bs" "be_val bs < ?p" using Cons.IH by simp_all
  ultimately show ?case by (simp only: be_val.simps length_Cons power_Suc) linarith
qed

lemma be_val_be_bytes: "be_val (be_bytes n x) = x mod 256 ^ n"
proof (induction n)
  case 0
  then show ?case by simp
next
  case (Suc n)
  have "uint (word_of_int (x div 256 ^ n) :: byte) = x div 256 ^ n mod 256"
    by (simp add: uint_word_of_int)
  with Suc show ?case
    using zmod_zmult2_eq [of 256 x "256 ^ n"]
    by (simp add: mult.commute [of 256])
qed

lemma be_val_eq_iff: "length bs = length cs \<Longrightarrow> be_val bs = be_val cs \<longleftrightarrow> bs = cs"
proof (induction bs cs rule: list_induct2)
  case Nil
  then show ?case by simp
next
  case (Cons b bs c cs)
  let ?p = "256 ^ length cs :: int"
  show ?case
  proof
    assume eq: "be_val (b # bs) = be_val (c # cs)"
    have "be_val (b # bs) div ?p = uint b" "be_val (c # cs) div ?p = uint c"
      using be_val_bounds [of bs] be_val_bounds [of cs] Cons.hyps by simp_all
    with eq have "uint b = uint c" by metis
    then have "b = c" by (rule word_uint_eqI)
    with eq Cons show "b # bs = c # cs" by simp
  qed simp
qed

lemma be_bytes_be_val: "length bs = n \<Longrightarrow> be_bytes n (be_val bs) = bs"
  by (rule be_val_eq_iff [THEN iffD1]) (use be_val_bounds [of bs] in \<open>simp_all add: be_val_be_bytes\<close>)

lemma be_val_less_iff: "length bs = length cs \<Longrightarrow> be_val bs < be_val cs \<longleftrightarrow> bs < cs"
proof (induction bs cs rule: list_induct2)
  case Nil
  then show ?case by simp
next
  case (Cons b bs c cs)
  let ?p = "256 ^ length cs :: int"
  have bb: "0 \<le> be_val bs" "be_val bs < ?p" "0 \<le> be_val cs" "be_val cs < ?p"
    using be_val_bounds [of bs] be_val_bounds [of cs] Cons.hyps by simp_all
  show ?case
  proof (cases "b = c")
    case True
    with Cons show ?thesis by simp
  next
    case False
    then consider "uint b + 1 \<le> uint c" | "uint c + 1 \<le> uint b"
      by (metis add1_zle_eq linorder_neqE_linordered_idom word_uint_eqI)
    then show ?thesis
    proof cases
      case 1
      then have "(uint b + 1) * ?p \<le> uint c * ?p" by (simp add: mult_right_mono)
      with bb 1 Cons.hyps show ?thesis
        by (auto simp: distrib_right word_less_def)
    next
      case 2
      then have "(uint c + 1) * ?p \<le> uint b * ?p" by (simp add: mult_right_mono)
      with bb 2 False Cons.hyps show ?thesis
        by (auto simp: distrib_right word_less_def)
    qed
  qed
qed

lemma length_Put [simp]: "length (PutUint32 a) = 4" "length (PutUint64 b) = 8"
  by (simp_all add: PutUint32_def PutUint64_def)

lemma be_val_Put [simp]: "be_val (PutUint32 a) = uint a" "be_val (PutUint64 b) = uint b"
proof -
  have "uint a < 256 ^ 4" "uint b < 256 ^ 8"
    using uint_lt2p [of a] uint_lt2p [of b] by simp_all
  then show "be_val (PutUint32 a) = uint a" "be_val (PutUint64 b) = uint b"
    by (simp_all only: PutUint32_def PutUint64_def be_val_be_bytes mod_pos_pos_trivial uint_ge_0)
qed

lemma Uint_Put [simp]: "Uint32 (PutUint32 a) = a" "Uint64 (PutUint64 b) = b"
  by (simp_all add: Uint32_def Uint64_def)

lemma Put_Uint: 
  "length bs = 4 \<Longrightarrow> PutUint32 (Uint32 bs) = bs"
  "length cs = 8 \<Longrightarrow> PutUint64 (Uint64 cs) = cs"
proof -
  show "length bs = 4 \<Longrightarrow> PutUint32 (Uint32 bs) = bs"
    using be_val_bounds [of bs] be_bytes_be_val [of bs 4]
    by (simp add: PutUint32_def Uint32_def uint_word_of_int)
  show "length cs = 8 \<Longrightarrow> PutUint64 (Uint64 cs) = cs"
    using be_val_bounds [of cs] be_bytes_be_val [of cs 8]
    by (simp add: PutUint64_def Uint64_def uint_word_of_int)
qed

lemma Put_inject [simp]: "PutUint32 a = PutUint32 a' \<longleftrightarrow> a = a'" "PutUint64 b = PutUint64 b' \<longleftrightarrow> b = b'"
  by (metis Uint_Put)+

lemma Put_less [simp]: "PutUint32 a < PutUint32 a' \<longleftrightarrow> a < a'" "PutUint64 b < PutUint64 b' \<longleftrightarrow> b < b'"
  by (simp_all add: be_val_less_iff [symmetric] word_less_def)

lemma Put_append_inject [simp]:
  "PutUint32 a @ us = PutUint32 a' @ vs \<longleftrightarrow> a = a' \<and> us = vs"
  "PutUint64 b @ us = PutUint64 b' @ vs \<longleftrightarrow> b = b' \<and> us = vs"
  by simp_all

lemma Put_append_less [simp]:
  "PutUint32 a @ us < PutUint32 a' @ vs \<longleftrightarrow> a < a' \<or> a = a' \<and> us < vs"
  "PutUint64 b @ us < PutUint64 b' @ vs \<longleftrightarrow> b < b' \<or> b = b' \<and> us < vs"
  by (simp_all add: less_append_same_length)

lemma Put_prefix [simp]:
  "prefix (PutUint32 a @ us) (PutUint32 a' @ vs) \<longleftrightarrow> a = a' \<and> prefix us vs"
  "prefix (PutUint64 b @ us) (PutUint64 b' @ vs) \<longleftrightarrow> b = b' \<and> prefix us vs"
  "prefix (PutUint32 a) (PutUint32 a' @ vs) \<longleftrightarrow> a = a'"
  "prefix (PutUint64 b) (PutUint64 b' @ vs) \<longleftrightarrow> b = b'"
  "prefix (PutUint64 b) (PutUint64 b') \<longleftrightarrow> b = b'"
  by (simp_all add: prefix_append_same_length prefix_same_length_append)
    (metis Put_inject(2) append_Nil2 length_Put(2) prefix_same_length_append)

lemma split_bytes:
  assumes "length (bs :: 'a list) = n + m"
  obtains us vs where "bs = us @ vs" "length us = n" "length vs = m"
proof
  show "bs = take n bs @ drop n bs" "length (take n bs) = n" "length (drop n bs) = m"
    using assms by simp_all
qed

end
