(* ===== verification/Float64.thy ===== *)
theory Float64
  imports Bytes
begin

text \<open>
  Go's \<^verbatim>\<open>float64\<close>: an IEEE 754 binary64 value is its bit pattern (\<^verbatim>\<open>math.Float64bits\<close>). Every
  value that is not a NaN is read exactly as an integer number of units of $2^{-1074}$, the
  smallest positive float; the infinities are read as $\pm 2^{1024}$, which is beyond every
  finite value, so comparisons need no special case for them. The conversion \<^verbatim>\<open>float64(x)\<close> of an
  integer rounds to nearest, ties to even.
\<close>

section \<open>Reading a bit pattern\<close>

type_synonym f64 = "64 word"

definition f_neg :: "f64 \<Rightarrow> bool" where
  "f_neg b \<longleftrightarrow> 2 ^ 63 \<le> uint b"

definition f_abs_bits :: "f64 \<Rightarrow> int" where
  "f_abs_bits b = uint b mod 2 ^ 63"

text \<open>The magnitude, in units of $2^{-1074}$, of an exponent and fraction field.\<close>

definition mag :: "int \<Rightarrow> int" where
  "mag m = (if m div 2 ^ 52 = 0 then m mod 2 ^ 52
            else (2 ^ 52 + m mod 2 ^ 52) * 2 ^ nat (m div 2 ^ 52 - 1))"

definition f_unit :: int where
  "f_unit = 2 ^ 1074"

lemma f_unit_pos [simp]: "0 < f_unit" "f_unit \<noteq> 0" "0 \<le> f_unit"
  by (simp_all add: f_unit_def)

abbreviation inf_bits :: int where
  "inf_bits \<equiv> 0x7FF0000000000000"

definition f_num :: "f64 \<Rightarrow> int" where
  "f_num b = (if f_neg b then - mag (f_abs_bits b) else mag (f_abs_bits b))"

definition f_isNaN :: "f64 \<Rightarrow> bool" where
  "f_isNaN b \<longleftrightarrow> inf_bits < f_abs_bits b"

definition f_isInf :: "f64 \<Rightarrow> bool" where
  "f_isInf b \<longleftrightarrow> f_abs_bits b = inf_bits"

definition f_eq :: "f64 \<Rightarrow> f64 \<Rightarrow> bool" where
  "f_eq a b \<longleftrightarrow> \<not> f_isNaN a \<and> \<not> f_isNaN b \<and> f_num a = f_num b"

definition f_less :: "f64 \<Rightarrow> f64 \<Rightarrow> bool" where
  "f_less a b \<longleftrightarrow> \<not> f_isNaN a \<and> \<not> f_isNaN b \<and> f_num a < f_num b"

definition f_neg_zero :: f64 where
  "f_neg_zero = 0x8000000000000000"

text \<open>\<open>f_integral f\<close> is the test \<^verbatim>\<open>f == math.Trunc(f)\<close>; \<open>f_floor\<close>, \<open>f_ceil\<close> and \<open>f_trunc\<close> are the integers
  of \<^verbatim>\<open>math.Floor\<close>, \<^verbatim>\<open>math.Ceil\<close> and \<^verbatim>\<open>math.Trunc\<close>, which are exact.\<close>

definition f_integral :: "f64 \<Rightarrow> bool" where
  "f_integral b \<longleftrightarrow> \<not> f_isNaN b \<and> f_num b mod f_unit = 0"

definition f_floor :: "f64 \<Rightarrow> int" where
  "f_floor b = f_num b div f_unit"

definition f_ceil :: "f64 \<Rightarrow> int" where
  "f_ceil b = - (- f_num b div f_unit)"

definition f_trunc :: "f64 \<Rightarrow> int" where
  "f_trunc b = (if 0 \<le> f_num b then f_floor b else f_ceil b)"

text \<open>\<^verbatim>\<open>math.Nextafter\<close> towards an infinity, for an argument that is not NaN.\<close>

definition Nextafter_up :: "f64 \<Rightarrow> f64" where
  "Nextafter_up b =
     (if b = 0x7FF0000000000000 then b
      else if f_abs_bits b = 0 then 1
      else if f_neg b then b - 1 else b + 1)"

definition Nextafter_down :: "f64 \<Rightarrow> f64" where
  "Nextafter_down b =
     (if b = 0xFFF0000000000000 then b
      else if f_abs_bits b = 0 then 0x8000000000000001
      else if f_neg b then b + 1 else b - 1)"

section \<open>Conversion from integers\<close>

fun bitlen :: "int \<Rightarrow> nat" where
  "bitlen n = (if n \<le> 0 then 0 else Suc (bitlen (n div 2)))"

declare bitlen.simps [simp del]

definition round_shift :: "int \<Rightarrow> nat \<Rightarrow> int" where
  "round_shift n s =
     (let q = n div 2 ^ s; r = n mod 2 ^ s; h = 2 ^ (s - 1)
      in if h < r \<or> (r = h \<and> odd q) then q + 1 else q)"

text \<open>\<^verbatim>\<open>float64(i)\<close> for an \<^verbatim>\<open>int64\<close> value \<open>i\<close>.\<close>

definition f_of_int :: "int \<Rightarrow> f64" where
  "f_of_int i =
     (if i = 0 then 0
      else let n = \<bar>i\<bar>; L = bitlen n;
               q = (if L \<le> 53 then n * 2 ^ (53 - L) else round_shift n (L - 53))
           in word_of_int ((int L + 1021) * 2 ^ 52 + q + (if i < 0 then 2 ^ 63 else 0)))"

text \<open>The integer \<open>f_of_int\<close> represents: \<open>n\<close> rounded to 53 significant bits.\<close>

definition round53 :: "int \<Rightarrow> int" where
  "round53 n = (if bitlen n \<le> 53 then n else round_shift n (bitlen n - 53) * 2 ^ (bitlen n - 53))"

section \<open>Order of the magnitudes\<close>

lemma mag_bounds:
  assumes "0 \<le> m"
  shows "m div 2 ^ 52 = 0 \<Longrightarrow> 0 \<le> mag m \<and> mag m < 2 ^ 52"
    and "m div 2 ^ 52 \<noteq> 0 \<Longrightarrow> 2 ^ nat (51 + m div 2 ^ 52) \<le> mag m \<and> mag m < 2 ^ nat (52 + m div 2 ^ 52)"
proof -
  show "m div 2 ^ 52 = 0 \<Longrightarrow> 0 \<le> mag m \<and> mag m < 2 ^ 52"
    by (simp add: mag_def div_eq_0_iff assms)
  assume nz: "m div 2 ^ 52 \<noteq> 0"
  define e where "e = nat (m div 2 ^ 52 - 1)"
  have "0 \<le> m div 2 ^ 52" using assms by (simp add: pos_imp_zdiv_nonneg_iff)
  with nz have "1 \<le> m div 2 ^ 52" by linarith
  then have e: "nat (51 + m div 2 ^ 52) = 52 + e" "nat (52 + m div 2 ^ 52) = 53 + e"
    by (simp_all add: e_def nat_add_distrib nat_diff_distrib)
  have f: "0 \<le> m mod 2 ^ 52" "m mod 2 ^ 52 < 2 ^ 52" by simp_all
  then have "2 ^ 52 * 2 ^ e \<le> (2 ^ 52 + m mod 2 ^ 52) * 2 ^ e"
    "(2 ^ 52 + m mod 2 ^ 52) * 2 ^ e < (2 ^ 52 + 2 ^ 52) * 2 ^ e"
    by (intro mult_right_mono mult_strict_right_mono; simp)+
  then show "2 ^ nat (51 + m div 2 ^ 52) \<le> mag m \<and> mag m < 2 ^ nat (52 + m div 2 ^ 52)"
    using nz unfolding e mag_def e_def [symmetric] by (simp add: power_add)
qed

lemma mag_strict_mono:
  assumes "0 \<le> a" "a < b"
  shows "mag a < mag b"
proof -
  let ?ea = "a div 2 ^ 52" and ?eb = "b div 2 ^ 52"
  have ea: "0 \<le> ?ea" using assms by (simp add: pos_imp_zdiv_nonneg_iff)
  have le: "?ea \<le> ?eb" using assms by (simp add: zdiv_mono1)
  have ab: "a = ?ea * 2 ^ 52 + a mod 2 ^ 52" "b = ?eb * 2 ^ 52 + b mod 2 ^ 52"
    by simp_all
  show ?thesis
  proof (cases "?ea = ?eb")
    case True
    with ab assms(2) have "a mod 2 ^ 52 < b mod 2 ^ 52" by (metis add_less_cancel_left)
    with True show ?thesis by (auto simp: mag_def intro: mult_strict_right_mono)
  next
    case False
    with le ea have lt: "?ea < ?eb" "?eb \<noteq> 0" by linarith+
    have "2 ^ nat (52 + ?ea) \<le> (2 :: int) ^ nat (51 + ?eb)"
      using lt ea by (intro power_increasing) auto
    moreover have "mag a < 2 ^ nat (52 + ?ea)"
      using mag_bounds [of a] assms(1) by (cases "?ea = 0") auto
    moreover have "2 ^ nat (51 + ?eb) \<le> mag b"
      using mag_bounds(2) [of b] assms lt by simp
    ultimately show ?thesis by linarith
  qed
qed

lemma mag_less_iff: "0 \<le> a \<Longrightarrow> 0 \<le> b \<Longrightarrow> mag a < mag b \<longleftrightarrow> a < b"
  using mag_strict_mono [of a b] mag_strict_mono [of b a] by (cases a b rule: linorder_cases) auto

lemma mag_eq_iff: "0 \<le> a \<Longrightarrow> 0 \<le> b \<Longrightarrow> mag a = mag b \<longleftrightarrow> a = b"
  using mag_strict_mono [of a b] mag_strict_mono [of b a] by (cases a b rule: linorder_cases) auto

lemma mag_0 [simp]: "mag 0 = 0"
  by (simp add: mag_def)

lemma f_abs_bits_bounds: "0 \<le> f_abs_bits b" "f_abs_bits b < 2 ^ 63"
  by (simp_all add: f_abs_bits_def)

lemma uint_f64: "uint b = f_abs_bits b + (if f_neg b then 2 ^ 63 else 0)"
proof -
  have "uint b < 2 ^ 64" using uint_lt2p [of b] by simp
  moreover have "uint b div 2 ^ 63 = (if f_neg b then 1 else 0)"
    using \<open>uint b < 2 ^ 64\<close> by (auto simp: f_neg_def)
  ultimately show ?thesis
    using div_mult_mod_eq [of "uint b" "2 ^ 63"] by (simp add: f_abs_bits_def split: if_splits)
qed

lemma mag_nonneg: "0 \<le> m \<Longrightarrow> 0 \<le> mag m"
  using mag_bounds [of m] by (cases "m div 2 ^ 52 = 0") (auto intro: order_trans [rotated])

text \<open>The sign-magnitude rank of a pattern: the order in which the index stores floats.\<close>

definition f_rank :: "f64 \<Rightarrow> int" where
  "f_rank b = (if f_neg b then - 1 - f_abs_bits b else f_abs_bits b)"

lemma f_rank_inject [simp]: "f_rank a = f_rank b \<longleftrightarrow> a = b"
proof
  assume "f_rank a = f_rank b"
  then have "f_neg a = f_neg b \<and> f_abs_bits a = f_abs_bits b"
    using f_abs_bits_bounds(1) [of a] f_abs_bits_bounds(1) [of b]
    by (simp add: f_rank_def split: if_splits; linarith)
  then have "uint a = uint b" using uint_f64 [of a] uint_f64 [of b] by simp
  then show "a = b" by (rule word_uint_eqI)
qed simp

lemma f_rank_mono: "f_rank a \<le> f_rank b \<Longrightarrow> f_num a \<le> f_num b"
proof -
  assume le: "f_rank a \<le> f_rank b"
  have p: "0 \<le> mag (f_abs_bits a)" "0 \<le> mag (f_abs_bits b)"
    by (simp_all add: mag_nonneg f_abs_bits_bounds)
  have "f_abs_bits a \<le> f_abs_bits b \<Longrightarrow> mag (f_abs_bits a) \<le> mag (f_abs_bits b)"
    "f_abs_bits b \<le> f_abs_bits a \<Longrightarrow> mag (f_abs_bits b) \<le> mag (f_abs_bits a)"
    by (metis f_abs_bits_bounds(1) mag_less_iff not_less)+
  with le p show ?thesis
    using f_abs_bits_bounds(1) [of a] f_abs_bits_bounds(1) [of b]
    by (simp add: f_rank_def f_num_def split: if_splits; linarith)
qed

lemma f_num_less_rank: "f_num a < f_num b \<Longrightarrow> f_rank a < f_rank b"
  using f_rank_mono [of b a] by linarith

text \<open>Distinct patterns have distinct values, the two zeros apart.\<close>

lemma f_num_eq_iff: "f_num a = f_num b \<longleftrightarrow> a = b \<or> (f_abs_bits a = 0 \<and> f_abs_bits b = 0)"
proof
  assume eq: "f_num a = f_num b"
  show "a = b \<or> (f_abs_bits a = 0 \<and> f_abs_bits b = 0)"
  proof (cases "f_neg a = f_neg b")
    case True
    with eq have "f_abs_bits a = f_abs_bits b"
      by (simp add: f_num_def mag_eq_iff f_abs_bits_bounds split: if_splits)
    with True have "f_rank a = f_rank b" by (simp add: f_rank_def)
    then show ?thesis by simp
  next
    case False
    have p: "0 \<le> mag (f_abs_bits a)" "0 \<le> mag (f_abs_bits b)"
      by (simp_all add: mag_nonneg f_abs_bits_bounds)
    with eq False have "mag (f_abs_bits a) = 0 \<and> mag (f_abs_bits b) = 0"
      by (simp add: f_num_def split: if_splits; linarith)
    then have "f_abs_bits a = 0" "f_abs_bits b = 0"
      using mag_eq_iff [of _ 0] by (metis f_abs_bits_bounds(1) mag_0 order_refl)+
    then show ?thesis by simp
  qed
next
  assume "a = b \<or> (f_abs_bits a = 0 \<and> f_abs_bits b = 0)"
  then show "f_num a = f_num b" by (auto simp: f_num_def)
qed

lemma f_abs_bits_0_iff: "f_abs_bits b = 0 \<longleftrightarrow> b = 0 \<or> b = f_neg_zero"
proof
  assume "f_abs_bits b = 0"
  then have "uint b = 0 \<or> uint b = 2 ^ 63" using uint_f64 [of b] by auto
  then show "b = 0 \<or> b = f_neg_zero"
    by (auto simp: f_neg_zero_def uint_0_iff intro: word_uint_eqI)
qed (auto simp: f_abs_bits_def f_neg_zero_def)

lemma f_num_0_iff: "f_num b = 0 \<longleftrightarrow> b = 0 \<or> b = f_neg_zero"
  using f_num_eq_iff [of b 0] f_abs_bits_0_iff [of b] f_abs_bits_0_iff [of 0]
  by (auto simp: f_num_def f_neg_def f_abs_bits_def f_neg_zero_def)

section \<open>Exactness of the conversion\<close>

lemma int_le_div_iff: "(0 :: int) < c \<Longrightarrow> b \<le> a div c \<longleftrightarrow> b * c \<le> a"
proof
  assume c: "0 < c" and "b \<le> a div c"
  then have "b * c \<le> a div c * c" by (simp add: mult_right_mono)
  also have "\<dots> \<le> a" using c pos_mod_sign [OF c, of a] div_mult_mod_eq [of a c] by linarith
  finally show "b * c \<le> a" .
next
  assume c: "0 < c" and "b * c \<le> a"
  then have "b * c div c \<le> a div c" by (intro zdiv_mono1)
  with c show "b \<le> a div c" by simp
qed

lemma int_div_less_iff: "(0 :: int) < c \<Longrightarrow> a div c < b \<longleftrightarrow> a < b * c"
  using int_le_div_iff [of c b a] by linarith

lemma bitlen_bounds: "0 < n \<Longrightarrow> 2 ^ (bitlen n - 1) \<le> n \<and> n < 2 ^ bitlen n \<and> 0 < bitlen n"
proof (induction n rule: bitlen.induct)
  case (1 n)
  show ?case
  proof (cases "n = 1")
    case True
    then show ?thesis by (simp add: bitlen.simps)
  next
    case False
    with 1 have h: "0 < n div 2" by simp
    with 1 have IH: "2 ^ (bitlen (n div 2) - 1) \<le> n div 2" "n div 2 < 2 ^ bitlen (n div 2)"
      "0 < bitlen (n div 2)" by auto
    obtain k where k: "bitlen (n div 2) = Suc k" using IH(3) by (cases "bitlen (n div 2)") auto
    have "bitlen n = Suc (Suc k)" using 1 k by (simp add: bitlen.simps [of n])
    moreover have "2 * 2 ^ k \<le> n \<and> n < 4 * 2 ^ k" using IH(1,2) k by simp linarith
    ultimately show ?thesis by simp
  qed
qed

lemma bitlen_le_iff: "0 < n \<Longrightarrow> bitlen n \<le> k \<longleftrightarrow> n < 2 ^ k"
proof -
  assume n: "0 < n"
  note b = bitlen_bounds [OF n]
  show ?thesis
  proof
    assume "bitlen n \<le> k"
    then have "(2 :: int) ^ bitlen n \<le> 2 ^ k" by (simp add: power_increasing)
    with b show "n < 2 ^ k" by linarith
  next
    assume "n < 2 ^ k"
    with b have "(2 :: int) ^ (bitlen n - 1) < 2 ^ k" by linarith
    then have "bitlen n - 1 < k" by simp
    with b show "bitlen n \<le> k" by linarith
  qed
qed

lemma round_shift_bounds:
  "n div 2 ^ s \<le> round_shift n s" "round_shift n s \<le> n div 2 ^ s + 1"
  by (simp_all add: round_shift_def Let_def)

text \<open>The significand of a converted integer has 53 bits (or is $2^{53}$, after rounding up).\<close>

lemma significand_bounds:
  assumes "0 < n"
  defines "q \<equiv> (if bitlen n \<le> 53 then n * 2 ^ (53 - bitlen n) else round_shift n (bitlen n - 53))"
  shows "2 ^ 52 \<le> q \<and> q \<le> 2 ^ 53"
proof (cases "bitlen n \<le> 53")
  case True
  note b = bitlen_bounds [OF assms(1)]
  have p: "(0 :: int) < 2 ^ (53 - bitlen n)" by simp
  have "2 ^ (bitlen n - 1) * 2 ^ (53 - bitlen n) \<le> n * 2 ^ (53 - bitlen n)"
    using b p by (intro mult_right_mono) auto
  moreover have "n * 2 ^ (53 - bitlen n) \<le> 2 ^ bitlen n * 2 ^ (53 - bitlen n)"
    using b p by (intro mult_right_mono) auto
  moreover have "bitlen n - 1 + (53 - bitlen n) = 52" "bitlen n + (53 - bitlen n) = 53"
    using True b by auto
  ultimately show ?thesis using True by (simp add: q_def power_add [symmetric])
next
  case False
  note b = bitlen_bounds [OF assms(1)]
  let ?s = "bitlen n - 53"
  have split: "bitlen n - 1 = 52 + ?s" "bitlen n = 53 + ?s" using False by auto
  have "2 ^ 52 * 2 ^ ?s \<le> n" "n < 2 ^ 53 * 2 ^ ?s"
    using b by (simp_all only: power_add [symmetric] split [symmetric])
  then have "2 ^ 52 \<le> n div 2 ^ ?s" "n div 2 ^ ?s < 2 ^ 53"
    by (simp_all add: int_div_less_iff int_le_div_iff)
  with round_shift_bounds [of n ?s] False show ?thesis by (simp add: q_def)
qed

lemma mag_compose:
  assumes "2 ^ 52 \<le> q" "q \<le> 2 ^ 53"
  shows "mag ((int L + 1021) * 2 ^ 52 + q) = q * 2 ^ (L + 1021)"
proof (cases "q = 2 ^ 53")
  case True
  then have "(int L + 1021) * 2 ^ 52 + q = (int L + 1023) * 2 ^ 52" by simp
  then show ?thesis using True by (simp add: mag_def nat_add_distrib power_add)
next
  case False
  with assms have q: "0 \<le> q - 2 ^ 52" "q - 2 ^ 52 < 2 ^ 52" by auto
  have two52: "(2 ^ 52 :: int) \<noteq> 0" by simp
  have eq: "(int L + 1021) * 2 ^ 52 + q = (q - 2 ^ 52) + (int L + 1022) * 2 ^ 52" by simp
  have "((int L + 1021) * 2 ^ 52 + q) div 2 ^ 52 = int L + 1022"
    "((int L + 1021) * 2 ^ 52 + q) mod 2 ^ 52 = q - 2 ^ 52"
    unfolding eq div_mult_self1 [OF two52] mod_mult_self1 using q
    by (simp_all only: div_pos_pos_trivial mod_pos_pos_trivial)
  then show ?thesis by (simp add: mag_def nat_add_distrib)
qed

lemma f_of_int_fields:
  assumes "i \<noteq> 0" "\<bar>i\<bar> \<le> 2 ^ 63"
  defines "n \<equiv> \<bar>i\<bar>"
  defines "q \<equiv> (if bitlen n \<le> 53 then n * 2 ^ (53 - bitlen n) else round_shift n (bitlen n - 53))"
  shows "f_abs_bits (f_of_int i) = (int (bitlen n) + 1021) * 2 ^ 52 + q"
    and "f_neg (f_of_int i) \<longleftrightarrow> i < 0"
    and "(int (bitlen n) + 1021) * 2 ^ 52 + q < inf_bits"
proof -
  have n: "0 < n" using assms(1) by (simp add: n_def)
  have q: "2 ^ 52 \<le> q" "q \<le> 2 ^ 53"
    using significand_bounds [OF n] by (simp_all add: q_def)
  have "bitlen n \<le> 64" using bitlen_le_iff [OF n, of 64] assms(2) by (simp add: n_def)
  then have b: "int (bitlen n) \<le> 64" by simp
  let ?m = "(int (bitlen n) + 1021) * 2 ^ 52 + q"
  show small: "?m < inf_bits" using b q by simp
  have pos: "0 \<le> ?m" using q by simp
  have "uint (f_of_int i) = (?m + (if i < 0 then 2 ^ 63 else 0)) mod 2 ^ 64"
    unfolding f_of_int_def Let_def n_def [symmetric] q_def [symmetric] if_not_P [OF assms(1)] uint_word_of_int
    by simp
  then have u: "uint (f_of_int i) = ?m + (if i < 0 then 2 ^ 63 else 0)"
    using small pos by simp
  show "f_neg (f_of_int i) \<longleftrightarrow> i < 0"
    unfolding f_neg_def u using small pos by simp
  show "f_abs_bits (f_of_int i) = ?m"
  proof -
    define m where "m = ?m"
    have "0 \<le> m" "m < 2 ^ 63" using small pos unfolding m_def by simp_all
    then show ?thesis
      unfolding f_abs_bits_def u m_def [symmetric] by (simp add: mod_add_self2 mod_pos_pos_trivial)
  qed
qed

theorem f_num_of_int:
  assumes "\<bar>i\<bar> \<le> 2 ^ 63"
  shows "f_num (f_of_int i) = sgn i * round53 \<bar>i\<bar> * f_unit"
    and "\<not> f_isNaN (f_of_int i)"
proof -
  have "f_num (f_of_int i) = sgn i * round53 \<bar>i\<bar> * f_unit \<and> \<not> f_isNaN (f_of_int i)"
  proof (cases "i = 0")
    case True
    then show ?thesis by (simp add: f_of_int_def f_num_def f_abs_bits_def f_neg_def f_isNaN_def)
  next
    case False
    let ?n = "\<bar>i\<bar>"
    let ?q = "if bitlen ?n \<le> 53 then ?n * 2 ^ (53 - bitlen ?n) else round_shift ?n (bitlen ?n - 53)"
    have n: "0 < ?n" using False by simp
    note fields = f_of_int_fields [OF False assms]
    have "2 ^ 52 \<le> ?q \<and> ?q \<le> 2 ^ 53" by (rule significand_bounds [OF n])
    then have m: "mag (f_abs_bits (f_of_int i)) = ?q * 2 ^ (bitlen ?n + 1021)"
      unfolding fields(1) by (intro mag_compose) auto
    also have "\<dots> = round53 ?n * f_unit"
    proof (cases "bitlen ?n \<le> 53")
      case True
      then have "53 - bitlen ?n + (bitlen ?n + 1021) = 1074" by simp
      with True show ?thesis
        by (simp only: round53_def f_unit_def if_True mult.assoc power_add [symmetric])
    next
      case False
      then have "bitlen ?n + 1021 = bitlen ?n - 53 + 1074" by simp
      with False show ?thesis
        by (simp only: round53_def f_unit_def if_False mult.assoc power_add [symmetric])
    qed
    finally show ?thesis
      using fields(2) fields(3) [folded fields(1)] False
      unfolding f_num_def f_isNaN_def by (simp add: sgn_if)
  qed
  then show "f_num (f_of_int i) = sgn i * round53 \<bar>i\<bar> * f_unit" "\<not> f_isNaN (f_of_int i)"
    by blast+
qed

lemma f_isInf_of_int: "\<bar>i\<bar> \<le> 2 ^ 63 \<Longrightarrow> \<not> f_isInf (f_of_int i)"
  using f_of_int_fields(1,3) [of i]
  by (cases "i = 0") (auto simp: f_isInf_def f_of_int_def f_abs_bits_def)

lemma round53_small: "0 \<le> n \<Longrightarrow> n \<le> 2 ^ 53 \<Longrightarrow> round53 n = n"
proof -
  assume n: "0 \<le> n" "n \<le> 2 ^ 53"
  show ?thesis
  proof (cases "n < 2 ^ 53")
    case True
    with n have "bitlen n \<le> 53"
      using bitlen_le_iff [of n 53] by (cases "n = 0") (auto simp: bitlen.simps)
    then show ?thesis by (simp add: round53_def)
  next
    case False
    with n have "n = 2 ^ 53" by simp
    moreover have "bitlen (2 ^ 53) = 54"
      using bitlen_le_iff [of "2 ^ 53" 54] bitlen_le_iff [of "2 ^ 53" 53] by simp
    ultimately show ?thesis by (simp add: round53_def round_shift_def)
  qed
qed

lemma round53_large: "2 ^ 53 \<le> n \<Longrightarrow> 2 ^ 53 \<le> round53 n"
proof -
  assume n: "2 ^ 53 \<le> n"
  then have pos: "0 < n" by simp
  have L: "53 < bitlen n" using bitlen_le_iff [OF pos, of 53] n by simp
  have q: "2 ^ 52 \<le> round_shift n (bitlen n - 53)"
    using significand_bounds [OF pos] L by simp
  have "(2 :: int) ^ 1 \<le> 2 ^ (bitlen n - 53)" using L by (intro power_increasing) auto
  then have "2 ^ 52 * 2 \<le> round_shift n (bitlen n - 53) * 2 ^ (bitlen n - 53)"
    using q by (intro mult_mono) auto
  then show ?thesis using L by (simp add: round53_def)
qed

text \<open>Below $2^{53}$ the conversion is exact; above, it stays above.\<close>

lemma f_of_int_exact: "\<bar>i\<bar> \<le> 2 ^ 53 \<Longrightarrow> f_num (f_of_int i) = i * f_unit"
  using f_num_of_int(1) [of i] round53_small [of "\<bar>i\<bar>"] by (simp add: sgn_mult_abs)

lemma f_of_int_large:
  assumes "2 ^ 53 \<le> \<bar>i\<bar>" "\<bar>i\<bar> \<le> 2 ^ 63"
  shows "2 ^ 53 * f_unit \<le> \<bar>f_num (f_of_int i)\<bar>" and "sgn (f_num (f_of_int i)) = sgn i"
proof -
  have r: "2 ^ 53 \<le> round53 \<bar>i\<bar>" using assms(1) by (rule round53_large)
  have i: "i \<noteq> 0" using assms(1) by auto
  have "\<bar>f_num (f_of_int i)\<bar> = round53 \<bar>i\<bar> * f_unit"
    using r i by (simp add: f_num_of_int(1) [OF assms(2)] abs_mult abs_sgn_eq)
  also have "2 ^ 53 * f_unit \<le> round53 \<bar>i\<bar> * f_unit" using r by (rule mult_right_mono) simp
  finally show "2 ^ 53 * f_unit \<le> \<bar>f_num (f_of_int i)\<bar>" .
  show "sgn (f_num (f_of_int i)) = sgn i"
    using r by (simp add: f_num_of_int(1) [OF assms(2)] sgn_mult)
qed

end
