(* ===== verification/Values.thy ===== *)
theory Values
  imports Float64
begin

text \<open>
  The values a property or a row may hold (Go's \<^verbatim>\<open>any\<close>, restricted to the types the engine
  produces) and \<^verbatim>\<open>internal/graph/values.go\<close>: normalisation, the equality of stored values,
  the equality of queries, and the set of stored values an index lookup has to visit.
\<close>

section \<open>Data\<close>

text \<open>
  \<open>VGoInt\<close> is Go's \<^verbatim>\<open>int\<close>, \<open>VInt\<close> is \<^verbatim>\<open>int64\<close>. A map is the list of its entries, with
  distinct keys, in some iteration order. \<open>VNode\<close>, \<open>VEdge\<close>, \<open>VRels\<close> and \<open>VPath\<close> are the
  graph elements a row may bind (\<^verbatim>\<open>graph.Node\<close>, \<^verbatim>\<open>graph.Edge\<close>, \<^verbatim>\<open>[]graph.Edge\<close>, \<^verbatim>\<open>graph.Path\<close>).
\<close>

datatype val =
    VNull
  | VBool bool
  | VInt i64
  | VGoInt i64
  | VFloat f64
  | VStr bytes
  | VList "val list"
  | VMap "(bytes \<times> val) list"
  | VNode u64 "u32 list" "(u32 \<times> val) list"
  | VEdge u64 u32 u64 u64 "(u32 \<times> val) list"
  | VRels "val list"
  | VPath "val list" "val list"

section \<open>Operations\<close>

definition normalize :: "val \<Rightarrow> val" where
  "normalize v = (case v of VGoInt i \<Rightarrow> VInt i | _ \<Rightarrow> v)"

definition IsIndexable :: "val \<Rightarrow> bool" where
  "IsIndexable v =
     (case v of VNull \<Rightarrow> True | VBool _ \<Rightarrow> True | VInt _ \<Rightarrow> True | VFloat _ \<Rightarrow> True | VStr _ \<Rightarrow> True
      | _ \<Rightarrow> False)"

definition sameValue :: "val \<Rightarrow> val \<Rightarrow> bool" where
  "sameValue a b =
     (case normalize a of
        VNull \<Rightarrow> normalize b = VNull
      | VBool x \<Rightarrow> (case normalize b of VBool y \<Rightarrow> x = y | _ \<Rightarrow> False)
      | VInt x \<Rightarrow> (case normalize b of VInt y \<Rightarrow> x = y | _ \<Rightarrow> False)
      | VFloat x \<Rightarrow> (case normalize b of VFloat y \<Rightarrow> x = y | _ \<Rightarrow> False)
      | VStr x \<Rightarrow> (case normalize b of VStr y \<Rightarrow> x = y | _ \<Rightarrow> False)
      | _ \<Rightarrow> False)"

definition QueryEqual :: "val \<Rightarrow> val \<Rightarrow> bool" where
  "QueryEqual a b =
     (case normalize a of
        VBool x \<Rightarrow> (case normalize b of VBool y \<Rightarrow> x = y | _ \<Rightarrow> False)
      | VStr x \<Rightarrow> (case normalize b of VStr y \<Rightarrow> x = y | _ \<Rightarrow> False)
      | VInt x \<Rightarrow> (case normalize b of
            VInt y \<Rightarrow> x = y
          | VFloat y \<Rightarrow> f_eq (f_of_int (sint x)) y
          | _ \<Rightarrow> False)
      | VFloat x \<Rightarrow> (case normalize b of
            VInt y \<Rightarrow> f_eq x (f_of_int (sint y))
          | VFloat y \<Rightarrow> f_eq x y
          | _ \<Rightarrow> False)
      | _ \<Rightarrow> False)"

definition maxExactInt :: int where
  "maxExactInt = 2 ^ 53"

text \<open>\<open>int64_of_float\<close> is the conversion \<^verbatim>\<open>int64(f)\<close> of a float in the range of \<^verbatim>\<open>int64\<close>.\<close>

definition int64_of_float :: "f64 \<Rightarrow> i64" where
  "int64_of_float f = word_of_int (f_trunc f)"

definition equalityProbes :: "val \<Rightarrow> val list \<times> bool" where
  "equalityProbes v =
     (case v of
        VInt x \<Rightarrow>
          (let f = f_of_int (sint x)
           in if f_eq f 0 then ([VInt x, VFloat f, VFloat f_neg_zero], True)
              else ([VInt x, VFloat f], True))
      | VFloat x \<Rightarrow>
          (if f_isNaN x then ([], True)
           else if f_eq x 0 then ([VInt 0, VFloat 0, VFloat f_neg_zero], True)
           else if f_isInf x then ([VFloat x], True)
           else if maxExactInt * f_unit \<le> \<bar>f_num x\<bar> then ([], False)
           else if f_integral x then ([VFloat x, VInt (int64_of_float x)], True)
           else ([VFloat x], True))
      | _ \<Rightarrow> ([v], True))"

section \<open>Numbers of different kinds\<close>

lemma IsIndexable_cases:
  assumes "IsIndexable v"
  obtains "v = VNull" | b where "v = VBool b" | i where "v = VInt i" | f where "v = VFloat f"
    | s where "v = VStr s"
  using assms by (auto simp: IsIndexable_def split: val.splits)

lemma sint_i64_bounds: "- (2 ^ 63) \<le> sint (x :: i64)" "sint x < 2 ^ 63" "\<bar>sint x\<bar> \<le> 2 ^ 63"
  using sint_ge [of x] sint_lt [of x] by auto

lemma f_num_zero [simp]: "f_num 0 = 0" "f_num f_neg_zero = 0"
  by (simp_all add: f_num_0_iff)

lemma f_isNaN_zero [simp]: "\<not> f_isNaN 0" "\<not> f_isNaN f_neg_zero"
  by (simp_all add: f_isNaN_def f_abs_bits_def f_neg_zero_def)

lemma f_isNaN_of_int [simp]: "\<not> f_isNaN (f_of_int (sint (x :: i64)))"
  using sint_i64_bounds(3) by (rule f_num_of_int(2))

text \<open>A 64-bit integer converts to a float below $2^{53}$ in magnitude exactly when it is itself
  below, and then the conversion is exact.\<close>

lemma f_of_i64_eq_iff:
  assumes "\<bar>m\<bar> < 2 ^ 53 * f_unit"
  shows "f_num (f_of_int (sint (x :: i64))) = m \<longleftrightarrow> sint x * f_unit = m"
proof (cases "\<bar>sint x\<bar> \<le> 2 ^ 53")
  case True
  then show ?thesis by (simp add: f_of_int_exact)
next
  case False
  then have l: "2 ^ 53 * f_unit \<le> \<bar>f_num (f_of_int (sint x))\<bar>"
    using sint_i64_bounds [of x] by (intro f_of_int_large) auto
  have "2 ^ 53 * f_unit \<le> \<bar>sint x\<bar> * f_unit"
    using False by (intro mult_right_mono) auto
  then have "2 ^ 53 * f_unit \<le> \<bar>sint x * f_unit\<bar>" by (simp add: abs_mult)
  with l assms show ?thesis by auto
qed

lemma sint_eq_iff: "sint (x :: i64) = sint y \<longleftrightarrow> x = y"
  by (metis of_int_sint scast_id)

lemma f_of_i64_0_iff: "f_num (f_of_int (sint (x :: i64))) = 0 \<longleftrightarrow> x = 0"
  using f_of_i64_eq_iff [of 0 x] sint_eq_iff [of x 0] by (simp add: f_unit_def)

lemma f_of_int_0 [simp]: "f_of_int 0 = 0"
  by (simp add: f_of_int_def)

lemma f_of_i64_zeros [simp]:
  "f_of_int (sint (x :: i64)) = 0 \<longleftrightarrow> x = 0" "f_of_int (sint x) \<noteq> f_neg_zero"
proof -
  show "f_of_int (sint x) = 0 \<longleftrightarrow> x = 0"
    using f_of_i64_0_iff [of x] by auto
  then show "f_of_int (sint x) \<noteq> f_neg_zero"
    using f_of_i64_0_iff [of x] f_num_zero(2) by (auto simp: f_neg_zero_def)
qed

lemma f_trunc_integral: "f_integral f \<Longrightarrow> f_trunc f * f_unit = f_num f"
proof -
  assume "f_integral f"
  then have d: "f_unit dvd f_num f" by (simp add: f_integral_def dvd_eq_mod_eq_0)
  then show ?thesis
    by (auto simp: f_trunc_def f_floor_def f_ceil_def)
qed

lemma int64_of_float_exact:
  assumes "f_integral f" "- (2 ^ 63) * f_unit \<le> f_num f" "f_num f < 2 ^ 63 * f_unit"
  shows "sint (int64_of_float f) * f_unit = f_num f"
proof -
  have t: "f_trunc f * f_unit = f_num f" using assms(1) by (rule f_trunc_integral)
  with assms(2,3) have "- (2 ^ 63) * f_unit \<le> f_trunc f * f_unit" "f_trunc f * f_unit < 2 ^ 63 * f_unit"
    by simp_all
  then have "- (2 ^ 63) \<le> f_trunc f" "f_trunc f < 2 ^ 63"
    by (simp_all only: mult_le_cancel_right_pos [OF f_unit_pos(1)] mult_less_cancel_right_pos [OF f_unit_pos(1)])
  then have "sint (int64_of_float f) = f_trunc f"
    by (simp add: int64_of_float_def sint_sbintrunc' signed_take_bit_int_eq_self)
  with t show ?thesis by simp
qed

section \<open>The probes of an equality lookup\<close>

lemma QueryEqual_scalar_simps:
  "QueryEqual (VInt x) (VInt y) \<longleftrightarrow> x = y"
  "QueryEqual (VInt x) (VFloat g) \<longleftrightarrow> f_eq (f_of_int (sint x)) g"
  "QueryEqual (VFloat f) (VInt y) \<longleftrightarrow> f_eq f (f_of_int (sint y))"
  "QueryEqual (VFloat f) (VFloat g) \<longleftrightarrow> f_eq f g"
  "QueryEqual (VStr s) (VStr t) \<longleftrightarrow> s = t"
  "QueryEqual (VBool p) (VBool q) \<longleftrightarrow> p = q"
  by (simp_all add: QueryEqual_def normalize_def)

lemma QueryEqual_float_int:
  assumes "\<not> f_isNaN f" "\<bar>f_num f\<bar> < 2 ^ 53 * f_unit"
  shows "QueryEqual (VInt y) (VFloat f) \<longleftrightarrow> f_integral f \<and> y = int64_of_float f"
proof -
  have "QueryEqual (VInt y) (VFloat f) \<longleftrightarrow> sint y * f_unit = f_num f"
    using assms f_of_i64_eq_iff [of "f_num f" y]
    by (simp add: QueryEqual_scalar_simps f_eq_def)
  also have "\<dots> \<longleftrightarrow> f_integral f \<and> y = int64_of_float f"
  proof
    assume y: "sint y * f_unit = f_num f"
    then have i: "f_integral f" using assms(1) by (metis f_integral_def mod_mult_self2_is_0)
    from f_trunc_integral [OF i] y have "f_trunc f = sint y"
      by (metis f_unit_pos(2) mult_right_cancel)
    then show "f_integral f \<and> y = int64_of_float f" using i by (simp add: int64_of_float_def)
  next
    assume i: "f_integral f \<and> y = int64_of_float f"
    have "\<bar>f_num f\<bar> < 2 ^ 63 * f_unit"
      using assms(2) by (rule less_le_trans) (simp add: mult_right_mono)
    with i show "sint y * f_unit = f_num f"
      using int64_of_float_exact [of f] by (simp add: abs_less_iff)
  qed
  finally show ?thesis .
qed

lemma equalityProbes_int:
  assumes "equalityProbes (VInt x) = (ps, True)" and "IsIndexable w" and "w \<noteq> VNull"
  shows "w \<in> set ps \<longleftrightarrow> QueryEqual w (VInt x)"
proof -
  let ?f = "f_of_int (sint x)"
  have zero: "f_eq ?f 0 \<longleftrightarrow> x = 0" by (simp add: f_eq_def f_of_i64_0_iff)
  have ps: "set ps = (if x = 0 then {VInt x, VFloat ?f, VFloat f_neg_zero} else {VInt x, VFloat ?f})"
    using assms(1) zero by (auto simp: equalityProbes_def Let_def split: if_splits)
  have fl: "f_eq g ?f \<longleftrightarrow> g = ?f \<or> x = 0 \<and> g = f_neg_zero" for g
  proof (cases "x = 0")
    case True
    then show ?thesis
      by (auto simp: f_eq_def f_of_int_def f_num_0_iff)
  next
    case False
    then have "f_num ?f \<noteq> 0" by (simp add: f_of_i64_0_iff)
    then have "f_num g = f_num ?f \<longleftrightarrow> g = ?f"
      using f_num_eq_iff [of g ?f] f_abs_bits_0_iff [of ?f] f_num_0_iff [of ?f] by auto
    with False show ?thesis by (auto simp: f_eq_def)
  qed
  show ?thesis
    by (rule IsIndexable_cases [OF assms(2)])
      (use assms(3) in \<open>auto simp: ps fl QueryEqual_def normalize_def\<close>)
qed

text \<open>The float probed for is not a NaN and not a zero.\<close>

lemma equalityProbes_float:
  assumes "equalityProbes (VFloat f) = (ps, True)" and "IsIndexable w" and "w \<noteq> VNull"
    and nan: "\<not> f_isNaN f" and nz: "f_num f \<noteq> 0"
  shows "w \<in> set ps \<longleftrightarrow> QueryEqual w (VFloat f)"
proof -
  have fl: "f_eq g f \<longleftrightarrow> g = f" for g
    using f_num_eq_iff [of g f] f_abs_bits_0_iff [of f] f_num_0_iff [of f] nz nan
    by (auto simp: f_eq_def)
  have int: "QueryEqual (VInt y) (VFloat f) \<longleftrightarrow> VInt y \<in> set ps" for y
  proof (cases "f_isInf f")
    case True
    with assms(1) nan nz have ps: "ps = [VFloat f]"
      by (simp add: equalityProbes_def f_eq_def)
    have "f_num f \<noteq> f_num (f_of_int (sint y))"
    proof
      assume "f_num f = f_num (f_of_int (sint y))"
      then have "f = f_of_int (sint y)"
        using f_num_eq_iff f_abs_bits_0_iff f_num_0_iff nz by metis
      then show False using True f_isInf_of_int [OF sint_i64_bounds(3) [of y]] by simp
    qed
    with ps show ?thesis by (simp add: QueryEqual_scalar_simps f_eq_def)
  next
    case False
    with assms(1) nan nz have small: "\<bar>f_num f\<bar> < 2 ^ 53 * f_unit"
      and ps: "ps = (if f_integral f then [VFloat f, VInt (int64_of_float f)] else [VFloat f])"
      by (auto simp: equalityProbes_def f_eq_def maxExactInt_def split: if_splits)
    then show ?thesis using QueryEqual_float_int [OF nan small, of y] by auto
  qed
  have flps: "VFloat g \<in> set ps \<longleftrightarrow> g = f" for g
    using assms(1) nan nz by (auto simp: equalityProbes_def f_eq_def split: if_splits)
  have other: "VBool b \<notin> set ps" "VStr s \<notin> set ps" for b s
    using assms(1) nan nz by (auto simp: equalityProbes_def f_eq_def split: if_splits)
  show ?thesis
    by (rule IsIndexable_cases [OF assms(2)])
      (use assms(3) in \<open>auto simp: int [symmetric, unfolded QueryEqual_scalar_simps] flps fl other QueryEqual_def normalize_def\<close>)
qed

lemma equalityProbes_iff:
  assumes "equalityProbes v = (ps, True)" and "IsIndexable v" and "IsIndexable w" and "w \<noteq> VNull"
  shows "w \<in> set ps \<longleftrightarrow> QueryEqual w v"
  using assms(2)
proof (cases rule: IsIndexable_cases)
  case (3 x)
  with assms show ?thesis using equalityProbes_int by simp
next
  case (4 f)
  then consider "f_isNaN f" "ps = []" | "\<not> f_isNaN f" "f_num f = 0" "ps = [VInt 0, VFloat 0, VFloat f_neg_zero]"
    | "\<not> f_isNaN f" "f_num f \<noteq> 0"
    using assms(1) by (auto simp: equalityProbes_def f_eq_def split: if_splits)
  then show ?thesis
  proof cases
    case 1
    show ?thesis
      by (rule IsIndexable_cases [OF assms(3)])
        (use 1 4 in \<open>auto simp: QueryEqual_def normalize_def f_eq_def\<close>)
  next
    case 2
    show ?thesis
      by (rule IsIndexable_cases [OF assms(3)])
        (use assms(4) 2 4 in \<open>auto simp: QueryEqual_def normalize_def f_eq_def f_of_i64_0_iff f_num_0_iff\<close>)
  next
    case 3
    with 4 assms show ?thesis using equalityProbes_float by simp
  qed
qed (use assms in \<open>auto simp: equalityProbes_def QueryEqual_def normalize_def IsIndexable_def split: val.splits\<close>)

lemma equalityProbes_distinct: "distinct (fst (equalityProbes v))"
proof (cases v)
  case (VInt x)
  have "f_of_int (sint x) = f_neg_zero \<Longrightarrow> x = 0"
    using f_of_i64_0_iff [of x] by simp
  moreover have "f_of_int (sint (0 :: i64)) \<noteq> f_neg_zero"
    by (simp add: f_of_int_def f_neg_zero_def)
  ultimately show ?thesis using VInt by (auto simp: equalityProbes_def Let_def)
qed (auto simp: equalityProbes_def f_neg_zero_def)

text \<open>
  C28. An index lookup for \<open>v\<close> visits exactly the keys of the values a query considers equal to
  \<open>v\<close>: when \<open>equalityProbes\<close> says its list is exhaustive, the list holds every indexable value
  other than null that \<open>QueryEqual\<close> accepts (an integer and the float of the same value, both
  zeros), nothing else that is not null, and no value twice.
\<close>

theorem equalityProbes_exact:
  assumes "equalityProbes v = (ps, True)" and "IsIndexable v"
  shows "{w \<in> set ps. IsIndexable w \<and> w \<noteq> VNull} = {w. IsIndexable w \<and> w \<noteq> VNull \<and> QueryEqual w v} \<and> distinct ps"
  using equalityProbes_iff [OF assms] equalityProbes_distinct [of v] assms(1) by auto

theorem equalityProbes_exact_witness:
  "{w \<in> set [VInt 0, VFloat 0, VFloat f_neg_zero]. IsIndexable w \<and> w \<noteq> VNull}
     = {w. IsIndexable w \<and> w \<noteq> VNull \<and> QueryEqual w (VInt 0)}"
  using equalityProbes_exact [of "VInt 0" "[VInt 0, VFloat 0, VFloat f_neg_zero]"]
  by (simp add: equalityProbes_def IsIndexable_def f_of_int_def f_eq_def)

end
