(* ===== verification/Codec_Value.thy ===== *)
theory Codec_Value
  imports Values
begin

text \<open>
  \<^verbatim>\<open>internal/storage/codec/value.go\<close>: the order-preserving encoding of indexed values. The main
  facts: decoding inverts encoding, also when more bytes follow; no encoding is a prefix of
  another; and the byte order of two encodings, whatever follows them, is the order of the
  values (type band first, then the order of the type).
\<close>

section \<open>Model\<close>

definition tagNull :: byte where "tagNull = 0x00"
definition tagBool :: byte where "tagBool = 0x01"
definition tagInt :: byte where "tagInt = 0x02"
definition tagFloat :: byte where "tagFloat = 0x03"
definition tagStr :: byte where "tagStr = 0x04"

definition strEsc :: byte where "strEsc = 0x00"
definition strFF :: byte where "strFF = 0xFF"
definition strTerm :: byte where "strTerm = 0x00"

lemmas tag_defs = tagNull_def tagBool_def tagInt_def tagFloat_def tagStr_def
lemmas str_byte_defs = strEsc_def strFF_def strTerm_def

abbreviation signBit :: "64 word" where
  "signBit \<equiv> 0x8000000000000000"

fun appendOrderedString :: "bytes \<Rightarrow> bytes \<Rightarrow> bytes" where
  "appendOrderedString dst [] = dst @ [strTerm, strTerm]"
| "appendOrderedString dst (c # s) =
     appendOrderedString (if c = strEsc then dst @ [strEsc, strFF] else dst @ [c]) s"

text \<open>The loop of \<^verbatim>\<open>decodeOrderedString\<close>: the bytes still to read, the string so far, the position.\<close>

fun decodeOrderedLoop :: "bytes \<Rightarrow> bytes \<Rightarrow> nat \<Rightarrow> (bytes \<times> nat) result" where
  "decodeOrderedLoop [] b i = Inl ErrShort"
| "decodeOrderedLoop (c # src) b i =
     (if c \<noteq> strEsc then decodeOrderedLoop src (b @ [c]) (i + 1)
      else case src of
             [] \<Rightarrow> Inl ErrShort
           | d # rest \<Rightarrow>
               if d = strTerm then Inr (b, i + 2)
               else if d = strFF then decodeOrderedLoop rest (b @ [strEsc]) (i + 2)
               else Inl (ErrInvalidEscape d))"

definition decodeOrderedString :: "bytes \<Rightarrow> (bytes \<times> nat) result" where
  "decodeOrderedString src = decodeOrderedLoop src [] 0"

definition AppendStringPrefix :: "bytes \<Rightarrow> bytes \<Rightarrow> bytes" where
  "AppendStringPrefix dst s =
     (let enc = appendOrderedString (dst @ [tagStr]) s in take (length enc - 2) enc)"

definition float_key :: "f64 \<Rightarrow> u64" where
  "float_key bits = (if bits AND signBit \<noteq> 0 then NOT bits else bits OR signBit)"

definition float_unkey :: "u64 \<Rightarrow> f64" where
  "float_unkey bits = (if bits AND signBit \<noteq> 0 then bits AND NOT signBit else NOT bits)"

definition AppendIndexValue :: "bytes \<Rightarrow> val \<Rightarrow> bytes result" where
  "AppendIndexValue dst v =
     (case v of
        VNull \<Rightarrow> Inr (dst @ [tagNull])
      | VBool x \<Rightarrow> Inr (dst @ [tagBool, if x then 1 else 0])
      | VInt x \<Rightarrow> Inr ((dst @ [tagInt]) @ PutUint64 (x XOR signBit))
      | VFloat x \<Rightarrow> Inr ((dst @ [tagFloat]) @ PutUint64 (float_key x))
      | VStr x \<Rightarrow> Inr (appendOrderedString (dst @ [tagStr]) x)
      | _ \<Rightarrow> Inl ErrNonIndexable)"

definition DecodeIndexValue :: "bytes \<Rightarrow> (val \<times> nat) result" where
  "DecodeIndexValue src =
     (case src of
        [] \<Rightarrow> Inl ErrShort
      | tag # rest \<Rightarrow>
          if tag = tagNull then Inr (VNull, 1)
          else if tag = tagBool then
            (if length src < 2 then Inl ErrShort else Inr (VBool (src ! 1 \<noteq> 0), 2))
          else if tag = tagInt then
            (if length src < 9 then Inl ErrShort
             else Inr (VInt (Uint64 (take 8 (drop 1 src)) XOR signBit), 9))
          else if tag = tagFloat then
            (if length src < 9 then Inl ErrShort
             else Inr (VFloat (float_unkey (Uint64 (take 8 (drop 1 src)))), 9))
          else if tag = tagStr then
            bindR (decodeOrderedString (drop 1 src)) (\<lambda>(s, n). Inr (VStr s, 1 + n))
          else Inl (ErrUnknownTag tag))"

section \<open>Encodings as plain byte strings\<close>

text \<open>\<open>ord_enc s\<close> and \<open>ienc v\<close>: the bytes appended for a string and for an indexable value.\<close>

fun ord_body :: "bytes \<Rightarrow> bytes" where
  "ord_body [] = []"
| "ord_body (c # s) = (if c = 0 then [0, 0xFF] else [c]) @ ord_body s"

definition ord_enc :: "bytes \<Rightarrow> bytes" where
  "ord_enc s = ord_body s @ [0, 0]"

lemma ord_enc_simps [simp]:
  "ord_enc [] = [0, 0]"
  "ord_enc (c # s) = (if c = 0 then [0, 0xFF] else [c]) @ ord_enc s"
  by (simp_all add: ord_enc_def)

lemma appendOrderedString_eq: "appendOrderedString dst s = dst @ ord_enc s"
  by (induction s arbitrary: dst) (auto simp: str_byte_defs)

definition ienc :: "val \<Rightarrow> bytes" where
  "ienc v = (case AppendIndexValue [] v of Inr b \<Rightarrow> b | Inl _ \<Rightarrow> [])"

lemma ienc_simps:
  "ienc VNull = [tagNull]"
  "ienc (VBool x) = [tagBool, if x then 1 else 0]"
  "ienc (VInt i) = tagInt # PutUint64 (i XOR signBit)"
  "ienc (VFloat f) = tagFloat # PutUint64 (float_key f)"
  "ienc (VStr s) = tagStr # ord_enc s"
  by (simp_all add: ienc_def AppendIndexValue_def appendOrderedString_eq)

lemma AppendIndexValue_eq:
  "AppendIndexValue dst v = (if IsIndexable v then Inr (dst @ ienc v) else Inl ErrNonIndexable)"
  by (cases v) (simp_all add: AppendIndexValue_def IsIndexable_def ienc_simps appendOrderedString_eq)

section \<open>Round trip\<close>

lemma decodeOrderedLoop_enc:
  "decodeOrderedLoop (ord_enc s @ rest) b i = Inr (b @ s, i + length (ord_enc s))"
  by (induction s arbitrary: b i) (auto simp: str_byte_defs)

lemma decodeOrderedString_enc: "decodeOrderedString (ord_enc s @ rest) = Inr (s, length (ord_enc s))"
  by (simp add: decodeOrderedString_def decodeOrderedLoop_enc)

lemma signBit_eq: "signBit = push_bit 63 1"
  by simp

lemma and_signBit_iff: "(b :: 64 word) AND signBit \<noteq> 0 \<longleftrightarrow> bit b 63"
  unfolding signBit_eq by (metis and_exp_eq_0_iff_not_bit push_bit_of_1)

lemma xor_signBit: "(b :: 64 word) XOR signBit = flip_bit 63 b"
  unfolding signBit_eq flip_bit_def ..

lemma or_signBit: "(b :: 64 word) OR signBit = set_bit 63 b"
  unfolding signBit_eq set_bit_def ..

lemma and_not_signBit: "(b :: 64 word) AND NOT signBit = unset_bit 63 b"
  unfolding signBit_eq unset_bit_eq_and_not ..

lemma float_unkey_key [simp]: "float_unkey (float_key f) = f"
  unfolding float_unkey_def float_key_def and_signBit_iff or_signBit and_not_signBit
  by (auto simp: bit_simps intro!: bit_word_eqI)

lemma DecodeIndexValue_ienc:
  assumes "IsIndexable v"
  shows "DecodeIndexValue (ienc v @ rest) = Inr (v, length (ienc v))"
  using assms
  by (cases rule: IsIndexable_cases)
    (simp_all add: DecodeIndexValue_def ienc_simps tag_defs decodeOrderedString_enc xor.assoc)

section \<open>Order\<close>

lemma bit_63_iff: "bit (x :: 64 word) 63 \<longleftrightarrow> f_neg x"
proof -
  have "bit x 63 \<longleftrightarrow> odd (uint x div 2 ^ 63)"
    using bit_uint_iff [of x 63] by (simp add: bit_iff_odd)
  moreover have "uint x div 2 ^ 63 = (if f_neg x then 1 else 0)"
    using uint_lt2p [of x] by (auto simp: f_neg_def)
  ultimately show ?thesis by simp
qed

lemma sint_uint_64: "sint (x :: 64 word) = (if f_neg x then uint x - 2 ^ 64 else uint x)"
proof -
  have u: "uint x = sint x mod 2 ^ 64" using uint_sint [of x] by (simp add: take_bit_eq_mod)
  have b: "- (2 ^ 63) \<le> sint x" "sint x < 2 ^ 63" by (fact sint_i64_bounds)+
  have neg: "f_neg x \<longleftrightarrow> sint x < 0"
    using bit_63_iff [of x] bit_last_iff [of x] by simp
  show ?thesis
  proof (cases "sint x < 0")
    case True
    then have "sint x mod 2 ^ 64 = (sint x + 2 ^ 64) mod 2 ^ 64" by simp
    also have "\<dots> = sint x + 2 ^ 64" using True b by (intro mod_pos_pos_trivial) auto
    finally show ?thesis using True neg u by simp
  next
    case False
    then have "sint x mod 2 ^ 64 = sint x" using b by (intro mod_pos_pos_trivial) auto
    then show ?thesis using False neg u by simp
  qed
qed

lemma uint_plus_signBit: "uint (x + signBit) = (if f_neg x then uint x - 2 ^ 63 else uint x + 2 ^ 63)"
proof -
  have "uint (x + signBit) = (uint x + 2 ^ 63) mod 2 ^ 64" by (simp add: uint_word_ariths)
  moreover have "0 \<le> uint x" "uint x < 2 ^ 64" using uint_lt2p [of x] by simp_all
  moreover have "(uint x + 2 ^ 63) mod 2 ^ 64 = (uint x - 2 ^ 63) mod 2 ^ 64"
    using mod_add_self2 [of "uint x - 2 ^ 63" "2 ^ 64"] by (simp add: add.commute)
  ultimately show ?thesis
    by (cases "f_neg x") (simp_all add: f_neg_def mod_pos_pos_trivial)
qed

lemma xor_signBit_add: "(x :: 64 word) XOR signBit = x + signBit"
proof -
  have two: "(2 :: 64 word) ^ 63 = signBit" by simp
  have "signBit + signBit = 0" by simp
  then have m: "x - signBit = x + signBit" by (simp only: diff_eq_eq add.assoc add_0_right)
  show ?thesis
  proof (cases "bit x 63")
    case True
    then show ?thesis
      by (simp only: xor_signBit flip_bit_eq_if unset_bit_eq if_True of_bool_eq mult_1 two m)
  next
    case False
    then show ?thesis
      by (simp only: xor_signBit flip_bit_eq_if set_bit_eq if_False not_False_eq_True of_bool_eq mult_1 two)
  qed
qed

lemma uint_int_key: "uint ((x :: i64) XOR signBit) = sint x + 2 ^ 63"
  by (simp add: xor_signBit_add uint_plus_signBit sint_uint_64)

lemma uint_float_key: "uint (float_key f) = f_rank f + 2 ^ 63"
proof (cases "f_neg f")
  case True
  have "uint (NOT f) = (- uint f - 1) mod 2 ^ 64"
    by (simp add: not_eq_complement uint_word_ariths mod_simps)
  also have "\<dots> = (2 ^ 64 - 1 - uint f) mod 2 ^ 64"
    using mod_add_self2 [of "- uint f - 1" "2 ^ 64"] by (simp add: algebra_simps)
  also have "\<dots> = 2 ^ 64 - 1 - uint f"
    using uint_lt2p [of f] uint_ge_0 [of f] by (intro mod_pos_pos_trivial) (simp, linarith)
  finally have "uint (NOT f) = 2 ^ 64 - 1 - uint f" .
  moreover have "f_rank f = - 1 - (uint f - 2 ^ 63)"
    using True uint_f64 [of f] by (simp add: f_rank_def)
  ultimately show ?thesis
    using True by (simp add: float_key_def and_signBit_iff bit_63_iff)
next
  case False
  then have "float_key f = f + signBit"
    unfolding float_key_def and_signBit_iff or_signBit set_bit_eq bit_63_iff by simp
  with False show ?thesis
    using uint_f64 [of f] by (simp add: uint_plus_signBit f_rank_def)
qed

lemma ord_enc_less:
  "ord_enc s @ us < ord_enc t @ vs \<longleftrightarrow> s < t \<or> s = t \<and> us < vs"
proof (induction s arbitrary: t)
  case Nil
  then show ?case by (cases t) (auto simp: word_neq_0_conv)
next
  case (Cons c s)
  show ?case
  proof (cases t)
    case Nil
    then show ?thesis by (auto simp: word_less_def)
  next
    case (Cons d t')
    have "\<not> d < 0" "\<not> c < 0" "c \<noteq> 0 \<Longrightarrow> 0 < c" "d \<noteq> 0 \<Longrightarrow> 0 < d" by (auto simp: word_neq_0_conv)
    then show ?thesis using Cons.IH [of t'] Cons by auto
  qed
qed

text \<open>The order of the index: the bands in the order of their tags, then the order of each type.\<close>

fun ival_band :: "val \<Rightarrow> nat" where
  "ival_band VNull = 0"
| "ival_band (VBool _) = 1"
| "ival_band (VInt _) = 2"
| "ival_band (VFloat _) = 3"
| "ival_band (VStr _) = 4"
| "ival_band _ = 5"

fun ival_less :: "val \<Rightarrow> val \<Rightarrow> bool" where
  "ival_less (VBool x) (VBool y) = (\<not> x \<and> y)"
| "ival_less (VInt x) (VInt y) = (sint x < sint y)"
| "ival_less (VFloat x) (VFloat y) = (f_rank x < f_rank y)"
| "ival_less (VStr x) (VStr y) = (x < y)"
| "ival_less v w = (ival_band v < ival_band w)"

lemma int_key_less: "(x :: i64) XOR signBit < y XOR signBit \<longleftrightarrow> sint x < sint y"
  unfolding word_less_def uint_int_key by simp

lemma int_key_inject: "(x :: i64) XOR signBit = y XOR signBit \<longleftrightarrow> x = y"
  by (metis add_right_cancel sint_eq_iff uint_int_key)

lemma float_key_less: "float_key x < float_key y \<longleftrightarrow> f_rank x < f_rank y"
  unfolding word_less_def uint_float_key by simp

lemma float_key_inject: "float_key x = float_key y \<longleftrightarrow> x = y"
  by (metis float_unkey_key)

lemma ienc_less:
  assumes "IsIndexable v" "IsIndexable w"
  shows "ienc v @ us < ienc w @ vs \<longleftrightarrow> ival_less v w \<or> v = w \<and> us < vs"
  by (rule IsIndexable_cases [OF assms(1)]; rule IsIndexable_cases [OF assms(2)])
    (simp_all add: ienc_simps tag_defs ord_enc_less int_key_less int_key_inject float_key_less
      float_key_inject)

lemma ienc_append_eq:
  assumes "IsIndexable v" "IsIndexable w"
  shows "ienc v @ us = ienc w @ vs \<longleftrightarrow> v = w \<and> us = vs"
proof
  assume eq: "ienc v @ us = ienc w @ vs"
  then have "v = w"
    using DecodeIndexValue_ienc [OF assms(1), of us] DecodeIndexValue_ienc [OF assms(2), of vs] by simp
  with eq show "v = w \<and> us = vs" by simp
qed simp

lemma ienc_inject: "IsIndexable v \<Longrightarrow> IsIndexable w \<Longrightarrow> ienc v = ienc w \<longleftrightarrow> v = w"
  using ienc_append_eq [of v w "[]" "[]"] by simp

lemma ienc_prefix: 
  "IsIndexable v \<Longrightarrow> IsIndexable w \<Longrightarrow> prefix (ienc v @ us) (ienc w @ vs) \<longleftrightarrow> v = w \<and> prefix us vs"
  by (auto simp: prefix_def ienc_append_eq)

lemma ienc_not_Nil [simp]: "IsIndexable v \<Longrightarrow> ienc v \<noteq> []"
  by (cases rule: IsIndexable_cases) (auto simp: ienc_simps)

lemma ord_body_prefix: "prefix (ord_body s) (ord_enc t @ r) \<longleftrightarrow> prefix s t"
proof (induction s arbitrary: t)
  case Nil
  then show ?case by simp
next
  case (Cons c s)
  then show ?case by (cases t) auto
qed

lemma AppendStringPrefix_eq: "AppendStringPrefix dst s = dst @ tagStr # ord_body s"
  by (simp add: AppendStringPrefix_def Let_def appendOrderedString_eq ord_enc_def)

section \<open>Properties\<close>

text \<open>
  C24. Decoding inverts encoding: a value encoded for an index key is read back exactly (a float
  bit for bit), together with its length, whatever bytes follow it in the key.
\<close>

theorem index_value_roundtrip:
  assumes "AppendIndexValue [] v = Inr e"
  shows "DecodeIndexValue (e @ rest) = Inr (v, length e)"
  using assms DecodeIndexValue_ienc [of v rest] by (simp add: AppendIndexValue_eq split: if_splits)

theorem index_value_roundtrip_witness:
  "AppendIndexValue [] (VStr [97, 0, 98]) = Inr [4, 97, 0, 255, 98, 0, 0] \<and>
   DecodeIndexValue ([4, 97, 0, 255, 98, 0, 0] @ [7, 7]) = Inr (VStr [97, 0, 98], 7)"
proof -
  have e: "AppendIndexValue [] (VStr [97, 0, 98]) = Inr [4, 97, 0, 255, 98, 0, 0]" by code_simp
  show ?thesis using e index_value_roundtrip [OF e, of "[7, 7]"] by simp
qed

text \<open>
  C25. The encoding preserves order: whatever bytes follow two encoded values in their keys, the
  byte order is the order of the values (the type bands null, boolean, integer, float, string,
  and inside a band the order of the type), and the following bytes decide only between equal
  values.
\<close>

theorem index_value_order:
  assumes "AppendIndexValue [] v = Inr a" and "AppendIndexValue [] w = Inr b"
  shows "a @ us < b @ vs \<longleftrightarrow> ival_less v w \<or> v = w \<and> us < vs"
  using assms ienc_less [of v w us vs] by (simp add: AppendIndexValue_eq split: if_splits)

theorem index_value_order_witness:
  "AppendIndexValue [] (VInt (- 1)) = Inr [2, 127, 255, 255, 255, 255, 255, 255, 255] \<and>
   AppendIndexValue [] (VInt 5) = Inr [2, 128, 0, 0, 0, 0, 0, 0, 5] \<and>
   ([2, 127, 255, 255, 255, 255, 255, 255, 255] @ [9] < [2, 128, 0, 0, 0, 0, 0, 0, 5] @ [1 :: byte]
    \<longleftrightarrow> ival_less (VInt (- 1)) (VInt 5) \<or> VInt (- 1) = VInt 5 \<and> [9] < [1 :: byte])"
proof -
  have a: "AppendIndexValue [] (VInt (- 1)) = Inr [2, 127, 255, 255, 255, 255, 255, 255, 255]"
    by code_simp
  have b: "AppendIndexValue [] (VInt 5) = Inr [2, 128, 0, 0, 0, 0, 0, 0, 5]" by code_simp
  show ?thesis using a b index_value_order [OF a b] by blast
qed

text \<open>
  C26. Floats are stored in numeric order: if \<open>x < y\<close> as Go compares them then every key of
  \<open>x\<close> sorts before every key of \<open>y\<close>.
\<close>

theorem float_index_order:
  assumes "f_less x y" and "AppendIndexValue [] (VFloat x) = Inr a"
    and "AppendIndexValue [] (VFloat y) = Inr b"
  shows "a @ us < b @ vs"
  using assms ienc_less [of "VFloat x" "VFloat y" us vs] f_num_less_rank [of x y]
  by (simp add: AppendIndexValue_eq IsIndexable_def f_less_def)

theorem float_index_order_witness:
  "f_less 0xBFF0000000000000 0x3FF0000000000000 \<and>
   AppendIndexValue [] (VFloat 0xBFF0000000000000) = Inr [3, 64, 15, 255, 255, 255, 255, 255, 255] \<and>
   AppendIndexValue [] (VFloat 0x3FF0000000000000) = Inr [3, 191, 240, 0, 0, 0, 0, 0, 0] \<and>
   [3, 64, 15, 255, 255, 255, 255, 255, 255] @ [9] < [3, 191, 240, 0, 0, 0, 0, 0, 0] @ [1 :: byte]"
proof -
  have l: "f_less 0xBFF0000000000000 0x3FF0000000000000" by code_simp
  have a: "AppendIndexValue [] (VFloat 0xBFF0000000000000) = Inr [3, 64, 15, 255, 255, 255, 255, 255, 255]"
    by code_simp
  have b: "AppendIndexValue [] (VFloat 0x3FF0000000000000) = Inr [3, 191, 240, 0, 0, 0, 0, 0, 0]"
    by code_simp
  show ?thesis using l a b float_index_order [OF l a b, of "[9]" "[1]"] by blast
qed

text \<open>
  C27. The prefix of a \<^verbatim>\<open>STARTS WITH\<close> scan covers exactly the strings with that prefix: the
  encoding of \<open>t\<close>, whatever follows it, starts with \<open>AppendStringPrefix [] s\<close> precisely when
  \<open>t\<close> starts with \<open>s\<close>.
\<close>

theorem string_prefix_exact:
  assumes "AppendIndexValue [] (VStr t) = Inr e"
  shows "prefix (AppendStringPrefix [] s) (e @ rest) \<longleftrightarrow> prefix s t"
  using assms
  by (simp add: AppendIndexValue_eq IsIndexable_def AppendStringPrefix_eq ienc_simps ord_body_prefix
      split: if_splits) (metis append_Cons Cons_prefix_Cons ienc_simps(5) ord_body_prefix)

theorem string_prefix_exact_witness:
  "AppendIndexValue [] (VStr [97, 0, 98]) = Inr [4, 97, 0, 255, 98, 0, 0] \<and>
   prefix (AppendStringPrefix [] [97, 0]) ([4, 97, 0, 255, 98, 0, 0] @ [1]) \<and>
   prefix [97, 0] [97, 0, 98 :: byte]"
proof -
  have e: "AppendIndexValue [] (VStr [97, 0, 98]) = Inr [4, 97, 0, 255, 98, 0, 0]" by code_simp
  show ?thesis using e string_prefix_exact [OF e, of "[97, 0]" "[1]"] by simp
qed

end
