(* ===== verification/Codec_Key.thy ===== *)
theory Codec_Key
  imports Codec_Value
begin

text \<open>
  \<^verbatim>\<open>internal/storage/codec/key.go\<close>: the keys of the graph tables and their parsers. The main
  facts: parsing inverts building, keys are injective and keys of different tables differ, a
  prefix scan sees exactly the keys with the given leading components, and the byte order of
  keys is the order of their components.
\<close>

section \<open>Model\<close>

definition KeyNode :: byte where "KeyNode = 0x6E"
definition KeyEdge :: byte where "KeyEdge = 0x65"
definition KeyOut :: byte where "KeyOut = 0x6F"
definition KeyIn :: byte where "KeyIn = 0x69"
definition KeyLabel :: byte where "KeyLabel = 0x6C"
definition KeyProp :: byte where "KeyProp = 0x70"
definition KeyUnique :: byte where "KeyUnique = 0x75"
definition KeyRelProp :: byte where "KeyRelProp = 0x72"

lemmas key_tag_defs =
  KeyNode_def KeyEdge_def KeyOut_def KeyIn_def KeyLabel_def KeyProp_def KeyUnique_def KeyRelProp_def

definition appendU32 :: "bytes \<Rightarrow> u32 \<Rightarrow> bytes" where
  "appendU32 dst v = dst @ PutUint32 v"

definition appendU64 :: "bytes \<Rightarrow> u64 \<Rightarrow> bytes" where
  "appendU64 dst v = dst @ PutUint64 v"

definition NodeKey :: "u64 \<Rightarrow> bytes" where
  "NodeKey n = appendU64 [KeyNode] n"

definition EdgeKey :: "u64 \<Rightarrow> bytes" where
  "EdgeKey e = appendU64 [KeyEdge] e"

definition NodePrefix :: bytes where
  "NodePrefix = [KeyNode]"

definition OutKey :: "u64 \<Rightarrow> u32 \<Rightarrow> u64 \<Rightarrow> u64 \<Rightarrow> bytes" where
  "OutKey src typeID dst edge =
     appendU64 (appendU64 (appendU32 (appendU64 [KeyOut] src) typeID) dst) edge"

definition InKey :: "u64 \<Rightarrow> u32 \<Rightarrow> u64 \<Rightarrow> u64 \<Rightarrow> bytes" where
  "InKey dst typeID src edge =
     appendU64 (appendU64 (appendU32 (appendU64 [KeyIn] dst) typeID) src) edge"

definition OutPrefix :: "u64 \<Rightarrow> u32 \<Rightarrow> bytes" where
  "OutPrefix src typeID = appendU32 (appendU64 [KeyOut] src) typeID"

definition OutPrefixAll :: "u64 \<Rightarrow> bytes" where
  "OutPrefixAll src = appendU64 [KeyOut] src"

definition InPrefix :: "u64 \<Rightarrow> u32 \<Rightarrow> bytes" where
  "InPrefix dst typeID = appendU32 (appendU64 [KeyIn] dst) typeID"

definition InPrefixAll :: "u64 \<Rightarrow> bytes" where
  "InPrefixAll dst = appendU64 [KeyIn] dst"

definition LabelKey :: "u32 \<Rightarrow> u64 \<Rightarrow> bytes" where
  "LabelKey label node = appendU64 (appendU32 [KeyLabel] label) node"

definition LabelPrefix :: "u32 \<Rightarrow> bytes" where
  "LabelPrefix label = appendU32 [KeyLabel] label"

definition PropKey :: "u32 \<Rightarrow> u32 \<Rightarrow> val \<Rightarrow> u64 \<Rightarrow> bytes result" where
  "PropKey label propKey value node =
     bindR (AppendIndexValue (appendU32 (appendU32 [KeyProp] label) propKey) value)
       (\<lambda>k. Inr (appendU64 k node))"

definition EdgePrefix :: bytes where
  "EdgePrefix = [KeyEdge]"

definition RelPropPrefix :: "u32 \<Rightarrow> u32 \<Rightarrow> val \<Rightarrow> bytes result" where
  "RelPropPrefix typeID propKey value =
     AppendIndexValue (appendU32 (appendU32 [KeyRelProp] typeID) propKey) value"

definition RelPropKey :: "u32 \<Rightarrow> u32 \<Rightarrow> val \<Rightarrow> u64 \<Rightarrow> bytes result" where
  "RelPropKey typeID propKey value edge =
     bindR (RelPropPrefix typeID propKey value) (\<lambda>k. Inr (appendU64 k edge))"

definition RelPropIndexPrefix :: "u32 \<Rightarrow> u32 \<Rightarrow> bytes" where
  "RelPropIndexPrefix typeID propKey = appendU32 (appendU32 [KeyRelProp] typeID) propKey"

definition ParseRelPropKey :: "bytes \<Rightarrow> (val \<times> u64) result" where
  "ParseRelPropKey key =
     (if length key < 1 + 4 + 4 + 1 + 8 \<or> hd key \<noteq> KeyRelProp
      then Inl (ErrMalformedKey KeyRelProp (length key))
      else bindR (DecodeIndexValue (drop 9 key)) (\<lambda>(v, n).
        if length key \<noteq> 9 + n + 8 then Inl (ErrMalformedKey KeyRelProp (length key))
        else Inr (v, Uint64 (drop (length key - 8) key))))"

definition EdgeIDFromKey :: "bytes \<Rightarrow> u64 result" where
  "EdgeIDFromKey key =
     (if length key \<noteq> 1 + 8 \<or> hd key \<noteq> KeyEdge then Inl (ErrMalformedKey KeyEdge (length key))
      else Inr (Uint64 (take 8 (drop 1 key))))"

definition UniqueKey :: "u32 \<Rightarrow> u32 \<Rightarrow> val \<Rightarrow> bytes result" where
  "UniqueKey label propKey value =
     AppendIndexValue (appendU32 (appendU32 [KeyUnique] label) propKey) value"

definition UniquePrefix :: "u32 \<Rightarrow> u32 \<Rightarrow> bytes" where
  "UniquePrefix label propKey = appendU32 (appendU32 [KeyUnique] label) propKey"

definition PropPrefix :: "u32 \<Rightarrow> u32 \<Rightarrow> val \<Rightarrow> bytes result" where
  "PropPrefix label propKey value =
     AppendIndexValue (appendU32 (appendU32 [KeyProp] label) propKey) value"

definition ParseOutKey :: "bytes \<Rightarrow> (u64 \<times> u32 \<times> u64 \<times> u64) result" where
  "ParseOutKey key =
     (if length key \<noteq> 1 + 8 + 4 + 8 + 8 \<or> hd key \<noteq> KeyOut
      then Inl (ErrMalformedKey KeyOut (length key))
      else Inr (Uint64 (take 8 (drop 1 key)), Uint32 (take 4 (drop 9 key)),
                Uint64 (take 8 (drop 13 key)), Uint64 (take 8 (drop 21 key))))"

definition ParseInKey :: "bytes \<Rightarrow> (u64 \<times> u32 \<times> u64 \<times> u64) result" where
  "ParseInKey key =
     (if length key \<noteq> 1 + 8 + 4 + 8 + 8 \<or> hd key \<noteq> KeyIn
      then Inl (ErrMalformedKey KeyIn (length key))
      else Inr (Uint64 (take 8 (drop 1 key)), Uint32 (take 4 (drop 9 key)),
                Uint64 (take 8 (drop 13 key)), Uint64 (take 8 (drop 21 key))))"

definition ParseLabelKey :: "bytes \<Rightarrow> (u32 \<times> u64) result" where
  "ParseLabelKey key =
     (if length key \<noteq> 1 + 4 + 8 \<or> hd key \<noteq> KeyLabel
      then Inl (ErrMalformedKey KeyLabel (length key))
      else Inr (Uint32 (take 4 (drop 1 key)), Uint64 (take 8 (drop 5 key))))"

definition ParsePropKeyNode :: "bytes \<Rightarrow> u64 result" where
  "ParsePropKeyNode key =
     (if length key < 1 + 4 + 4 + 1 + 8 \<or> hd key \<noteq> KeyProp
      then Inl (ErrMalformedKey KeyProp (length key))
      else Inr (Uint64 (drop (length key - 8) key)))"

definition NodeIDFromKey :: "bytes \<Rightarrow> u64 result" where
  "NodeIDFromKey key =
     (if length key \<noteq> 1 + 8 \<or> hd key \<noteq> KeyNode then Inl (ErrMalformedKey KeyNode (length key))
      else Inr (Uint64 (take 8 (drop 1 key))))"

definition PropBandPrefix :: "u32 \<Rightarrow> u32 \<Rightarrow> byte \<Rightarrow> bytes" where
  "PropBandPrefix label propKey band = appendU32 (appendU32 [KeyProp] label) propKey @ [band]"

definition ParsePropKey :: "bytes \<Rightarrow> (val \<times> u64) result" where
  "ParsePropKey key =
     (if length key < 1 + 4 + 4 + 1 + 8 \<or> hd key \<noteq> KeyProp
      then Inl (ErrMalformedKey KeyProp (length key))
      else bindR (DecodeIndexValue (drop 9 key)) (\<lambda>(v, n).
        if length key \<noteq> 9 + n + 8 then Inl (ErrMalformedKey KeyProp (length key))
        else Inr (v, Uint64 (drop (length key - 8) key))))"

definition PropIndexPrefix :: "u32 \<Rightarrow> u32 \<Rightarrow> bytes" where
  "PropIndexPrefix label propKey = appendU32 (appendU32 [KeyProp] label) propKey"

section \<open>Keys that carry a value\<close>

text \<open>The keys of the value-carrying tables, for values that can be indexed.\<close>

definition p_key :: "u32 \<Rightarrow> u32 \<Rightarrow> val \<Rightarrow> u64 \<Rightarrow> bytes" where
  "p_key l k v n = KeyProp # PutUint32 l @ PutUint32 k @ ienc v @ PutUint64 n"

definition u_key :: "u32 \<Rightarrow> u32 \<Rightarrow> val \<Rightarrow> bytes" where
  "u_key l k v = KeyUnique # PutUint32 l @ PutUint32 k @ ienc v"

definition r_key :: "u32 \<Rightarrow> u32 \<Rightarrow> val \<Rightarrow> u64 \<Rightarrow> bytes" where
  "r_key t k v e = KeyRelProp # PutUint32 t @ PutUint32 k @ ienc v @ PutUint64 e"

lemmas append_int_defs = appendU32_def appendU64_def

lemma PropKey_eq: "PropKey l k v n = (if IsIndexable v then Inr (p_key l k v n) else Inl ErrNonIndexable)"
  by (simp add: PropKey_def AppendIndexValue_eq append_int_defs p_key_def)

lemma UniqueKey_eq: "UniqueKey l k v = (if IsIndexable v then Inr (u_key l k v) else Inl ErrNonIndexable)"
  by (simp add: UniqueKey_def AppendIndexValue_eq append_int_defs u_key_def)

lemma RelPropKey_eq: "RelPropKey t k v e = (if IsIndexable v then Inr (r_key t k v e) else Inl ErrNonIndexable)"
  by (simp add: RelPropKey_def RelPropPrefix_def AppendIndexValue_eq append_int_defs r_key_def)

lemma PropPrefix_eq:
  "PropPrefix l k v =
     (if IsIndexable v then Inr (KeyProp # PutUint32 l @ PutUint32 k @ ienc v) else Inl ErrNonIndexable)"
  by (simp add: PropPrefix_def AppendIndexValue_eq append_int_defs)

lemma RelPropPrefix_eq:
  "RelPropPrefix t k v =
     (if IsIndexable v then Inr (KeyRelProp # PutUint32 t @ PutUint32 k @ ienc v) else Inl ErrNonIndexable)"
  by (simp add: RelPropPrefix_def AppendIndexValue_eq append_int_defs)

lemmas graph_key_defs =
  NodeKey_def EdgeKey_def OutKey_def InKey_def LabelKey_def p_key_def u_key_def r_key_def append_int_defs

lemmas prefix_defs =
  NodePrefix_def EdgePrefix_def OutPrefix_def OutPrefixAll_def InPrefix_def InPrefixAll_def
  LabelPrefix_def RelPropIndexPrefix_def UniquePrefix_def PropBandPrefix_def PropIndexPrefix_def

section \<open>Injectivity and tables\<close>

lemma key_inject [simp]:
  "NodeKey a = NodeKey a' \<longleftrightarrow> a = a'"
  "EdgeKey a = EdgeKey a' \<longleftrightarrow> a = a'"
  "OutKey s t d e = OutKey s' t' d' e' \<longleftrightarrow> s = s' \<and> t = t' \<and> d = d' \<and> e = e'"
  "InKey d t s e = InKey d' t' s' e' \<longleftrightarrow> d = d' \<and> t = t' \<and> s = s' \<and> e = e'"
  "LabelKey l n = LabelKey l' n' \<longleftrightarrow> l = l' \<and> n = n'"
  by (simp_all add: graph_key_defs)

lemma value_key_inject [simp]:
  assumes "IsIndexable v" "IsIndexable v'"
  shows "p_key l k v n = p_key l' k' v' n' \<longleftrightarrow> l = l' \<and> k = k' \<and> v = v' \<and> n = n'"
    and "u_key l k v = u_key l' k' v' \<longleftrightarrow> l = l' \<and> k = k' \<and> v = v'"
    and "r_key t k v e = r_key t' k' v' e' \<longleftrightarrow> t = t' \<and> k = k' \<and> v = v' \<and> e = e'"
  using assms by (simp_all add: graph_key_defs ienc_append_eq ienc_inject)

text \<open>The first byte of a key names its table.\<close>

lemma hd_key [simp]:
  "hd (NodeKey a) = 0x6E" "hd (EdgeKey a) = 0x65" "hd (OutKey s t d e) = 0x6F"
  "hd (InKey d t s e) = 0x69" "hd (LabelKey l n) = 0x6C" "hd (p_key l k v n) = 0x70"
  "hd (u_key l k v) = 0x75" "hd (r_key t k v e) = 0x72"
  by (simp_all add: graph_key_defs key_tag_defs)

lemma key_not_Nil [simp]:
  "NodeKey a \<noteq> []" "EdgeKey a \<noteq> []" "OutKey s t d e \<noteq> []" "InKey d t s e \<noteq> []" "LabelKey l n \<noteq> []"
  "p_key l k v n \<noteq> []" "u_key l k v \<noteq> []" "r_key t k v e \<noteq> []"
  by (simp_all add: graph_key_defs)

lemma hd_neq: "hd a \<noteq> hd b \<Longrightarrow> a \<noteq> b"
  by auto

lemma upd_other_table [simp]: "hd k' \<noteq> hd k \<Longrightarrow> (m(k := x)) k' = m k'"
  by auto

section \<open>Parsing\<close>

lemma parse_key [simp]:
  "NodeIDFromKey (NodeKey a) = Inr a"
  "EdgeIDFromKey (EdgeKey a) = Inr a"
  "ParseOutKey (OutKey s t d e) = Inr (s, t, d, e)"
  "ParseInKey (InKey d t s e) = Inr (d, t, s, e)"
  "ParseLabelKey (LabelKey l n) = Inr (l, n)"
  by (simp_all add: NodeIDFromKey_def EdgeIDFromKey_def ParseOutKey_def ParseInKey_def ParseLabelKey_def
      graph_key_defs)

lemma length_ienc_pos: "IsIndexable v \<Longrightarrow> 1 \<le> length (ienc v)"
  using ienc_not_Nil [of v] by (cases "ienc v") auto

lemma drop_value_key [simp]:
  "drop (9 + length e) (c # PutUint32 l @ PutUint32 k @ e @ x) = x"
proof -
  have "drop (length (c # PutUint32 l @ PutUint32 k @ e)) ((c # PutUint32 l @ PutUint32 k @ e) @ x) = x"
    by (rule append_eq_conv_conj [THEN iffD1, THEN conjunct2, symmetric]) simp
  then show ?thesis by (simp add: add.commute)
qed

lemma parse_value_key [simp]:
  assumes "IsIndexable v"
  shows "ParsePropKey (p_key l k v n) = Inr (v, n)"
    and "ParsePropKeyNode (p_key l k v n) = Inr n"
    and "ParseRelPropKey (r_key t k v e) = Inr (v, e)"
  using assms length_ienc_pos [OF assms]
  by (simp_all add: ParsePropKey_def ParsePropKeyNode_def ParseRelPropKey_def graph_key_defs
      DecodeIndexValue_ienc)

text \<open>A key that a parser of a fixed-width table accepts is one that the builder made.\<close>

lemma key_Cons: "length (key :: bytes) = n \<Longrightarrow> 0 < n \<Longrightarrow> key = hd key # drop 1 key"
  by (cases key) auto

lemma NodeIDFromKey_iff: "NodeIDFromKey key = Inr a \<longleftrightarrow> key = NodeKey a"
proof
  assume h: "NodeIDFromKey key = Inr a"
  then have "length key = 9" "hd key = KeyNode" "a = Uint64 (drop 1 key)"
    by (auto simp: NodeIDFromKey_def split: if_splits)
  then show "key = NodeKey a"
    using key_Cons [of key 9] by (simp add: graph_key_defs Put_Uint)
qed simp

lemma EdgeIDFromKey_iff: "EdgeIDFromKey key = Inr a \<longleftrightarrow> key = EdgeKey a"
proof
  assume h: "EdgeIDFromKey key = Inr a"
  then have "length key = 9" "hd key = KeyEdge" "a = Uint64 (drop 1 key)"
    by (auto simp: EdgeIDFromKey_def split: if_splits)
  then show "key = EdgeKey a"
    using key_Cons [of key 9] by (simp add: graph_key_defs Put_Uint)
qed simp

lemma ParseLabelKey_iff: "ParseLabelKey key = Inr (l, n) \<longleftrightarrow> key = LabelKey l n"
proof
  assume h: "ParseLabelKey key = Inr (l, n)"
  then have k: "length key = 13" "hd key = KeyLabel" "l = Uint32 (take 4 (drop 1 key))"
    "n = Uint64 (drop 5 key)"
    by (auto simp: ParseLabelKey_def split: if_splits)
  then have "key = KeyLabel # take 4 (drop 1 key) @ drop 4 (drop 1 key)"
    using key_Cons [of key 13] by (simp only: append_take_drop_id)
  with k show "key = LabelKey l n"
    by (simp add: graph_key_defs Put_Uint)
qed simp

lemma split_adjacency_key:
  assumes "length (key :: bytes) = 29"
  shows "key = hd key # take 8 (drop 1 key) @ take 4 (drop 9 key) @ take 8 (drop 13 key) @ take 8 (drop 21 key)"
proof -
  have "drop 1 key = take 8 (drop 1 key) @ drop 9 key" "drop 9 key = take 4 (drop 9 key) @ drop 13 key"
    "drop 13 key = take 8 (drop 13 key) @ drop 21 key"
    using append_take_drop_id [of 8 "drop 1 key"] append_take_drop_id [of 4 "drop 9 key"]
      append_take_drop_id [of 8 "drop 13 key"] by simp_all
  moreover have "key = hd key # drop 1 key" using assms key_Cons [of key 29] by simp
  moreover have "take 8 (drop 21 key) = drop 21 key" using assms by simp
  ultimately show ?thesis by metis
qed

lemma ParseOutKey_iff: "ParseOutKey key = Inr (s, t, d, e) \<longleftrightarrow> key = OutKey s t d e"
proof
  assume h: "ParseOutKey key = Inr (s, t, d, e)"
  then have k: "length key = 29" "hd key = KeyOut" "s = Uint64 (take 8 (drop 1 key))"
    "t = Uint32 (take 4 (drop 9 key))" "d = Uint64 (take 8 (drop 13 key))" "e = Uint64 (take 8 (drop 21 key))"
    by (auto simp: ParseOutKey_def split: if_splits)
  then show "key = OutKey s t d e"
    using split_adjacency_key [OF k(1)] by (simp add: graph_key_defs Put_Uint)
qed simp

lemma ParseInKey_iff: "ParseInKey key = Inr (d, t, s, e) \<longleftrightarrow> key = InKey d t s e"
proof
  assume h: "ParseInKey key = Inr (d, t, s, e)"
  then have k: "length key = 29" "hd key = KeyIn" "d = Uint64 (take 8 (drop 1 key))"
    "t = Uint32 (take 4 (drop 9 key))" "s = Uint64 (take 8 (drop 13 key))" "e = Uint64 (take 8 (drop 21 key))"
    by (auto simp: ParseInKey_def split: if_splits)
  then show "key = InKey d t s e"
    using split_adjacency_key [OF k(1)] by (simp add: graph_key_defs Put_Uint)
qed simp

section \<open>Prefix scans and order\<close>

text \<open>Which keys of its own table a prefix selects.\<close>

lemma prefix_key [simp]:
  "prefix NodePrefix (NodeKey a)"
  "prefix EdgePrefix (EdgeKey a)"
  "prefix (OutPrefix s t) (OutKey s' t' d e) \<longleftrightarrow> s = s' \<and> t = t'"
  "prefix (OutPrefixAll s) (OutKey s' t' d e) \<longleftrightarrow> s = s'"
  "prefix (InPrefix d t) (InKey d' t' s e) \<longleftrightarrow> d = d' \<and> t = t'"
  "prefix (InPrefixAll d) (InKey d' t' s e) \<longleftrightarrow> d = d'"
  "prefix (LabelPrefix l) (LabelKey l' n) \<longleftrightarrow> l = l'"
  "prefix (PropIndexPrefix l k) (p_key l' k' v n) \<longleftrightarrow> l = l' \<and> k = k'"
  "prefix (UniquePrefix l k) (u_key l' k' v) \<longleftrightarrow> l = l' \<and> k = k'"
  "prefix (RelPropIndexPrefix t k) (r_key t' k' v e) \<longleftrightarrow> t = t' \<and> k = k'"
  by (simp_all add: prefix_defs graph_key_defs)

lemma prefix_value_key [simp]:
  assumes "IsIndexable v" "IsIndexable v'"
  shows "prefix (KeyProp # PutUint32 l @ PutUint32 k @ ienc v) (p_key l' k' v' n)
           \<longleftrightarrow> l = l' \<and> k = k' \<and> v = v'"
    and "prefix (KeyRelProp # PutUint32 l @ PutUint32 k @ ienc v) (r_key l' k' v' n)
           \<longleftrightarrow> l = l' \<and> k = k' \<and> v = v'"
  using assms ienc_prefix [of v v' "[]" "PutUint64 n"] by (simp_all add: graph_key_defs)

lemma prefix_hd: "prefix p k \<Longrightarrow> p \<noteq> [] \<Longrightarrow> hd k = hd p"
  by (cases p) (auto simp: prefix_def)

lemma hd_prefix [simp]:
  "hd NodePrefix = 0x6E" "hd EdgePrefix = 0x65" "hd (OutPrefix s t) = 0x6F" "hd (OutPrefixAll s) = 0x6F"
  "hd (InPrefix d t) = 0x69" "hd (InPrefixAll d) = 0x69" "hd (LabelPrefix l) = 0x6C"
  "hd (PropIndexPrefix l k) = 0x70" "hd (UniquePrefix l k) = 0x75" "hd (RelPropIndexPrefix t k) = 0x72"
  by (simp_all add: prefix_defs append_int_defs key_tag_defs)

lemma prefix_not_Nil [simp]:
  "NodePrefix \<noteq> []" "EdgePrefix \<noteq> []" "OutPrefix s t \<noteq> []" "OutPrefixAll s \<noteq> []" "InPrefix d t \<noteq> []"
  "InPrefixAll d \<noteq> []" "LabelPrefix l \<noteq> []" "PropIndexPrefix l k \<noteq> []" "UniquePrefix l k \<noteq> []"
  "RelPropIndexPrefix t k \<noteq> []"
  by (simp_all add: prefix_defs append_int_defs)

lemma key_less [simp]:
  "NodeKey a < NodeKey b \<longleftrightarrow> a < b"
  "EdgeKey a < EdgeKey b \<longleftrightarrow> a < b"
  "LabelKey l a < LabelKey l b \<longleftrightarrow> a < b"
  by (simp_all add: graph_key_defs)

lemma value_key_less:
  assumes "IsIndexable v" "IsIndexable w"
  shows "p_key l k v n < p_key l k w n' \<longleftrightarrow> ival_less v w \<or> v = w \<and> n < n'"
    and "r_key l k v n < r_key l k w n' \<longleftrightarrow> ival_less v w \<or> v = w \<and> n < n'"
  using assms by (simp_all add: graph_key_defs ienc_less)

section \<open>Properties\<close>

text \<open>A row of the graph tables, and its key as the source builds it.\<close>

datatype row =
    RNode u64
  | REdge u64
  | ROut u64 u32 u64 u64
  | RIn u64 u32 u64 u64
  | RLabel u32 u64
  | RProp u32 u32 val u64
  | RUnique u32 u32 val
  | RRelProp u32 u32 val u64

fun row_key :: "row \<Rightarrow> bytes result" where
  "row_key (RNode n) = Inr (NodeKey n)"
| "row_key (REdge e) = Inr (EdgeKey e)"
| "row_key (ROut s t d e) = Inr (OutKey s t d e)"
| "row_key (RIn d t s e) = Inr (InKey d t s e)"
| "row_key (RLabel l n) = Inr (LabelKey l n)"
| "row_key (RProp l k v n) = PropKey l k v n"
| "row_key (RUnique l k v) = UniqueKey l k v"
| "row_key (RRelProp t k v e) = RelPropKey t k v e"

text \<open>
  C29. No two rows share a key: the keys of all eight graph tables are injective and pairwise
  disjoint, including those that carry an encoded value between fixed-width fields.
\<close>

theorem row_key_injective:
  assumes "row_key a = Inr k" and "row_key b = Inr k"
  shows "a = b"
  using assms
  by (cases a; cases b)
    (auto simp: PropKey_eq UniqueKey_eq RelPropKey_eq split: if_splits dest: arg_cong [of _ _ hd])

theorem row_key_injective_witness:
  "{b. row_key b = Inr (p_key 1 2 (VInt 3) 4)} = {RProp 1 2 (VInt 3) 4}"
proof -
  have k: "row_key (RProp 1 2 (VInt 3) 4) = Inr (p_key 1 2 (VInt 3) 4)"
    by (simp add: PropKey_eq IsIndexable_def)
  show ?thesis using k row_key_injective [OF _ k] by blast
qed

text \<open>
  C30. An adjacency scan sees exactly the edges asked for: of the keys that parse as outgoing
  entries, those with the prefix \<open>OutPrefix s t\<close> are the edges of source \<open>s\<close> and type \<open>t\<close>, and
  those with \<open>OutPrefixAll s\<close> the edges of source \<open>s\<close> and any type (the same holds for incoming).
\<close>

theorem adjacency_prefix_exact:
  assumes "ParseOutKey ok = Inr (s', t', d', e')" and "ParseInKey ik = Inr (d'', t'', s'', e'')"
  shows "(prefix (OutPrefix s t) ok \<longleftrightarrow> s' = s \<and> t' = t) \<and> (prefix (OutPrefixAll s) ok \<longleftrightarrow> s' = s) \<and>
         (prefix (InPrefix d t) ik \<longleftrightarrow> d'' = d \<and> t'' = t) \<and> (prefix (InPrefixAll d) ik \<longleftrightarrow> d'' = d)"
  using assms by (auto simp: ParseOutKey_iff ParseInKey_iff)

theorem adjacency_prefix_exact_witness:
  "ParseOutKey (OutKey 1 2 3 4) = Inr (1, 2, 3, 4) \<and> ParseInKey (InKey 3 2 1 4) = Inr (3, 2, 1, 4) \<and>
   prefix (OutPrefix 1 2) (OutKey 1 2 3 4) \<and> \<not> prefix (OutPrefix 1 5) (OutKey 1 2 3 4) \<and>
   prefix (InPrefixAll 3) (InKey 3 2 1 4)"
proof -
  have o: "ParseOutKey (OutKey 1 2 3 4) = Inr (1, 2, 3, 4)"
    and i: "ParseInKey (InKey 3 2 1 4) = Inr (3, 2, 1, 4)" by simp_all
  show ?thesis
    using o i adjacency_prefix_exact [OF o i, of 1 2 3] adjacency_prefix_exact [OF o i, of 1 5 3] by simp
qed

end
