(* ===== verification/Codec_Record.thy ===== *)
theory Codec_Record
  imports Codec_Key "HOL-Library.AList" "HOL-Library.Multiset"
begin

text \<open>
  \<^verbatim>\<open>internal/storage/codec/record.go\<close>: the self-describing encoding of node and edge records. A
  property map is the list of its entries (distinct keys, some iteration order); a reader is the
  list of the bytes still to consume. The main facts: the decoders terminate on every input,
  and they read back every record that the encoders write, up to the order of map entries.
\<close>

section \<open>Varints\<close>

text \<open>\<^verbatim>\<open>binary.AppendUvarint\<close>, \<^verbatim>\<open>binary.Uvarint\<close>: seven bits per byte, least significant first. \<open>None\<close>
  stands for a result count \<open>n <= 0\<close> (truncated or overflowing input).\<close>

function uvarint_bytes :: "int \<Rightarrow> bytes" where
  "uvarint_bytes x =
     (if x < 128 then [word_of_int x]
      else word_of_int (x mod 128 + 128) # uvarint_bytes (x div 128))"
  by pat_completeness auto
termination
  by (relation "measure nat") auto

declare uvarint_bytes.simps [simp del]

definition AppendUvarint :: "bytes \<Rightarrow> u64 \<Rightarrow> bytes" where
  "AppendUvarint dst v = dst @ uvarint_bytes (uint v)"

fun Uvarint_loop :: "nat \<Rightarrow> int \<Rightarrow> bytes \<Rightarrow> (u64 \<times> nat) option" where
  "Uvarint_loop i x [] = None"
| "Uvarint_loop i x (b # buf) =
     (if i = 10 then None
      else if b < 0x80 then
        (if i = 9 \<and> 1 < b then None
         else Some (word_of_int (x + uint b * 128 ^ i), i + 1))
      else Uvarint_loop (i + 1) (x + (uint b mod 128) * 128 ^ i) buf)"

definition Uvarint :: "bytes \<Rightarrow> (u64 \<times> nat) option" where
  "Uvarint buf = Uvarint_loop 0 0 buf"

text \<open>\<^verbatim>\<open>binary.AppendVarint\<close>, \<^verbatim>\<open>binary.Varint\<close>: zig-zag encoded signed integers.\<close>

definition AppendVarint :: "bytes \<Rightarrow> i64 \<Rightarrow> bytes" where
  "AppendVarint dst v = AppendUvarint dst (if sint v < 0 then NOT (push_bit 1 v) else push_bit 1 v)"

definition Varint :: "bytes \<Rightarrow> (i64 \<times> nat) option" where
  "Varint buf =
     (case Uvarint buf of
        None \<Rightarrow> None
      | Some (ux, n) \<Rightarrow> Some (if bit ux 0 then NOT (drop_bit 1 ux) else drop_bit 1 ux, n))"

section \<open>Encoders\<close>

definition recNull :: byte where "recNull = 0"
definition recBool :: byte where "recBool = 1"
definition recInt :: byte where "recInt = 2"
definition recFloat :: byte where "recFloat = 3"
definition recStr :: byte where "recStr = 4"
definition recList :: byte where "recList = 5"
definition recMap :: byte where "recMap = 6"

lemmas rec_tag_defs =
  recNull_def recBool_def recInt_def recFloat_def recStr_def recList_def recMap_def

type_synonym props = "(u32 \<times> val) list"

record NodeRecord =
  Labels :: "u32 list"
  Props :: props

record EdgeRecord =
  EType :: u32
  Src :: u64
  Dst :: u64
  EProps :: props

definition appendInt :: "bytes \<Rightarrow> i64 \<Rightarrow> bytes" where
  "appendInt dst v = AppendVarint (dst @ [recInt]) v"

lemma size_list_sort_key [termination_simp]: "size_list f (sort_key g xs) = size_list f xs"
  by (simp add: size_list_conv_sum_list sum_mset_sum_list [symmetric])

text \<open>\<^verbatim>\<open>appendRecValue\<close> and its two loops, over the elements of a list and the sorted entries of a map.\<close>

fun appendRecValue :: "bytes \<Rightarrow> val \<Rightarrow> bytes result"
  and appendRecList :: "bytes \<Rightarrow> val list \<Rightarrow> bytes result"
  and appendRecEntries :: "bytes \<Rightarrow> (bytes \<times> val) list \<Rightarrow> bytes result" where
  "appendRecValue dst VNull = Inr (dst @ [recNull])"
| "appendRecValue dst (VBool x) = Inr (dst @ [recBool, if x then 1 else 0])"
| "appendRecValue dst (VGoInt x) = Inr (appendInt dst x)"
| "appendRecValue dst (VInt x) = Inr (appendInt dst x)"
| "appendRecValue dst (VFloat x) = Inr ((dst @ [recFloat]) @ PutUint64 x)"
| "appendRecValue dst (VStr x) = Inr (AppendUvarint (dst @ [recStr]) (of_nat (length x)) @ x)"
| "appendRecValue dst (VList x) =
     appendRecList (AppendUvarint (dst @ [recList]) (of_nat (length x))) x"
| "appendRecValue dst (VMap x) =
     appendRecEntries (AppendUvarint (dst @ [recMap]) (of_nat (length x))) (sort_key fst x)"
| "appendRecValue dst _ = Inl ErrUnsupportedType"
| "appendRecList dst [] = Inr dst"
| "appendRecList dst (e # es) = bindR (appendRecValue dst e) (\<lambda>d. appendRecList d es)"
| "appendRecEntries dst [] = Inr dst"
| "appendRecEntries dst ((k, v) # es) =
     bindR (appendRecValue (AppendUvarint dst (of_nat (length k)) @ k) v) (\<lambda>d. appendRecEntries d es)"

fun appendPropEntries :: "bytes \<Rightarrow> props \<Rightarrow> bytes result" where
  "appendPropEntries dst [] = Inr dst"
| "appendPropEntries dst ((k, v) # es) =
     bindR (appendRecValue (AppendUvarint dst (ucast k)) v) (\<lambda>d. appendPropEntries d es)"

definition appendProps :: "bytes \<Rightarrow> props \<Rightarrow> bytes result" where
  "appendProps dst props = appendPropEntries (AppendUvarint dst (of_nat (length props))) (sort_key fst props)"

definition EncodeNode :: "NodeRecord \<Rightarrow> bytes result" where
  "EncodeNode rec =
     (let labels = sort (Labels rec);
          dst = AppendUvarint [] (of_nat (length labels));
          dst = foldl (\<lambda>d l. AppendUvarint d (ucast l)) dst labels
      in appendProps dst (Props rec))"

definition EncodeEdge :: "EdgeRecord \<Rightarrow> bytes result" where
  "EncodeEdge rec =
     (let dst = AppendUvarint [] (ucast (EType rec));
          dst = AppendUvarint dst (Src rec);
          dst = AppendUvarint dst (Dst rec)
      in appendProps dst (EProps rec))"

section \<open>Decoders\<close>

type_synonym 'a reader = "bytes \<Rightarrow> ('a \<times> bytes) result"

definition rd_uvarint :: "u64 reader" where
  "rd_uvarint r = (case Uvarint r of None \<Rightarrow> Inl ErrShort | Some (v, n) \<Rightarrow> Inr (v, drop n r))"

definition rd_varint :: "i64 reader" where
  "rd_varint r = (case Varint r of None \<Rightarrow> Inl ErrShort | Some (v, n) \<Rightarrow> Inr (v, drop n r))"

definition rd_byte :: "byte reader" where
  "rd_byte r = (case r of [] \<Rightarrow> Inl ErrShort | c # r' \<Rightarrow> Inr (c, r'))"

definition rd_bytes :: "int \<Rightarrow> bytes reader" where
  "rd_bytes n r =
     (if n < 0 \<or> int (length r) < n then Inl ErrShort else Inr (take (nat n) r, drop (nat n) r))"

text \<open>
  \<^verbatim>\<open>reader.value\<close> with its loops. The first argument bounds the nesting depth: every level
  consumes at least its tag byte, so a depth of the number of bytes plus one is never exceeded
  (\<open>rd_value_fuel\<close> below).
\<close>

fun rd_value_f :: "nat \<Rightarrow> val reader"
  and rd_list_f :: "nat \<Rightarrow> nat \<Rightarrow> val list reader"
  and rd_map_f :: "nat \<Rightarrow> nat \<Rightarrow> (bytes \<times> val) list \<Rightarrow> (bytes \<times> val) list reader" where
  "rd_value_f 0 r = Inl ErrFuel"
| "rd_value_f (Suc fuel) r =
     bindR (rd_byte r) (\<lambda>(tag, r).
       if tag = recNull then Inr (VNull, r)
       else if tag = recBool then bindR (rd_byte r) (\<lambda>(b, r). Inr (VBool (b \<noteq> 0), r))
       else if tag = recInt then bindR (rd_varint r) (\<lambda>(i, r). Inr (VInt i, r))
       else if tag = recFloat then bindR (rd_bytes 8 r) (\<lambda>(raw, r). Inr (VFloat (Uint64 raw), r))
       else if tag = recStr then
         bindR (rd_uvarint r) (\<lambda>(n, r).
           if length r < unat n then Inl ErrShort
           else bindR (rd_bytes (sint n) r) (\<lambda>(raw, r). Inr (VStr raw, r)))
       else if tag = recList then
         bindR (rd_uvarint r) (\<lambda>(n, r).
           if length r < unat n then Inl (ErrImplausible (unat n))
           else bindR (rd_list_f fuel (unat n) r) (\<lambda>(l, r). Inr (VList l, r)))
       else if tag = recMap then
         bindR (rd_uvarint r) (\<lambda>(n, r).
           if length r < unat n then Inl (ErrImplausible (unat n))
           else bindR (rd_map_f fuel (unat n) [] r) (\<lambda>(m, r). Inr (VMap m, r)))
       else Inl (ErrUnknownTag tag))"
| "rd_list_f fuel 0 r = Inr ([], r)"
| "rd_list_f fuel (Suc n) r =
     bindR (rd_value_f fuel r) (\<lambda>(v, r). bindR (rd_list_f fuel n r) (\<lambda>(vs, r). Inr (v # vs, r)))"
| "rd_map_f fuel 0 m r = Inr (m, r)"
| "rd_map_f fuel (Suc n) m r =
     bindR (rd_uvarint r) (\<lambda>(klen, r).
     bindR (rd_bytes (sint klen) r) (\<lambda>(kb, r).
     bindR (rd_value_f fuel r) (\<lambda>(v, r).
     rd_map_f fuel n (AList.update kb v m) r)))"

definition rd_value :: "val reader" where
  "rd_value r = rd_value_f (Suc (length r)) r"

fun rd_prop_loop :: "nat \<Rightarrow> props \<Rightarrow> props reader" where
  "rd_prop_loop 0 props r = Inr (props, r)"
| "rd_prop_loop (Suc n) props r =
     bindR (wrapR (rd_uvarint r)) (\<lambda>(k, r).
     bindR (wrapR (rd_value r)) (\<lambda>(v, r).
     rd_prop_loop n (AList.update (ucast k) v props) r))"

definition rd_props :: "props reader" where
  "rd_props r =
     bindR (wrapR (rd_uvarint r)) (\<lambda>(n, r).
       if length r < unat n then Inl (ErrImplausible (unat n)) else rd_prop_loop (unat n) [] r)"

fun rd_labels :: "nat \<Rightarrow> u32 list reader" where
  "rd_labels 0 r = Inr ([], r)"
| "rd_labels (Suc n) r =
     bindR (wrapR (rd_uvarint r)) (\<lambda>(l, r). bindR (rd_labels n r) (\<lambda>(ls, r). Inr (ucast l # ls, r)))"

definition DecodeNode :: "bytes \<Rightarrow> NodeRecord result" where
  "DecodeNode b =
     bindR (wrapR (rd_uvarint b)) (\<lambda>(n, r).
       if length r < unat n then Inl (ErrImplausible (unat n))
       else bindR (rd_labels (unat n) r) (\<lambda>(labels, r).
            bindR (rd_props r) (\<lambda>(props, r). Inr \<lparr>Labels = labels, Props = props\<rparr>)))"

definition DecodeEdge :: "bytes \<Rightarrow> EdgeRecord result" where
  "DecodeEdge b =
     bindR (wrapR (rd_uvarint b)) (\<lambda>(typ, r).
     bindR (wrapR (rd_uvarint r)) (\<lambda>(src, r).
     bindR (wrapR (rd_uvarint r)) (\<lambda>(dst, r).
     bindR (rd_props r) (\<lambda>(props, r).
     Inr \<lparr>EType = ucast typ, Src = src, Dst = dst, EProps = props\<rparr>))))"

section \<open>Varint round trip\<close>

lemma uint_byte_small: "0 \<le> x \<Longrightarrow> x < 256 \<Longrightarrow> uint (word_of_int x :: byte) = x"
  by (simp add: uint_word_of_int)

lemma power_128_bound: "(128 :: int) ^ i < 2 ^ 64 \<Longrightarrow> i \<le> 9"
proof (rule ccontr)
  assume b: "(128 :: int) ^ i < 2 ^ 64" and "\<not> i \<le> 9"
  then have "(128 :: int) ^ 10 \<le> 128 ^ i" by (intro power_increasing) auto
  with b show False by simp
qed

lemma Uvarint_loop_bytes:
  assumes "0 \<le> x" "i \<le> 9" "x * 128 ^ i < 2 ^ 64"
  shows "Uvarint_loop i acc (uvarint_bytes x @ rest)
           = Some (word_of_int (acc + x * 128 ^ i), i + length (uvarint_bytes x))"
  using assms
proof (induction x arbitrary: i acc rule: uvarint_bytes.induct)
  case (1 x)
  show ?case
  proof (cases "x < 128")
    case True
    have u: "uint (word_of_int x :: byte) = x" using True 1 by (intro uint_byte_small) auto
    then have lt: "(word_of_int x :: byte) < 0x80" using True by (simp add: word_less_def)
    have "\<not> (i = 9 \<and> (1 :: byte) < word_of_int x)"
    proof
      assume "i = 9 \<and> (1 :: byte) < word_of_int x"
      then have "i = 9" "1 < x" using u by (simp_all add: word_less_def)
      with 1 show False by simp
    qed
    with True lt u 1 show ?thesis by (simp add: uvarint_bytes.simps [of x])
  next
    case False
    have "0 \<le> x mod 128" "x mod 128 < 128" by simp_all
    then have u: "uint (word_of_int (x mod 128 + 128) :: byte) = x mod 128 + 128"
      by (intro uint_byte_small) linarith+
    then have ge: "\<not> (word_of_int (x mod 128 + 128) :: byte) < 0x80"
      by (simp add: word_less_def)
    have m: "uint (word_of_int (x mod 128 + 128) :: byte) mod 128 = x mod 128"
      unfolding u by simp
    have split: "x div 128 * 128 ^ Suc i + x mod 128 * 128 ^ i = x * 128 ^ i"
    proof -
      have "x div 128 * 128 ^ Suc i + x mod 128 * 128 ^ i = (x div 128 * 128 + x mod 128) * 128 ^ i"
        by (simp only: power_Suc distrib_right mult.assoc)
      then show ?thesis by simp
    qed
    have nn: "0 \<le> x mod 128 * 128 ^ i" by simp
    have b: "x div 128 * 128 ^ Suc i < 2 ^ 64" using split nn 1(4) by linarith
    have "1 \<le> x div 128" using False by (simp add: int_le_div_iff)
    then have "1 * 128 ^ Suc i \<le> x div 128 * (128 :: int) ^ Suc i" by (intro mult_right_mono) auto
    with b have "(128 :: int) ^ Suc i < 2 ^ 64" by linarith
    then have i: "Suc i \<le> 9" by (rule power_128_bound)
    have "Uvarint_loop (Suc i) (acc + x mod 128 * 128 ^ i) (uvarint_bytes (x div 128) @ rest)
        = Some (word_of_int (acc + x mod 128 * 128 ^ i + x div 128 * 128 ^ Suc i),
                Suc i + length (uvarint_bytes (x div 128)))"
      using False 1(2) i b by (intro 1(1)) (auto simp: pos_imp_zdiv_nonneg_iff)
    moreover have "acc + x mod 128 * 128 ^ i + x div 128 * 128 ^ Suc i = acc + x * 128 ^ i"
      using split by linarith
    ultimately show ?thesis
      using False ge m i by (simp only: uvarint_bytes.simps [of x]) simp
  qed
qed

lemma length_uvarint_bytes_pos [simp]: "0 < length (uvarint_bytes x)"
  by (simp add: uvarint_bytes.simps)

lemma uvarint_bytes_not_Nil [simp]: "uvarint_bytes x \<noteq> []"
  using length_uvarint_bytes_pos [of x] by force

lemma Uvarint_bytes: "Uvarint (uvarint_bytes (uint (v :: u64)) @ rest) = Some (v, length (uvarint_bytes (uint v)))"
  using Uvarint_loop_bytes [of "uint v" 0 0 rest] uint_lt2p [of v] by (simp add: Uvarint_def)

lemma rd_uvarint_bytes [simp]: "rd_uvarint (uvarint_bytes (uint v) @ rest) = Inr (v, rest)"
  by (simp add: rd_uvarint_def Uvarint_bytes)

lemma zigzag_roundtrip:
  fixes v :: i64
  defines "ux \<equiv> (if sint v < 0 then NOT (push_bit 1 v) else push_bit 1 v)"
  shows "(if bit ux 0 then NOT (drop_bit 1 ux) else drop_bit 1 ux) = v"
proof -
  have sign: "bit v 63 \<longleftrightarrow> sint v < 0" using bit_last_iff [of v] by simp
  have b: "bit (push_bit 1 v) n \<longleftrightarrow> 1 \<le> n \<and> n < 64 \<and> bit v (n - 1)" for n
    by (simp only: bit_push_bit_iff) auto
  have ux: "bit ux n \<longleftrightarrow> n < 64 \<and> (sint v < 0) \<noteq> (1 \<le> n \<and> bit v (n - 1))" for n
    using b [of n] by (auto simp: ux_def bit_not_iff)
  have d: "bit (drop_bit 1 ux) n \<longleftrightarrow> bit ux (Suc n)" for n
    by (simp only: bit_drop_bit_eq o_apply plus_1_eq_Suc)
  show ?thesis
  proof (rule bit_word_eqI)
    fix n
    assume "n < LENGTH(64)"
    then have n: "n < 64" by simp
    then have last: "\<not> Suc n < 64 \<Longrightarrow> n = 63" by linarith
    show "bit (if bit ux 0 then NOT (drop_bit 1 ux) else drop_bit 1 ux) n \<longleftrightarrow> bit v n"
    proof (cases "sint v < 0")
      case True
      then have "bit ux 0" by (simp only: ux) simp
      then have "bit (if bit ux 0 then NOT (drop_bit 1 ux) else drop_bit 1 ux) n \<longleftrightarrow> \<not> bit ux (Suc n)"
        using n by (simp only: if_True bit_not_iff d) simp
      then show ?thesis using True sign last by (simp only: ux [of "Suc n"]) auto
    next
      case False
      then have "\<not> bit ux 0" by (simp only: ux) simp
      then have "bit (if bit ux 0 then NOT (drop_bit 1 ux) else drop_bit 1 ux) n \<longleftrightarrow> bit ux (Suc n)"
        by (simp only: if_False d)
      then show ?thesis using False sign last by (simp only: ux [of "Suc n"]) auto
    qed
  qed
qed

lemma rd_varint_append [simp]: "rd_varint (AppendVarint [] v @ rest) = Inr (v, rest)"
  using zigzag_roundtrip [of v]
  by (simp add: rd_varint_def Varint_def AppendVarint_def AppendUvarint_def Uvarint_bytes)

section \<open>The decoder terminates\<close>

lemma Uvarint_loop_count: "Uvarint_loop i x buf = Some (v, n) \<Longrightarrow> i < n \<and> n \<le> i + length buf"
  by (induction i x buf rule: Uvarint_loop.induct) (auto split: if_splits)

lemma rd_uvarint_length: "rd_uvarint r = Inr (v, r') \<Longrightarrow> length r' < length r"
  using Uvarint_loop_count [of 0 0 r]
  by (auto simp: rd_uvarint_def Uvarint_def split: option.splits)

lemma rd_varint_length: "rd_varint r = Inr (v, r') \<Longrightarrow> length r' < length r"
  using Uvarint_loop_count [of 0 0 r]
  by (auto simp: rd_varint_def Varint_def Uvarint_def split: option.splits)

lemma rd_byte_length: "rd_byte r = Inr (v, r') \<Longrightarrow> length r' < length r"
  by (auto simp: rd_byte_def split: list.splits)

lemma rd_bytes_length: "rd_bytes n r = Inr (v, r') \<Longrightarrow> length r' \<le> length r"
  by (auto simp: rd_bytes_def split: if_splits)

lemmas rd_length = rd_uvarint_length rd_varint_length rd_byte_length rd_bytes_length

lemma rd_value_length:
  "rd_value_f fuel r = Inr (v, r') \<Longrightarrow> length r' < length r"
  "rd_list_f fuel n r = Inr (vs, r') \<Longrightarrow> length r' \<le> length r"
  "rd_map_f fuel n m r = Inr (m', r') \<Longrightarrow> length r' \<le> length r"
proof (induction fuel r and fuel n r and fuel n m r arbitrary: v r' and vs r' and m' r'
    rule: rd_value_f_rd_list_f_rd_map_f.induct)
  case (2 fuel r)
  then show ?case
    by (fastforce simp: bindR_Inr_iff split: prod.splits if_splits dest: rd_length)
next
  case (4 fuel n r)
  then show ?case by (fastforce simp: bindR_Inr_iff)
next
  case (6 fuel n m r)
  then show ?case by (fastforce simp: bindR_Inr_iff dest: rd_length)
qed auto

text \<open>With more fuel than bytes the decoder does not run out, and the amount is irrelevant.\<close>

definition same_run :: "'a result \<Rightarrow> 'a result \<Rightarrow> bool" where
  "same_run x y \<longleftrightarrow> x = y \<and> x \<noteq> Inl ErrFuel"

lemma same_run_intros:
  "same_run (Inr a) (Inr a)"
  "e \<noteq> ErrFuel \<Longrightarrow> same_run (Inl e) (Inl e)"
  "(b \<Longrightarrow> same_run x x') \<Longrightarrow> (\<not> b \<Longrightarrow> same_run y y') \<Longrightarrow> same_run (if b then x else y) (if b then x' else y')"
  by (auto simp: same_run_def)

lemma same_run_bindR:
  assumes "same_run r r'" and "\<And>x s. r = Inr (x, s) \<Longrightarrow> same_run (f x s) (g x s)"
  shows "same_run (bindR r (\<lambda>(x, s). f x s)) (bindR r' (\<lambda>(x, s). g x s))"
  using assms by (cases r) (auto simp: same_run_def)

lemma same_run_rd:
  "same_run (rd_uvarint r) (rd_uvarint r)" "same_run (rd_varint r) (rd_varint r)"
  "same_run (rd_byte r) (rd_byte r)" "same_run (rd_bytes n r) (rd_bytes n r)"
  by (auto simp: same_run_def rd_uvarint_def rd_varint_def rd_byte_def rd_bytes_def split: option.splits list.splits)

lemma rd_value_fuel:
  "length r < fuel \<Longrightarrow> length r < fuel' \<Longrightarrow> same_run (rd_value_f fuel r) (rd_value_f fuel' r)"
  "length r < fuel \<Longrightarrow> length r < fuel' \<Longrightarrow> same_run (rd_list_f fuel n r) (rd_list_f fuel' n r)"
  "length r < fuel \<Longrightarrow> length r < fuel' \<Longrightarrow> same_run (rd_map_f fuel n m r) (rd_map_f fuel' n m r)"
proof (induction fuel r and fuel n r and fuel n m r arbitrary: fuel' and fuel' and fuel'
    rule: rd_value_f_rd_list_f_rd_map_f.induct)
  case (2 fuel r)
  from 2(4) obtain f' where f': "fuel' = Suc f'" by (cases fuel') auto
  show ?case
    unfolding f' rd_value_f.simps
    by (intro same_run_intros same_run_bindR same_run_rd 2(1,2))
      (use 2(3,4) f' in \<open>auto dest!: rd_length\<close>)
next
  case (4 fuel n r)
  show ?case
    unfolding rd_list_f.simps
    by (intro same_run_intros same_run_bindR 4(1,2))
      (use 4(3,4) in \<open>auto dest!: rd_value_length\<close>)
next
  case (6 fuel n m r)
  show ?case
    unfolding rd_map_f.simps
    by (intro same_run_intros same_run_bindR same_run_rd 6(1,2))
      (use 6(3,4) in \<open>auto dest!: rd_value_length rd_length\<close>)
qed (auto simp: same_run_def)

section \<open>Round trip\<close>

text \<open>The values that can be stored: no graph elements, maps with distinct keys, and lengths that
  a Go \<^verbatim>\<open>int\<close> can hold.\<close>

fun wf_val :: "val \<Rightarrow> bool" where
  "wf_val (VStr s) \<longleftrightarrow> length s < 2 ^ 63"
| "wf_val (VList vs) \<longleftrightarrow> length vs < 2 ^ 63 \<and> (\<forall>v \<in> set vs. wf_val v)"
| "wf_val (VMap es) \<longleftrightarrow> length es < 2 ^ 63 \<and> distinct (map fst es) \<and>
     (\<forall>(k, v) \<in> set es. length k < 2 ^ 63 \<and> wf_val v)"
| "wf_val (VNode _ _ _) \<longleftrightarrow> False"
| "wf_val (VEdge _ _ _ _ _) \<longleftrightarrow> False"
| "wf_val (VRels _) \<longleftrightarrow> False"
| "wf_val (VPath _ _) \<longleftrightarrow> False"
| "wf_val _ \<longleftrightarrow> True"

text \<open>The stored form of a value: \<^verbatim>\<open>int\<close> becomes \<^verbatim>\<open>int64\<close>, the entries of a map are sorted.\<close>

fun canon :: "val \<Rightarrow> val" where
  "canon (VGoInt x) = VInt x"
| "canon (VList vs) = VList (map canon vs)"
| "canon (VMap es) = VMap (sort_key fst (map (\<lambda>(k, v). (k, canon v)) es))"
| "canon v = v"

lemma sort_key_map: "sort_key g (map f xs) = map f (sort_key (g \<circ> f) xs)"
proof -
  have "insort_key g (f x) (map f ys) = map f (insort_key (g \<circ> f) x ys)" for x ys
    by (induction ys) auto
  then show ?thesis by (induction xs) auto
qed

lemma update_new: "k \<notin> fst ` set m \<Longrightarrow> AList.update k v m = m @ [(k, v)]"
  by (induction m) auto

lemma word_length:
  assumes "n < 2 ^ 63"
  shows "unat (of_nat n :: u64) = n" "sint (of_nat n :: u64) = int n"
proof -
  show u: "unat (of_nat n :: u64) = n"
    using assms by (simp add: unat_of_nat)
  show "sint (of_nat n :: u64) = int n"
    using assms sint_sbintrunc' [of "int n" , where 'a = 64] by (simp add: signed_take_bit_int_eq_self)
qed

lemma rd_bytes_append [simp]: "rd_bytes (int (length x)) (x @ rest) = Inr (x, rest)"
  by (simp add: rd_bytes_def)

lemma appendInt_eq: "appendInt dst v = dst @ recInt # AppendVarint [] v"
  by (simp add: appendInt_def AppendVarint_def AppendUvarint_def)

text \<open>What an encoder appends, and that the decoder reads it back, given one unit of fuel per byte.\<close>

definition value_rt :: "bytes \<Rightarrow> val \<Rightarrow> bool" where
  "value_rt e v \<longleftrightarrow> e \<noteq> [] \<and>
     (\<forall>fuel rest. length e \<le> fuel \<longrightarrow> rd_value_f fuel (e @ rest) = Inr (canon v, rest))"

definition list_rt :: "bytes \<Rightarrow> val list \<Rightarrow> bool" where
  "list_rt e vs \<longleftrightarrow> length vs \<le> length e \<and>
     (\<forall>fuel rest. length e \<le> fuel \<longrightarrow> rd_list_f fuel (length vs) (e @ rest) = Inr (map canon vs, rest))"

definition entries_rt :: "bytes \<Rightarrow> (bytes \<times> val) list \<Rightarrow> bool" where
  "entries_rt e es \<longleftrightarrow> length es \<le> length e \<and>
     (\<forall>fuel rest m. length e \<le> fuel \<longrightarrow> fst ` set m \<inter> fst ` set es = {} \<longrightarrow>
        rd_map_f fuel (length es) m (e @ rest) = Inr (m @ map (\<lambda>(k, v). (k, canon v)) es, rest))"

lemma value_rtI:
  assumes "\<And>fuel rest. length e \<le> fuel \<Longrightarrow> rd_value_f (Suc fuel) (t # e @ rest) = Inr (canon v, rest)"
  shows "value_rt (t # e) v"
  unfolding value_rt_def
proof (intro conjI allI impI)
  fix fuel rest
  assume "length (t # e) \<le> fuel"
  then obtain f where "fuel = Suc f" "length e \<le> f" by (cases fuel) auto
  then show "rd_value_f fuel ((t # e) @ rest) = Inr (canon v, rest)" using assms by simp
qed simp

lemma list_rt_Cons: "value_rt e v \<Longrightarrow> list_rt e' vs \<Longrightarrow> list_rt (e @ e') (v # vs)"
  by (cases e) (auto simp: list_rt_def value_rt_def)

lemma entries_rt_Cons:
  assumes "length k < 2 ^ 63" "value_rt e v" "entries_rt e' es" "k \<notin> fst ` set es"
  shows "entries_rt (uvarint_bytes (uint (of_nat (length k) :: u64)) @ k @ e @ e') ((k, v) # es)"
proof -
  let ?u = "uvarint_bytes (uint (of_nat (length k) :: u64))"
  have len: "Suc (length es) \<le> length (?u @ k @ e @ e')"
    using assms(3) length_uvarint_bytes_pos [of "uint (of_nat (length k) :: u64)"]
    unfolding entries_rt_def length_append by linarith
  have "rd_map_f fuel (length ((k, v) # es)) m ((?u @ k @ e @ e') @ rest)
      = Inr (m @ map (\<lambda>(k, v). (k, canon v)) ((k, v) # es), rest)"
    if "length (?u @ k @ e @ e') \<le> fuel" "fst ` set m \<inter> fst ` set ((k, v) # es) = {}" for fuel rest m
    using that assms by (simp add: word_length entries_rt_def value_rt_def update_new)
  with len show ?thesis unfolding entries_rt_def by simp
qed

lemma append_roundtrip:
  "wf_val v \<Longrightarrow> \<exists>e. appendRecValue dst v = Inr (dst @ e) \<and> value_rt e v"
  "\<forall>v \<in> set vs. wf_val v \<Longrightarrow> \<exists>e. appendRecList dst vs = Inr (dst @ e) \<and> list_rt e vs"
  "distinct (map fst es) \<Longrightarrow> \<forall>(k, v) \<in> set es. length k < 2 ^ 63 \<and> wf_val v \<Longrightarrow>
     \<exists>e. appendRecEntries dst es = Inr (dst @ e) \<and> entries_rt e es"
proof (induction dst v and dst vs and dst es rule: appendRecValue_appendRecList_appendRecEntries.induct)
  case (7 dst x)
  then obtain e where e: "appendRecList (AppendUvarint (dst @ [recList]) (of_nat (length x))) x
      = Inr (AppendUvarint (dst @ [recList]) (of_nat (length x)) @ e)" "list_rt e x"
    by auto
  let ?e = "uvarint_bytes (uint (of_nat (length x) :: u64)) @ e"
  have "value_rt (recList # ?e) (VList x)"
    using e(2) 7(2) by (intro value_rtI) (simp add: rd_byte_def rec_tag_defs list_rt_def word_length)
  with e(1) show ?case by (intro exI [of _ "recList # ?e"]) (simp add: AppendUvarint_def)
next
  case (8 dst x)
  then obtain e where e: "appendRecEntries (AppendUvarint (dst @ [recMap]) (of_nat (length x))) (sort_key fst x)
      = Inr (AppendUvarint (dst @ [recMap]) (of_nat (length x)) @ e)" "entries_rt e (sort_key fst x)"
    by (auto simp: distinct_map)
  let ?e = "uvarint_bytes (uint (of_nat (length x) :: u64)) @ e"
  have "value_rt (recMap # ?e) (VMap x)"
    using e(2) 8(2) by (intro value_rtI)
      (simp add: rd_byte_def rec_tag_defs entries_rt_def word_length sort_key_map comp_def split_def)
  with e(1) show ?case by (intro exI [of _ "recMap # ?e"]) (simp add: AppendUvarint_def)
next
  case (11 dst e es)
  then show ?case by (fastforce intro: list_rt_Cons)
next
  case (13 dst k v es)
  from 13(1,4) obtain e where e: "appendRecValue (AppendUvarint dst (of_nat (length k)) @ k) v
      = Inr ((AppendUvarint dst (of_nat (length k)) @ k) @ e)" "value_rt e v" by auto
  from 13(2) [OF e(1)] 13(3,4) obtain e' where
    e': "appendRecEntries ((AppendUvarint dst (of_nat (length k)) @ k) @ e) es
      = Inr (((AppendUvarint dst (of_nat (length k)) @ k) @ e) @ e')" "entries_rt e' es" by auto
  show ?case
    using 13(3,4) e e' entries_rt_Cons [of k e v e' es]
    by (intro exI [of _ "uvarint_bytes (uint (of_nat (length k) :: u64)) @ k @ e @ e'"]) (auto simp: AppendUvarint_def)
qed (auto simp: rd_byte_def rec_tag_defs AppendUvarint_def appendInt_eq rd_bytes_def word_length list_rt_def entries_rt_def intro!: value_rtI)

text \<open>Property maps and records.\<close>

definition wf_props :: "props \<Rightarrow> bool" where
  "wf_props ps \<longleftrightarrow> length ps < 2 ^ 63 \<and> distinct (map fst ps) \<and> (\<forall>(k, v) \<in> set ps. wf_val v)"

definition canon_props :: "props \<Rightarrow> props" where
  "canon_props ps = sort_key fst (map (\<lambda>(k, v). (k, canon v)) ps)"

definition wf_node :: "NodeRecord \<Rightarrow> bool" where
  "wf_node rec \<longleftrightarrow> length (Labels rec) < 2 ^ 63 \<and> wf_props (Props rec)"

definition canon_node :: "NodeRecord \<Rightarrow> NodeRecord" where
  "canon_node rec = \<lparr>Labels = sort (Labels rec), Props = canon_props (Props rec)\<rparr>"

definition canon_edge :: "EdgeRecord \<Rightarrow> EdgeRecord" where
  "canon_edge rec = rec \<lparr>EProps := canon_props (EProps rec)\<rparr>"

lemma rd_value_rt: "value_rt e v \<Longrightarrow> rd_value (e @ rest) = Inr (canon v, rest)"
  by (simp add: rd_value_def value_rt_def del: rd_value_f.simps)

lemma ucast_u32_u64 [simp]: "ucast (ucast (k :: u32) :: u64) = k"
  by (simp add: ucast_up_ucast_id is_up)

definition props_rt :: "bytes \<Rightarrow> props \<Rightarrow> bool" where
  "props_rt e es \<longleftrightarrow> length es \<le> length e \<and>
     (\<forall>rest m. fst ` set m \<inter> fst ` set es = {} \<longrightarrow>
        rd_prop_loop (length es) m (e @ rest) = Inr (m @ map (\<lambda>(k, v). (k, canon v)) es, rest))"

lemma props_rt_Cons:
  assumes "value_rt e v" "props_rt e' es" "k \<notin> fst ` set es"
  shows "props_rt (uvarint_bytes (uint (ucast k :: u64)) @ e @ e') ((k, v) # es)"
proof -
  let ?u = "uvarint_bytes (uint (ucast k :: u64))"
  have len: "Suc (length es) \<le> length (?u @ e @ e')"
    using assms(2) length_uvarint_bytes_pos [of "uint (ucast k :: u64)"]
    unfolding props_rt_def length_append by linarith
  have "rd_prop_loop (length ((k, v) # es)) m ((?u @ e @ e') @ rest)
      = Inr (m @ map (\<lambda>(k, v). (k, canon v)) ((k, v) # es), rest)"
    if "fst ` set m \<inter> fst ` set ((k, v) # es) = {}" for rest m
    using that assms by (simp add: props_rt_def rd_value_rt update_new)
  with len show ?thesis unfolding props_rt_def by simp
qed

lemma appendPropEntries_roundtrip:
  assumes "distinct (map fst es)" "\<forall>(k, v) \<in> set es. wf_val v"
  shows "\<exists>e. appendPropEntries dst es = Inr (dst @ e) \<and> props_rt e es"
  using assms
proof (induction es arbitrary: dst)
  case Nil
  then show ?case by (simp add: props_rt_def)
next
  case (Cons kv es)
  obtain k v where kv: "kv = (k, v)" by force
  obtain e where e: "appendRecValue (AppendUvarint dst (ucast k)) v = Inr (AppendUvarint dst (ucast k) @ e)" "value_rt e v"
    using append_roundtrip(1) Cons.prems(2) kv by fastforce
  obtain e' where e': "appendPropEntries (AppendUvarint dst (ucast k) @ e) es = Inr ((AppendUvarint dst (ucast k) @ e) @ e')" "props_rt e' es"
    using Cons.IH [of "AppendUvarint dst (ucast k) @ e"] Cons.prems by auto
  show ?case
    using Cons.prems kv e e' props_rt_Cons [of e v e' es k]
    by (intro exI [of _ "uvarint_bytes (uint (ucast k :: u64)) @ e @ e'"]) (auto simp: AppendUvarint_def)
qed

lemma appendProps_roundtrip:
  assumes "wf_props ps"
  shows "\<exists>e. appendProps dst ps = Inr (dst @ e) \<and> (\<forall>rest. rd_props (e @ rest) = Inr (canon_props ps, rest))"
proof -
  let ?n = "of_nat (length ps) :: u64"
  obtain e where e: "appendPropEntries (AppendUvarint dst ?n) (sort_key fst ps) = Inr (AppendUvarint dst ?n @ e)"
      "props_rt e (sort_key fst ps)"
    using appendPropEntries_roundtrip [of "sort_key fst ps"] assms
    by (force simp: wf_props_def distinct_map)
  have "rd_props ((uvarint_bytes (uint ?n) @ e) @ rest) = Inr (canon_props ps, rest)" for rest
    using e(2) assms
    by (simp add: rd_props_def props_rt_def wf_props_def word_length canon_props_def sort_key_map comp_def split_def)
  with e(1) show ?thesis
    by (intro exI [of _ "uvarint_bytes (uint ?n) @ e"]) (simp add: appendProps_def AppendUvarint_def)
qed

lemma rd_labels_roundtrip:
  "\<exists>e. foldl (\<lambda>d l. AppendUvarint d (ucast l)) dst ls = dst @ e \<and> length ls \<le> length e \<and>
     (\<forall>rest. rd_labels (length ls) (e @ rest) = Inr (ls, rest))"
proof (induction ls arbitrary: dst)
  case Nil
  then show ?case by simp
next
  case (Cons l ls)
  let ?u = "uvarint_bytes (uint (ucast l :: u64))"
  obtain e where e: "foldl (\<lambda>d l. AppendUvarint d (ucast l)) (dst @ ?u) ls = (dst @ ?u) @ e" "length ls \<le> length e"
     "\<forall>rest. rd_labels (length ls) (e @ rest) = Inr (ls, rest)"
    using Cons.IH by blast
  have "Suc (length ls) \<le> length (?u @ e)"
    using e(2) length_uvarint_bytes_pos [of "uint (ucast l :: u64)"] unfolding length_append by linarith
  with e show ?case by (intro exI [of _ "?u @ e"]) (simp add: AppendUvarint_def)
qed

lemma node_roundtrip:
  assumes "wf_node rec"
  shows "\<exists>b. EncodeNode rec = Inr b \<and> DecodeNode (b @ rest) = Inr (canon_node rec)"
proof -
  let ?n = "of_nat (length (Labels rec)) :: u64"
  obtain e where e: "foldl (\<lambda>d l. AppendUvarint d (ucast l)) (AppendUvarint [] ?n) (sort (Labels rec)) = AppendUvarint [] ?n @ e"
    "length (Labels rec) \<le> length e" "\<forall>rest. rd_labels (length (Labels rec)) (e @ rest) = Inr (sort (Labels rec), rest)"
    using rd_labels_roundtrip [of "AppendUvarint [] ?n" "sort (Labels rec)"] by auto
  obtain e' where e': "appendProps (AppendUvarint [] ?n @ e) (Props rec) = Inr ((AppendUvarint [] ?n @ e) @ e')"
    "\<forall>rest. rd_props (e' @ rest) = Inr (canon_props (Props rec), rest)"
    using appendProps_roundtrip assms unfolding wf_node_def by blast
  show ?thesis
    using e e' assms by (simp add: EncodeNode_def DecodeNode_def wf_node_def canon_node_def AppendUvarint_def word_length)
qed

lemma edge_roundtrip:
  assumes "wf_props (EProps rec)"
  shows "\<exists>b. EncodeEdge rec = Inr b \<and> DecodeEdge (b @ rest) = Inr (canon_edge rec)"
proof -
  let ?d = "AppendUvarint (AppendUvarint (AppendUvarint [] (ucast (EType rec))) (Src rec)) (Dst rec)"
  obtain e where e: "appendProps ?d (EProps rec) = Inr (?d @ e)"
    "\<forall>rest. rd_props (e @ rest) = Inr (canon_props (EProps rec), rest)"
    using appendProps_roundtrip assms by blast
  then show ?thesis
    by (simp add: EncodeEdge_def DecodeEdge_def canon_edge_def AppendUvarint_def)
qed

lemma distinct_sort_key_fst [simp]: "distinct (map fst (sort_key f xs)) \<longleftrightarrow> distinct (map fst xs)"
  by (simp add: distinct_map)

lemma map_fst_canon [simp]: "map fst (map (\<lambda>(k, v). (k, canon v)) ps) = map fst ps"
  by (simp add: split_def comp_def)

lemma map_of_canon_props:
  assumes "distinct (map fst ps)"
  shows "map_of (canon_props ps) k = map_option canon (map_of ps k)"
proof -
  have "map_of (canon_props ps) = map_of (map (\<lambda>(k, v). (k, canon v)) ps)"
    unfolding canon_props_def
    by (rule map_of_inject_set [THEN iffD2]) (use assms in \<open>simp_all only: distinct_sort_key_fst map_fst_canon set_sort\<close>)
  then show ?thesis by (simp add: map_of_map)
qed

lemma wf_val_canon [simp]: "wf_val v \<Longrightarrow> wf_val (canon v)"
proof (induction v rule: wf_val.induct)
  case (3 es)
  have "distinct (map fst (sort_key fst (map (\<lambda>(k, v). (k, canon v)) es)))"
    using 3(2) by (simp only: wf_val.simps distinct_sort_key_fst map_fst_canon)
  then show ?case using 3 by auto
qed auto

lemma wf_props_canon: "wf_props ps \<Longrightarrow> wf_props (canon_props ps)"
  unfolding wf_props_def canon_props_def distinct_sort_key_fst map_fst_canon by auto

text \<open>
  C31. The record decoder never recurses deeper than the number of bytes it is given: with more
  fuel than bytes it returns the same value or error, and never for want of fuel.
\<close>

theorem rd_value_terminates:
  assumes "length r < fuel"
  shows "rd_value_f fuel r = rd_value r \<and> rd_value r \<noteq> Inl ErrFuel"
  using rd_value_fuel(1) [OF assms, of "Suc (length r)"] unfolding rd_value_def same_run_def by auto

theorem rd_value_terminates_witness:
  "rd_value_f 9 [5, 2, 5, 0, 0] = rd_value [5, 2, 5, 0, 0]"
  using rd_value_terminates [of "[5, 2, 5, 0, 0]" 9] by simp

text \<open>
  C32. A node record survives storage: every record whose values can be stored is encoded without
  an error, and decoding returns its labels (sorted), and its properties with the same value for
  each key (Go's \<^verbatim>\<open>int\<close> as \<^verbatim>\<open>int64\<close>, nested maps with sorted keys).
\<close>

theorem node_record_roundtrip:
  assumes "wf_node rec"
  shows "\<exists>b rec'. EncodeNode rec = Inr b \<and> DecodeNode b = Inr rec' \<and> Labels rec' = sort (Labels rec) \<and>
    (\<forall>k. map_of (Props rec') k = map_option canon (map_of (Props rec) k))"
  using node_roundtrip [OF assms, of "[]"] assms
  by (auto simp: canon_node_def wf_node_def wf_props_def map_of_canon_props)

theorem node_record_roundtrip_witness:
  "\<exists>b rec'. EncodeNode \<lparr>Labels = [7, 3], Props = [(2, VList [VStr [97], VGoInt 300])]\<rparr> = Inr b \<and>
     DecodeNode b = Inr rec' \<and> Labels rec' = [3, 7] \<and>
     map_of (Props rec') 2 = Some (VList [VStr [97], VInt 300])"
  using node_record_roundtrip [of "\<lparr>Labels = [7, 3], Props = [(2, VList [VStr [97], VGoInt 300])]\<rparr>"]
  by (auto simp: wf_node_def wf_props_def)

text \<open>
  C33. An edge record survives storage: type and endpoints are read back exactly, and each
  property with its stored form.
\<close>

theorem edge_record_roundtrip:
  assumes "wf_props (EProps rec)"
  shows "\<exists>b rec'. EncodeEdge rec = Inr b \<and> DecodeEdge b = Inr rec' \<and>
    EType rec' = EType rec \<and> Src rec' = Src rec \<and> Dst rec' = Dst rec \<and>
    (\<forall>k. map_of (EProps rec') k = map_option canon (map_of (EProps rec) k))"
  using edge_roundtrip [OF assms, of "[]"] assms
  by (auto simp: canon_edge_def wf_props_def map_of_canon_props)

theorem edge_record_roundtrip_witness:
  "\<exists>b rec'. EncodeEdge \<lparr>EType = 1, Src = 2, Dst = 300, EProps = [(4, VFloat 5)]\<rparr> = Inr b \<and>
     DecodeEdge b = Inr rec' \<and> Dst rec' = 300 \<and> map_of (EProps rec') 4 = Some (VFloat 5)"
  using edge_record_roundtrip [of "\<lparr>EType = 1, Src = 2, Dst = 300, EProps = [(4, VFloat 5)]\<rparr>"]
  by (auto simp: wf_props_def)

end
