(* ===== verification/Storage.thy ===== *)
theory Storage
  imports Codec_Record "HOL-Library.Finite_Map"
begin

text \<open>
  \<^verbatim>\<open>internal/storage/store.go\<close> and the adapter \<^verbatim>\<open>internal/storage/bolt/bolt.go\<close>. The interface
  \<^verbatim>\<open>storage.Txn\<close> is a record of operations; its contract is the locale \<open>txn_store\<close> (whatever
  succeeds is right) with the extension \<open>reliable_txn\<close> (nothing fails). The adapter buffers
  writes in memory and merges them with the committed data of a bbolt bucket, which is a
  parameter; the merge is proved to satisfy both contracts.
\<close>

section \<open>The interface\<close>

text \<open>
  A transaction over a state of type \<open>'s\<close>. A scan is the list of the entries an iterator yields,
  each key with the result of \<^verbatim>\<open>Value()\<close>: an iterator sees the writes made before it was
  created and none made later, so the list can be read off when it is created.
\<close>

record 's Txn =
  TGet :: "'s \<Rightarrow> bytes \<Rightarrow> bytes result"
  TSet :: "bytes \<Rightarrow> bytes \<Rightarrow> ('s, unit) act"
  TDelete :: "bytes \<Rightarrow> ('s, unit) act"
  TScan :: "'s \<Rightarrow> bytes \<Rightarrow> (bytes \<times> bytes result) list"
  TScanFrom :: "'s \<Rightarrow> bytes \<Rightarrow> bytes \<Rightarrow> (bytes \<times> bytes result) list"

text \<open>
  The contract: \<open>content s\<close> is what the transaction sees, \<open>usable s\<close> says that it is in progress.
  An operation may fail for reasons of the engine, and then changes nothing.
\<close>

locale txn_store =
  fixes T :: "'s Txn"
    and content :: "'s \<Rightarrow> bytes \<Rightarrow> bytes option"
    and usable :: "'s \<Rightarrow> bool"
  assumes get_Inr: "usable s \<Longrightarrow> TGet T s k = Inr v \<Longrightarrow> content s k = Some v"
    and get_NotFound: "usable s \<Longrightarrow> TGet T s k = Inl e \<Longrightarrow> errors_Is e ErrNotFound \<Longrightarrow> content s k = None"
    and set_Inr: "usable s \<Longrightarrow> TSet T k v s = (Inr u, s') \<Longrightarrow> usable s' \<and> content s' = (content s)(k \<mapsto> v)"
    and set_Inl: "usable s \<Longrightarrow> TSet T k v s = (Inl e, s') \<Longrightarrow> usable s' \<and> content s' = content s"
    and delete_Inr: "usable s \<Longrightarrow> TDelete T k s = (Inr u, s') \<Longrightarrow> usable s' \<and> content s' = (content s)(k := None)"
    and delete_Inl: "usable s \<Longrightarrow> TDelete T k s = (Inl e, s') \<Longrightarrow> usable s' \<and> content s' = content s"
    and scanFrom_sorted: "usable s \<Longrightarrow> prefix p st \<Longrightarrow> sorted_wrt (<) (map fst (TScanFrom T s p st))"
    and scanFrom_keys: "usable s \<Longrightarrow> prefix p st \<Longrightarrow>
      fst ` set (TScanFrom T s p st) = {k. content s k \<noteq> None \<and> prefix p k \<and> st \<le> k}"
    and scanFrom_value: "usable s \<Longrightarrow> prefix p st \<Longrightarrow> (k, Inr v) \<in> set (TScanFrom T s p st) \<Longrightarrow> content s k = Some v"
    and scan_from: "usable s \<Longrightarrow> TScan T s p = TScanFrom T s p p"
begin

lemma scan_sorted: "usable s \<Longrightarrow> sorted_wrt (<) (map fst (TScan T s p))"
  using scanFrom_sorted [of s p p] by (simp add: scan_from)

lemma scan_keys: "usable s \<Longrightarrow> fst ` set (TScan T s p) = {k. content s k \<noteq> None \<and> prefix p k}"
  using scanFrom_keys [of s p p] by (auto simp: scan_from prefix_le)

lemma scan_value: "usable s \<Longrightarrow> (k, Inr v) \<in> set (TScan T s p) \<Longrightarrow> content s k = Some v"
  using scanFrom_value [of s p p] by (simp add: scan_from)

lemma runs_TSet: "runs (TSet T k v) s u s' \<Longrightarrow> usable s \<Longrightarrow> usable s' \<and> content s' = (content s)(k \<mapsto> v)"
  by (simp add: runs_def set_Inr)

lemma runs_TDelete: "runs (TDelete T k) s u s' \<Longrightarrow> usable s \<Longrightarrow> usable s' \<and> content s' = (content s)(k := None)"
  by (simp add: runs_def delete_Inr)

end

text \<open>An engine whose reads never fail, and whose writes to a key that is not empty never fail
  while the transaction is \<open>writable\<close>: bbolt inside \<^verbatim>\<open>Update\<close>.\<close>

locale reliable_txn = txn_store +
  fixes writable :: "'s \<Rightarrow> bool"
  assumes writable_usable: "writable s \<Longrightarrow> usable s"
    and get_total: "usable s \<Longrightarrow> TGet T s k = (case content s k of None \<Rightarrow> Inl ErrNotFound | Some v \<Rightarrow> Inr v)"
    and set_total: "writable s \<Longrightarrow> k \<noteq> [] \<Longrightarrow> \<exists>s'. TSet T k v s = (Inr (), s') \<and> writable s'"
    and delete_total: "writable s \<Longrightarrow> \<exists>s'. TDelete T k s = (Inr (), s') \<and> writable s'"
    and scanFrom_total: "usable s \<Longrightarrow> prefix p st \<Longrightarrow> (k, r) \<in> set (TScanFrom T s p st) \<Longrightarrow> \<exists>v. r = Inr v"

section \<open>The bbolt adapter\<close>

text \<open>
  A bbolt bucket of type \<open>'b\<close>, with what the adapter calls: \<open>bGet\<close> (\<^verbatim>\<open>Bucket.Get\<close>, \<open>None\<close> for nil),
  \<open>bSeek\<close> (the entries that \<^verbatim>\<open>Cursor.Seek\<close> and the following \<^verbatim>\<open>Cursor.Next\<close> calls return), \<open>bPut\<close>
  and \<open>bDelete\<close>.
\<close>

record 'b bbolt =
  bGet :: "'b \<Rightarrow> bytes \<Rightarrow> bytes option"
  bSeek :: "'b \<Rightarrow> bytes \<Rightarrow> (bytes \<times> bytes) list"
  bPut :: "bytes \<Rightarrow> bytes \<Rightarrow> 'b \<Rightarrow> 'b result"
  bDelete :: "bytes \<Rightarrow> 'b \<Rightarrow> 'b result"

text \<open>\<open>pending\<close> is the Go map of buffered writes (a nil value marks a deletion), \<open>None\<close> the nil map
  of a read-only transaction.\<close>

type_synonym pendingEntry = "bytes \<times> bytes option"

record 'b txn =
  bkt :: 'b
  pending :: "pendingEntry list option"
  tclosed :: bool

definition pend_list :: "'b txn \<Rightarrow> pendingEntry list" where
  "pend_list t = (case pending t of None \<Rightarrow> [] | Some p \<Rightarrow> p)"

definition bolt_Get :: "'b bbolt \<Rightarrow> 'b txn \<Rightarrow> bytes \<Rightarrow> bytes result" where
  "bolt_Get B t key =
     (case map_of (pend_list t) key of
        Some None \<Rightarrow> Inl ErrNotFound
      | Some (Some v) \<Rightarrow> Inr v
      | None \<Rightarrow> (case bGet B (bkt t) key of None \<Rightarrow> Inl ErrNotFound | Some v \<Rightarrow> Inr v))"

definition bolt_Set :: "bytes \<Rightarrow> bytes \<Rightarrow> ('b txn, unit) act" where
  "bolt_Set key val t =
     (case pending t of
        None \<Rightarrow> (Inl ErrReadOnly, t)
      | Some p \<Rightarrow>
          if tclosed t then (Inl ErrReadOnly, t)
          else if length key = 0 then (Inl ErrEmptyKey, t)
          else (Inr (), t \<lparr>pending := Some (AList.update key (Some val) p)\<rparr>))"

definition bolt_Delete :: "bytes \<Rightarrow> ('b txn, unit) act" where
  "bolt_Delete key t =
     (case pending t of
        None \<Rightarrow> (Inl ErrReadOnly, t)
      | Some p \<Rightarrow>
          if tclosed t then (Inl ErrReadOnly, t)
          else (Inr (), t \<lparr>pending := Some (AList.update key None p)\<rparr>))"

text \<open>
  The merging iterator. \<open>icur\<close> is the cursor: its head is the position \<^verbatim>\<open>ck, cv\<close>. \<open>ipend\<close> holds the
  buffered writes from index \<^verbatim>\<open>pi\<close> on, \<open>ientry\<close> the current merged entry.
\<close>

record iterator =
  iprefix :: bytes
  icur :: "(bytes \<times> bytes) list"
  ipend :: "pendingEntry list"
  ientry :: "(bytes \<times> bytes) option"
  iclosed :: bool

definition cursorKey :: "bytes \<Rightarrow> (bytes \<times> bytes) list \<Rightarrow> bytes option" where
  "cursorKey p c = (case c of [] \<Rightarrow> None | (ck, cv) # _ \<Rightarrow> if prefix p ck then Some ck else None)"

text \<open>\<^verbatim>\<open>settle\<close> on the cursor and the remaining buffered writes: the entry found and what is left.\<close>

fun settle_loop ::
  "bytes \<Rightarrow> (bytes \<times> bytes) list \<Rightarrow> pendingEntry list \<Rightarrow>
     (bytes \<times> bytes) option \<times> (bytes \<times> bytes) list \<times> pendingEntry list" where
  "settle_loop p c [] = (case cursorKey p c of None \<Rightarrow> (None, c, []) | Some ck \<Rightarrow> (Some (hd c), c, []))"
| "settle_loop p c ((pk, pv) # ps) =
     (case cursorKey p c of
        Some ck \<Rightarrow>
          if ck < pk then (Some (hd c), c, (pk, pv) # ps)
          else let c' = (if ck = pk then tl c else c)
               in (case pv of None \<Rightarrow> settle_loop p c' ps | Some v \<Rightarrow> (Some (pk, v), c', (pk, pv) # ps))
      | None \<Rightarrow> (case pv of None \<Rightarrow> settle_loop p c ps | Some v \<Rightarrow> (Some (pk, v), c, (pk, pv) # ps)))"

definition settle :: "iterator \<Rightarrow> iterator" where
  "settle i = (case settle_loop (iprefix i) (icur i) (ipend i) of
     (e, c, ps) \<Rightarrow> i \<lparr>ientry := e, icur := c, ipend := ps\<rparr>)"

definition Valid :: "iterator \<Rightarrow> bool" where
  "Valid i \<longleftrightarrow> \<not> iclosed i \<and> ientry i \<noteq> None"

definition Next :: "iterator \<Rightarrow> iterator" where
  "Next i =
     (if \<not> Valid i then i
      else settle
        (if ipend i \<noteq> [] \<and> fst (the (ientry i)) = fst (hd (ipend i)) then i \<lparr>ipend := tl (ipend i)\<rparr>
         else i \<lparr>icur := tl (icur i)\<rparr>))"

definition Close :: "iterator \<Rightarrow> iterator" where
  "Close i = i \<lparr>iclosed := True\<rparr>"

definition newIterator :: "'b bbolt \<Rightarrow> 'b txn \<Rightarrow> bytes \<Rightarrow> bytes \<Rightarrow> iterator" where
  "newIterator B t p start =
     (let start = (if start < p then p else start)
      in settle \<lparr>iprefix = p, icur = bSeek B (bkt t) start,
           ipend = sort_key fst (filter (\<lambda>(k, v). prefix p k \<and> start \<le> k) (pend_list t)),
           ientry = None, iclosed = False\<rparr>)"

text \<open>
  What a client reads with \<^verbatim>\<open>for ; it.Valid(); it.Next()\<close>. The first argument bounds the number of
  rounds; one round consumes an entry of the cursor or of the buffered writes, so their total
  number is enough.
\<close>

fun collect :: "nat \<Rightarrow> iterator \<Rightarrow> (bytes \<times> bytes) list" where
  "collect 0 i = []"
| "collect (Suc n) i = (if Valid i then the (ientry i) # collect n (Next i) else [])"

definition bolt_ScanFrom :: "'b bbolt \<Rightarrow> 'b txn \<Rightarrow> bytes \<Rightarrow> bytes \<Rightarrow> (bytes \<times> bytes result) list" where
  "bolt_ScanFrom B t p start =
     (let i = newIterator B t p start
      in map (\<lambda>(k, v). (k, Inr v)) (collect (length (icur i) + length (ipend i)) i))"

definition bolt_Scan :: "'b bbolt \<Rightarrow> 'b txn \<Rightarrow> bytes \<Rightarrow> (bytes \<times> bytes result) list" where
  "bolt_Scan B t p = bolt_ScanFrom B t p p"

definition boltTxn :: "'b bbolt \<Rightarrow> 'b txn Txn" where
  "boltTxn B = \<lparr>TGet = bolt_Get B, TSet = bolt_Set, TDelete = bolt_Delete,
     TScan = bolt_Scan B, TScanFrom = bolt_ScanFrom B\<rparr>"

text \<open>
  The two methods of a bbolt database that the adapter calls, \<^verbatim>\<open>DB.View\<close> and \<^verbatim>\<open>DB.Update\<close>: each runs a function on
  the adapter's bucket in a transaction of bbolt. \<open>'d\<close> is the state of the database and \<open>'b\<close> that of the bucket
  inside the transaction.
\<close>

record ('d, 'b, 'a) bboltDB =
  dbView :: "('b, 'a) act \<Rightarrow> ('d, 'a) act"
  dbUpdate :: "('b, 'a) act \<Rightarrow> ('d, 'a) act"

text \<open>
  \<^verbatim>\<open>Store.View\<close> and \<^verbatim>\<open>Store.Update\<close>. \<open>update_fn\<close> is the function that \<^verbatim>\<open>Update\<close> passes to bbolt: the writes stay in
  the buffer until \<^verbatim>\<open>fn\<close> has returned without an error, and are then applied to the bucket in the order of the
  keys; when one of them fails, the earlier ones have been applied.
\<close>

definition bolt_View :: "('d, 'b, 'a) bboltDB \<Rightarrow> ('b txn, 'a) act \<Rightarrow> ('d, 'a) act" where
  "bolt_View D fn =
     dbView D (\<lambda>b. case fn \<lparr>bkt = b, pending = None, tclosed = False\<rparr> of (r, t) \<Rightarrow> (r, bkt t))"

fun commit_loop :: "'b bbolt \<Rightarrow> pendingEntry list \<Rightarrow> ('b, unit) act" where
  "commit_loop B [] b = (Inr (), b)"
| "commit_loop B ((k, v) # ps) b =
     (case wrapR (case v of None \<Rightarrow> bDelete B k b | Some x \<Rightarrow> bPut B k x b) of
        Inl e \<Rightarrow> (Inl e, b)
      | Inr b' \<Rightarrow> commit_loop B ps b')"

definition update_fn :: "'b bbolt \<Rightarrow> ('b txn, 'a) act \<Rightarrow> ('b, 'a) act" where
  "update_fn B fn b =
     (case fn \<lparr>bkt = b, pending = Some [], tclosed = False\<rparr> of
        (Inl e, t) \<Rightarrow> (Inl e, bkt t)
      | (Inr x, t) \<Rightarrow>
          let t = t\<lparr>tclosed := True\<rparr>
          in bnd (commit_loop B (sort_key fst (pend_list t))) (\<lambda>_. ret x) (bkt t))"

definition bolt_Update :: "'b bbolt \<Rightarrow> ('d, 'b, 'a) bboltDB \<Rightarrow> ('b txn, 'a) act \<Rightarrow> ('d, 'a) act" where
  "bolt_Update B D fn = dbUpdate D (update_fn B fn)"

section \<open>The merge\<close>

text \<open>The entries of two sorted sources, the buffered writes winning: what the iterator computes.\<close>

fun merge :: "(bytes \<times> bytes) list \<Rightarrow> pendingEntry list \<Rightarrow> (bytes \<times> bytes) list" where
  "merge c [] = c"
| "merge [] ((pk, pv) # ps) = (case pv of None \<Rightarrow> merge [] ps | Some v \<Rightarrow> (pk, v) # merge [] ps)"
| "merge ((ck, cv) # c) ((pk, pv) # ps) =
     (if ck < pk then (ck, cv) # merge c ((pk, pv) # ps)
      else let c' = (if ck = pk then c else (ck, cv) # c)
           in (case pv of None \<Rightarrow> merge c' ps | Some v \<Rightarrow> (pk, v) # merge c' ps))"

definition overlay :: "(bytes \<rightharpoonup> bytes) \<Rightarrow> pendingEntry list \<Rightarrow> bytes \<rightharpoonup> bytes" where
  "overlay m ps k = (case map_of ps k of None \<Rightarrow> m k | Some x \<Rightarrow> x)"

lemma merge_keys: "(k, v) \<in> set (merge c ps) \<Longrightarrow> k \<in> fst ` set c \<or> k \<in> fst ` set ps"
  by (induction c ps rule: merge.induct) (force simp: Let_def split: if_splits option.splits)+

lemma merge_keys_image: "x \<in> fst ` set (merge c ps) \<Longrightarrow> x \<in> fst ` set c \<or> x \<in> fst ` set ps"
  using merge_keys by force

text \<open>\<open>ps\<close> gives the entries of \<open>m\<close> in ascending order.\<close>

definition entries_of :: "(bytes \<times> 'v) list \<Rightarrow> (bytes \<rightharpoonup> 'v) \<Rightarrow> bool" where
  "entries_of ps m \<longleftrightarrow> sorted_wrt (<) (map fst ps) \<and> (\<forall>k v. (k, v) \<in> set ps \<longleftrightarrow> m k = Some v)"

lemma entries_of_map_of: "entries_of c m \<Longrightarrow> m = map_of c"
proof (rule ext)
  fix k
  assume l: "entries_of c m"
  then have d: "distinct (map fst c)" by (simp add: entries_of_def strict_sorted_iff)
  show "m k = map_of c k"
  proof (cases "m k")
    case None
    with l have "k \<notin> fst ` set c" by (auto simp: entries_of_def)
    with None show ?thesis by (simp add: map_of_eq_None_iff eq_commute [of None])
  next
    case (Some v)
    with l d show ?thesis by (auto simp: entries_of_def)
  qed
qed

lemma entries_of_Nil: "entries_of [] m \<longleftrightarrow> m = Map.empty"
  by (auto simp: entries_of_def)

lemma entries_of_Cons:
  assumes "entries_of c m" "\<And>x. x \<in> fst ` set c \<Longrightarrow> k < x"
  shows "entries_of ((k, v) # c) (m(k \<mapsto> v))"
proof -
  from assms(2) have "(k, u) \<notin> set c" for u by force
  with assms show ?thesis by (auto simp: entries_of_def)
qed

lemma overlay_Cons: "overlay m ((k, x) # ps) = (overlay m ps)(k := x)"
  by (auto simp: overlay_def)

lemma overlay_upd: "k \<notin> fst ` set ps \<Longrightarrow> overlay (m(k := x)) ps = (overlay m ps)(k := x)"
  by (auto simp: overlay_def fun_eq_iff map_of_eq_None_iff [symmetric] split: option.splits)

lemma merge_entries:
  assumes "sorted_wrt (<) (map fst c)" "sorted_wrt (<) (map fst ps)"
  shows "entries_of (merge c ps) (overlay (map_of c) ps)"
  using assms
proof (induction c ps rule: merge.induct)
  case (1 c)
  then show ?case by (auto simp: overlay_def entries_of_def strict_sorted_iff)
next
  case (2 pk pv ps)
  have f: "pk < x" if "x \<in> fst ` set (merge [] ps)" for x
    using 2(4) merge_keys_image [OF that] by auto
  have "map_of ps pk = None" using 2(4) by (auto simp: map_of_eq_None_iff)
  then have none: "(overlay (map_of []) ps)(pk := None) = overlay (map_of []) ps"
    by (auto simp: overlay_def fun_eq_iff)
  show ?case
  proof (cases pv)
    case None
    with 2 show ?thesis unfolding overlay_Cons None none by simp
  next
    case (Some v)
    with 2 f show ?thesis unfolding overlay_Cons Some by (simp add: entries_of_Cons del: fun_upd_apply)
  qed
next
  case (3 ck cv c pk pv ps)
  have ck: "ck \<notin> fst ` set c" and pk: "pk \<notin> fst ` set ps" using 3(4,5) by auto
  show ?case
  proof (cases "ck < pk")
    case True
    have f: "ck < x" if "x \<in> fst ` set (merge c ((pk, pv) # ps))" for x
      using 3(4,5) True merge_keys_image [OF that] by auto
    have n: "ck \<notin> fst ` set ((pk, pv) # ps)" using 3(5) True by auto
    have o: "overlay (map_of ((ck, cv) # c)) ((pk, pv) # ps) = (overlay (map_of c) ((pk, pv) # ps))(ck \<mapsto> cv)"
      using overlay_upd [OF n, of "map_of c" "Some cv"] by simp
    have "entries_of (merge c ((pk, pv) # ps)) (overlay (map_of c) ((pk, pv) # ps))"
      using 3(1) [OF True] 3(4,5) by simp
    then show ?thesis
      unfolding o using True f by (simp add: entries_of_Cons del: fun_upd_apply)
  next
    case False
    define c' where "c' = (if ck = pk then c else (ck, cv) # c)"
    have c': "sorted_wrt (<) (map fst c')" using 3(4) by (simp add: c'_def)
    have f: "pk < x" if "x \<in> fst ` set (merge c' ps)" for x
      using 3(4,5) False merge_keys_image [OF that] by (auto simp: c'_def split: if_splits)
    have ih: "entries_of (merge c' ps) (overlay (map_of c') ps)"
      using 3(2,3) False c' 3(5) by (cases pv) (auto simp: c'_def split: if_splits)
    have n: "pk \<notin> fst ` set c'" using False 3(4) by (auto simp: c'_def)
    have o: "(overlay (map_of ((ck, cv) # c)) ps)(pk := x) = (overlay (map_of c') ps)(pk := x)" for x
      by (auto simp: overlay_def c'_def fun_eq_iff split: option.splits)
    have none: "(overlay (map_of c') ps)(pk := None) = overlay (map_of c') ps"
      using n pk by (auto simp: overlay_def fun_eq_iff simp flip: map_of_eq_None_iff)
    show ?thesis
    proof (cases pv)
      case None
      with False ih show ?thesis unfolding overlay_Cons None o none by (simp add: c'_def)
    next
      case (Some v)
      have "entries_of ((pk, v) # merge c' ps) ((overlay (map_of c') ps)(pk \<mapsto> v))"
        using ih f by (rule entries_of_Cons)
      with False show ?thesis unfolding overlay_Cons Some o by (simp add: c'_def del: fun_upd_apply)
    qed
  qed
qed

text \<open>The iterator yields the merge of the cursor entries with the prefix and the buffered writes.\<close>

definition in_prefix :: "bytes \<Rightarrow> (bytes \<times> bytes) list \<Rightarrow> (bytes \<times> bytes) list" where
  "in_prefix p c = takeWhile (\<lambda>(k, v). prefix p k) c"

lemma in_prefix_simps [simp]:
  "in_prefix p [] = []"
  "in_prefix p ((k, v) # c) = (if prefix p k then (k, v) # in_prefix p c else [])"
  by (simp_all add: in_prefix_def)

lemma cursorKey_simps [simp]:
  "cursorKey p [] = None"
  "cursorKey p ((k, v) # c) = (if prefix p k then Some k else None)"
  by (simp_all add: cursorKey_def)

text \<open>The rest of an iteration after the entry \<open>x\<close>: what \<^verbatim>\<open>Next\<close> leaves before it settles.\<close>

definition rest :: "bytes \<times> bytes \<Rightarrow> (bytes \<times> bytes) list \<Rightarrow> pendingEntry list \<Rightarrow> (bytes \<times> bytes) list \<times> pendingEntry list" where
  "rest x c ps = (if ps \<noteq> [] \<and> fst x = fst (hd ps) then (c, tl ps) else (tl c, ps))"

lemma settle_loop_merge:
  assumes "settle_loop p c ps = (e, c', ps')"
  shows "merge (in_prefix p c) ps =
     (case e of None \<Rightarrow> [] | Some x \<Rightarrow> (case rest x c' ps' of (c'', ps'') \<Rightarrow> x # merge (in_prefix p c'') ps''))"
  using assms
proof (induction ps arbitrary: c)
  case Nil
  then show ?case by (cases c) (auto simp: rest_def split: if_splits)
next
  case (Cons q ps)
  show ?case
    using Cons.IH [of c] Cons.IH [of "tl c"] Cons.prems
    by (cases q; cases c) (auto simp: rest_def Let_def split: if_splits option.splits)
qed

lemma settle_loop_length:
  assumes "settle_loop p c ps = (e, c', ps')"
  shows "length c' + length ps' \<le> length c + length ps \<and>
    (case e of None \<Rightarrow> True
     | Some x \<Rightarrow> (case rest x c' ps' of (c'', ps'') \<Rightarrow> length c'' + length ps'' < length c' + length ps'))"
  using assms
proof (induction ps arbitrary: c)
  case Nil
  then show ?case by (cases c) (auto simp: rest_def split: if_splits)
next
  case (Cons q ps)
  show ?case
    using Cons.IH [of c] Cons.IH [of "tl c"] Cons.prems
    by (cases q; cases c) (auto simp: rest_def Let_def split: if_splits option.splits)
qed

lemma Next_settle:
  assumes "\<not> iclosed i" "settle_loop (iprefix i) (icur i) (ipend i) = (Some x, c, ps)" "rest x c ps = (c', ps')"
  shows "Next (settle i) = settle (i \<lparr>icur := c', ipend := ps', ientry := Some x\<rparr>)"
  using assms by (auto simp: Next_def Valid_def settle_def rest_def split: if_splits)

lemma settle_ientry: "settle (i \<lparr>ientry := e\<rparr>) = settle i"
  by (simp add: settle_def split: prod.splits)

lemma collect_settle:
  "\<not> iclosed i \<Longrightarrow> length (icur (settle i)) + length (ipend (settle i)) \<le> n \<Longrightarrow>
     collect n (settle i) = merge (in_prefix (iprefix i) (icur i)) (ipend i)"
proof (induction n arbitrary: i)
  case 0
  obtain e c ps where s: "settle_loop (iprefix i) (icur i) (ipend i) = (e, c, ps)" by (metis prod_cases3)
  with 0(2) have "e = None"
    using settle_loop_length [OF s] by (cases e) (auto simp: settle_def split: prod.splits)
  with settle_loop_merge [OF s] show ?case by simp
next
  case (Suc n)
  obtain e c ps where s: "settle_loop (iprefix i) (icur i) (ipend i) = (e, c, ps)" by (metis prod_cases3)
  show ?case
  proof (cases e)
    case None
    with settle_loop_merge [OF s] s show ?thesis by (simp add: Valid_def settle_def)
  next
    case (Some x)
    obtain c' ps' where r: "rest x c ps = (c', ps')" by force
    let ?i = "i \<lparr>icur := c', ipend := ps', ientry := Some x\<rparr>"
    obtain e2 c2 ps2 where s2: "settle_loop (iprefix i) c' ps' = (e2, c2, ps2)" by (metis prod_cases3)
    have "length (icur (settle ?i)) + length (ipend (settle ?i)) \<le> n"
      using Suc.prems(2) settle_loop_length [OF s] settle_loop_length [OF s2] s s2 Some r by (simp add: settle_def)
    then have "collect n (settle ?i) = merge (in_prefix (iprefix i) c') ps'"
      using Suc.IH [of ?i] Suc.prems(1) by simp
    moreover have "Next (settle i) = settle ?i" using Next_settle Suc.prems(1) s r Some by blast
    moreover have "Valid (settle i)" "ientry (settle i) = Some x"
      using s Some Suc.prems(1) by (simp_all add: Valid_def settle_def)
    ultimately show ?thesis using settle_loop_merge [OF s] Some r by simp
  qed
qed

section \<open>The adapter satisfies the contract\<close>

definition bolt_content :: "'b bbolt \<Rightarrow> 'b txn \<Rightarrow> bytes \<rightharpoonup> bytes" where
  "bolt_content B t = overlay (bGet B (bkt t)) (pend_list t)"

definition bolt_wf :: "'b txn \<Rightarrow> bool" where
  "bolt_wf t \<longleftrightarrow> distinct (map fst (pend_list t))"

definition bolt_writable :: "'b txn \<Rightarrow> bool" where
  "bolt_writable t \<longleftrightarrow> bolt_wf t \<and> pending t \<noteq> None \<and> \<not> tclosed t"

text \<open>What bbolt documents of a bucket: a cursor visits the keys in byte order starting from the
  first that is not less than the one sought, and writes are visible to reads.\<close>

locale bbolt_bucket =
  fixes B :: "'b bbolt"
  assumes seek: "entries_of (bSeek B db st) (\<lambda>k. if st \<le> k then bGet B db k else None)"
    and put: "bPut B k v db = Inr db' \<Longrightarrow> bGet B db' = (bGet B db)(k \<mapsto> v)"
    and delete: "bDelete B k db = Inr db' \<Longrightarrow> bGet B db' = (bGet B db)(k := None)"
begin

lemma content_Get: "bolt_Get B t k = (case bolt_content B t k of None \<Rightarrow> Inl ErrNotFound | Some v \<Rightarrow> Inr v)"
  by (auto simp: bolt_Get_def bolt_content_def overlay_def split: option.splits)

end

lemma prefix_between:
  assumes "p \<le> (k :: bytes)" "k < k'" "prefix p k'"
  shows "prefix p k"
  using assms
proof (induction p arbitrary: k k')
  case (Cons a p)
  then obtain k2 where k2: "k' = a # k2" "prefix p k2" by (cases k') auto
  from Cons.prems(1) obtain c k1 where k1: "k = c # k1" by (cases k) auto
  then show ?case using Cons k2 by auto
qed simp

lemma in_prefix_entries:
  assumes "entries_of c (\<lambda>k. if st \<le> k then m k else None)" "p \<le> st"
  shows "entries_of (in_prefix p c) (\<lambda>k. if st \<le> k \<and> prefix p k then m k else None)"
proof -
  have s: "sorted_wrt (<) (map fst c)" and le: "\<And>k v. (k, v) \<in> set c \<Longrightarrow> p \<le> k"
    using assms by (auto simp: entries_of_def split: if_splits intro: order_trans)
  have "set (in_prefix p c) = {(k, v) \<in> set c. prefix p k}"
    using s le
  proof (induction c)
    case (Cons kv c)
    obtain k v where kv: "kv = (k, v)" by force
    have n: "\<not> prefix p k \<Longrightarrow> (k', v') \<in> set c \<Longrightarrow> \<not> prefix p k'" for k' v'
      using Cons.prems kv prefix_between [of p k k'] by fastforce
    have ih: "set (in_prefix p c) = {(k, v) \<in> set c. prefix p k}"
      using Cons.IH Cons.prems by auto
    show ?case using n by (cases "prefix p k") (auto simp: kv ih)
  qed simp
  moreover have "sorted_wrt (<) (map fst (in_prefix p c))"
    using s unfolding in_prefix_def by (metis map_append sorted_wrt_append takeWhile_dropWhile_id)
  ultimately show ?thesis using assms(1) by (auto simp: entries_of_def split: if_splits)
qed

definition overlay_range :: "bytes \<Rightarrow> bytes \<Rightarrow> pendingEntry list \<Rightarrow> pendingEntry list" where
  "overlay_range p st ps = sort_key fst (filter (\<lambda>(k, v). prefix p k \<and> st \<le> k) ps)"

lemma map_of_filter_key: "map_of (filter (\<lambda>(k, v). P k) ps) k = (if P k then map_of ps k else None)"
  by (induction ps) auto

lemma overlay_range:
  assumes "distinct (map fst ps)"
  shows "sorted_wrt (<) (map fst (overlay_range p st ps))"
    "map_of (overlay_range p st ps) k = (if prefix p k \<and> st \<le> k then map_of ps k else None)"
proof -
  have d: "distinct (map fst (filter (\<lambda>(k, v). prefix p k \<and> st \<le> k) ps))"
    using assms by (simp add: distinct_map inj_on_def)
  show "sorted_wrt (<) (map fst (overlay_range p st ps))"
    unfolding strict_sorted_iff overlay_range_def distinct_sort_key_fst using d by simp
  have "map_of (overlay_range p st ps) = map_of (filter (\<lambda>(k, v). prefix p k \<and> st \<le> k) ps)"
    unfolding overlay_range_def by (rule map_of_inject_set [THEN iffD2]) (use d in simp_all)
  then show "map_of (overlay_range p st ps) k = (if prefix p k \<and> st \<le> k then map_of ps k else None)"
    by (simp add: map_of_filter_key)
qed

context bbolt_bucket
begin

lemma ScanFrom_entries:
  assumes "bolt_wf t"
  shows "\<exists>es. bolt_ScanFrom B t p st = map (\<lambda>(k, v). (k, Inr v)) es \<and>
    entries_of es (\<lambda>k. if prefix p k \<and> st \<le> k then bolt_content B t k else None)"
proof -
  define st' where "st' = (if st < p then p else st)"
  let ?c = "bSeek B (bkt t) st'" and ?ps = "overlay_range p st' (pend_list t)"
  let ?i = "\<lparr>iprefix = p, icur = ?c, ipend = ?ps, ientry = None, iclosed = False\<rparr>"
  have st': "p \<le> st'" and le: "\<And>k. prefix p k \<Longrightarrow> st' \<le> k \<longleftrightarrow> st \<le> k"
    using prefix_le by (auto simp: st'_def intro: order_trans)
  have ps: "sorted_wrt (<) (map fst ?ps)" using overlay_range(1) assms unfolding bolt_wf_def .
  have c: "entries_of (in_prefix p ?c) (\<lambda>k. if st' \<le> k \<and> prefix p k then bGet B (bkt t) k else None)"
    using in_prefix_entries [OF seek st'] .
  then have "entries_of (merge (in_prefix p ?c) ?ps) (overlay (map_of (in_prefix p ?c)) ?ps)"
    using merge_entries [OF _ ps] by (simp add: entries_of_def)
  moreover have "overlay (map_of (in_prefix p ?c)) ?ps = (\<lambda>k. if prefix p k \<and> st \<le> k then bolt_content B t k else None)"
    unfolding entries_of_map_of [OF c, symmetric]
    using assms le overlay_range(2) [of "pend_list t" p st']
    by (auto simp: fun_eq_iff overlay_def bolt_wf_def bolt_content_def split: option.splits if_splits)
  moreover have "bolt_ScanFrom B t p st = map (\<lambda>(k, v). (k, Inr v)) (merge (in_prefix p ?c) ?ps)"
    using collect_settle [of ?i]
    by (simp add: bolt_ScanFrom_def newIterator_def Let_def st'_def overlay_range_def)
  ultimately show ?thesis by auto
qed

lemma bolt_wf_upd: "bolt_wf t \<Longrightarrow> pending t = Some ps \<Longrightarrow>
    bolt_wf (t \<lparr>pending := Some (AList.update k x ps)\<rparr>) \<and>
    bolt_content B (t \<lparr>pending := Some (AList.update k x ps)\<rparr>) = (bolt_content B t)(k := x)"
  by (auto simp: bolt_wf_def bolt_content_def pend_list_def overlay_def distinct_update update_conv fun_eq_iff)

lemma bolt_ScanFrom_facts:
  assumes "bolt_wf t"
  shows "sorted_wrt (<) (map fst (bolt_ScanFrom B t p st))"
    "fst ` set (bolt_ScanFrom B t p st) = {k. bolt_content B t k \<noteq> None \<and> prefix p k \<and> st \<le> k}"
    "(k, r) \<in> set (bolt_ScanFrom B t p st) \<Longrightarrow> \<exists>v. r = Inr v \<and> bolt_content B t k = Some v"
proof -
  obtain es where es: "bolt_ScanFrom B t p st = map (\<lambda>(k, v). (k, Inr v)) es"
    "entries_of es (\<lambda>k. if prefix p k \<and> st \<le> k then bolt_content B t k else None)"
    using ScanFrom_entries [OF assms] by blast
  have f: "map fst (bolt_ScanFrom B t p st) = map fst es"
    unfolding es(1) by (simp add: comp_def split_def)
  show "sorted_wrt (<) (map fst (bolt_ScanFrom B t p st))"
    unfolding f using es(2) by (simp add: entries_of_def)
  have "fst ` set (bolt_ScanFrom B t p st) = fst ` set es"
    using f by (metis list.set_map)
  also have "\<dots> = {k. \<exists>v. (k, v) \<in> set es}" by force
  also have "\<dots> = {k. bolt_content B t k \<noteq> None \<and> prefix p k \<and> st \<le> k}"
    using es(2) by (auto simp: entries_of_def split: if_splits)
  finally show "fst ` set (bolt_ScanFrom B t p st) = {k. bolt_content B t k \<noteq> None \<and> prefix p k \<and> st \<le> k}" .
  show "(k, r) \<in> set (bolt_ScanFrom B t p st) \<Longrightarrow> \<exists>v. r = Inr v \<and> bolt_content B t k = Some v"
    using es by (auto simp: entries_of_def split: if_splits)
qed

end

sublocale bbolt_bucket \<subseteq> bolt: txn_store "boltTxn B" "bolt_content B" bolt_wf
proof (unfold_locales, goal_cases)
  case (1 s k v)
  then show ?case by (auto simp: boltTxn_def content_Get split: option.splits)
next
  case (2 s k e)
  then show ?case by (auto simp: boltTxn_def content_Get split: option.splits)
next
  case (3 s k v u s')
  then show ?case
    using bolt_wf_upd [OF 3(1)] by (auto simp: boltTxn_def bolt_Set_def split: option.splits if_splits)
next
  case (4 s k v e s')
  then show ?case by (auto simp: boltTxn_def bolt_Set_def split: option.splits if_splits)
next
  case (5 s k u s')
  then show ?case
    using bolt_wf_upd [OF 5(1)] by (auto simp: boltTxn_def bolt_Delete_def split: option.splits if_splits)
next
  case (6 s k e s')
  then show ?case by (auto simp: boltTxn_def bolt_Delete_def split: option.splits if_splits)
next
  case (7 s p st)
  then show ?case using bolt_ScanFrom_facts(1) by (simp add: boltTxn_def)
next
  case (8 s p st)
  then show ?case using bolt_ScanFrom_facts(2) by (simp add: boltTxn_def)
next
  case (9 s p st k v)
  then show ?case using bolt_ScanFrom_facts(3) [OF 9(1)] by (fastforce simp: boltTxn_def)
next
  case (10 s p)
  then show ?case by (simp add: boltTxn_def bolt_Scan_def)
qed

sublocale bbolt_bucket \<subseteq> bolt: reliable_txn "boltTxn B" "bolt_content B" bolt_wf bolt_writable
proof (unfold_locales, goal_cases)
  case (1 s)
  then show ?case by (simp add: bolt_writable_def)
next
  case (2 s k)
  then show ?case by (simp add: boltTxn_def content_Get)
next
  case (3 s k v)
  then obtain ps where "pending s = Some ps" "bolt_wf s" "\<not> tclosed s" by (auto simp: bolt_writable_def)
  then show ?case using bolt_wf_upd [of s ps k "Some v"] 3 by (simp add: boltTxn_def bolt_Set_def bolt_writable_def)
next
  case (4 s k)
  then obtain ps where "pending s = Some ps" "bolt_wf s" "\<not> tclosed s" by (auto simp: bolt_writable_def)
  then show ?case using bolt_wf_upd [of s ps k None] by (simp add: boltTxn_def bolt_Delete_def bolt_writable_def)
next
  case (5 s p st k r)
  then show ?case using bolt_ScanFrom_facts(3) [OF 5(1)] by (fastforce simp: boltTxn_def)
qed

section \<open>A bucket in memory\<close>

text \<open>A finite map is a bucket: bbolt's documented behaviour can be met.\<close>

definition memBucket :: "(bytes, bytes) fmap bbolt" where
  "memBucket = \<lparr>bGet = fmlookup,
     bSeek = (\<lambda>db st. map (\<lambda>k. (k, the (fmlookup db k))) (filter (\<lambda>k. st \<le> k) (sorted_list_of_fset (fmdom db)))),
     bPut = (\<lambda>k v db. Inr (fmupd k v db)), bDelete = (\<lambda>k db. Inr (fmdrop k db))\<rparr>"

interpretation mem: bbolt_bucket memBucket
proof (unfold_locales, goal_cases)
  case (1 db st)
  have "sorted_wrt (<) (sorted_list_of_fset (fmdom db))"
    by (simp add: sorted_list_of_fset.rep_eq)
  then show ?case
    by (auto simp: entries_of_def memBucket_def comp_def fmlookup_dom_iff image_iff sorted_wrt_filter)
qed (auto simp: memBucket_def fun_eq_iff)

section \<open>Atomicity of \<^verbatim>\<open>Update\<close>\<close>

context bbolt_bucket
begin

lemma commit_loop_content:
  assumes "distinct (map fst ps)" "commit_loop B ps db = (Inr u, db')"
  shows "bGet B db' = overlay (bGet B db) ps"
  using assms
proof (induction ps arbitrary: db)
  case Nil
  then show ?case by (simp add: overlay_def)
next
  case (Cons kv ps)
  obtain k v where kv: "kv = (k, v)" by force
  from Cons.prems kv obtain db1 where db1: "(case v of None \<Rightarrow> bDelete B k db | Some x \<Rightarrow> bPut B k x db) = Inr db1"
    "commit_loop B ps db1 = (Inr u, db')" by (auto simp: wrapR_def split: sum.splits)
  then have "bGet B db1 = (bGet B db)(k := v)" by (cases v) (auto simp: put delete)
  moreover have "bGet B db' = overlay (bGet B db1) ps" using Cons db1 by simp
  ultimately show ?case using Cons.prems(1) by (simp add: kv overlay_Cons overlay_upd)
qed

end

text \<open>What a function passed to \<^verbatim>\<open>Update\<close> can do to the transaction: only what its operations do.\<close>

definition bolt_client :: "('b txn, 'a) act \<Rightarrow> bool" where
  "bolt_client fn \<longleftrightarrow> (\<forall>t. bolt_wf t \<longrightarrow> bolt_wf (snd (fn t)) \<and> bkt (snd (fn t)) = bkt t)"

text \<open>
  C34. The adapter's scans read the transaction's own writes: over any bbolt bucket, an iterator
  yields, in ascending order and exactly once, the keys with the prefix that are not less than
  the start and that \<^verbatim>\<open>Get\<close> finds, with the values that \<^verbatim>\<open>Get\<close> returns.
\<close>

theorem bolt_scan_agrees_with_get:
  assumes "bbolt_bucket B" and "distinct (map fst (pend_list t))"
  shows "sorted_wrt (<) (map fst (bolt_ScanFrom B t p st)) \<and>
    (\<forall>k r. (k, r) \<in> set (bolt_ScanFrom B t p st) \<longleftrightarrow>
       prefix p k \<and> st \<le> k \<and> (\<exists>v. r = Inr v \<and> bolt_Get B t k = Inr v))"
proof -
  have t: "bolt_wf t" using assms(2) by (simp add: bolt_wf_def)
  note f = bbolt_bucket.bolt_ScanFrom_facts [OF assms(1) t, where p = p and st = st]
  have "(k, r) \<in> set (bolt_ScanFrom B t p st) \<longleftrightarrow>
      prefix p k \<and> st \<le> k \<and> (\<exists>v. r = Inr v \<and> bolt_Get B t k = Inr v)" for k r
  proof
    assume "(k, r) \<in> set (bolt_ScanFrom B t p st)"
    moreover from this have "k \<in> fst ` set (bolt_ScanFrom B t p st)" by force
    ultimately show "prefix p k \<and> st \<le> k \<and> (\<exists>v. r = Inr v \<and> bolt_Get B t k = Inr v)"
      using f(2) f(3) [of k r] by (auto simp: bbolt_bucket.content_Get [OF assms(1)])
  next
    assume a: "prefix p k \<and> st \<le> k \<and> (\<exists>v. r = Inr v \<and> bolt_Get B t k = Inr v)"
    then obtain v where v: "r = Inr v" "bolt_content B t k = Some v"
      by (auto simp: bbolt_bucket.content_Get [OF assms(1)] split: option.splits)
    then have "k \<in> fst ` set (bolt_ScanFrom B t p st)" using a f(2) by auto
    then obtain r' where "(k, r') \<in> set (bolt_ScanFrom B t p st)" by force
    with f(3) [of k r'] v show "(k, r) \<in> set (bolt_ScanFrom B t p st)" by auto
  qed
  with f(1) show ?thesis by blast
qed

theorem bolt_scan_agrees_with_get_witness:
  "sorted_wrt (<) (map fst (bolt_ScanFrom memBucket \<lparr>bkt = fmap_of_list [([1, 2], [3])],
      pending = Some [([1, 4], Some [5]), ([1, 2], None)], tclosed = False\<rparr> [1] [1]))"
  using bolt_scan_agrees_with_get [OF mem.bbolt_bucket_axioms,
    of "\<lparr>bkt = fmap_of_list [([1, 2], [3])], pending = Some [([1, 4], Some [5]), ([1, 2], None)], tclosed = False\<rparr>" "[1]" "[1]"]
  by (simp add: pend_list_def)

section \<open>The database\<close>

text \<open>
  What bbolt documents of \<^verbatim>\<open>DB.Update\<close>: it runs the function on the committed bucket, returns the error of the
  function if there is one, commits the bucket that the function leaves otherwise, and reports when that fails; a
  transaction that is not committed is rolled back.
\<close>

locale bbolt_db = bbolt_bucket B for B :: "'b bbolt" +
  fixes D :: "('d, 'b, 'a) bboltDB"
    and committed :: "'d \<Rightarrow> 'b"
  assumes update_fails: "fst (f (committed d)) = Inl e \<Longrightarrow> fst (dbUpdate D f d) = Inl e"
    and update_commits: "f (committed d) = (Inr x, b) \<Longrightarrow> dbUpdate D f d = (Inr y, d') \<Longrightarrow> y = x \<and> committed d' = b"
    and update_rolls_back: "dbUpdate D f d = (Inl e, d') \<Longrightarrow> committed d' = committed d"
begin

text \<open>A function that only uses the operations of the transaction leaves the bucket alone until the commit.\<close>

lemma update_fn_content:
  assumes "bolt_client fn" "fn \<lparr>bkt = b, pending = Some [], tclosed = False\<rparr> = (Inr x, t)" "update_fn B fn b = (Inr y, b')"
  shows "y = x \<and> bGet B b' = bolt_content B t"
proof -
  have "bolt_wf \<lparr>bkt = b, pending = Some [], tclosed = False\<rparr>" by (simp add: bolt_wf_def pend_list_def)
  then have wf: "bolt_wf t" using assms(1,2) [unfolded bolt_client_def] by (metis snd_conv)
  have d: "distinct (map fst (sort_key fst (pend_list t)))" using wf unfolding bolt_wf_def distinct_sort_key_fst .
  have "map_of (sort_key fst (pend_list t)) = map_of (pend_list t)"
    by (rule map_of_inject_set [THEN iffD2]) (use d wf in \<open>simp_all add: bolt_wf_def\<close>)
  then have o: "overlay m (sort_key fst (pend_list t)) = overlay m (pend_list t)" for m by (simp add: overlay_def fun_eq_iff)
  have "pend_list (t\<lparr>tclosed := True\<rparr>) = pend_list t" by (simp add: pend_list_def)
  then have "y = x \<and> commit_loop B (sort_key fst (pend_list t)) (bkt t) = (Inr (), b')"
    using assms(2,3) by (auto simp: update_fn_def bnd_def ret_def split: prod.splits sum.splits)
  with commit_loop_content [OF d] show ?thesis by (auto simp: o bolt_content_def)
qed

end

text \<open>A database in memory: the committed bucket is its state.\<close>

definition memDB :: "((bytes, bytes) fmap, (bytes, bytes) fmap, 'a) bboltDB" where
  "memDB = \<lparr>dbView = (\<lambda>f d. (fst (f d), d)), dbUpdate = (\<lambda>f d. case f d of (Inl e, _) \<Rightarrow> (Inl e, d) | (Inr x, b) \<Rightarrow> (Inr x, b))\<rparr>"

interpretation memdb: bbolt_db memBucket memDB "\<lambda>d. d"
  by unfold_locales (auto simp: memDB_def split: prod.splits sum.splits)

text \<open>
  C35. \<^verbatim>\<open>Update\<close> installs what the transaction saw, or nothing: over any bbolt database, when it returns without an
  error then so has the function, which started from the committed rows, and the database holds exactly
  the rows of the transaction at the end of the function, although its writes were buffered and are applied in
  another order. When the function fails its error is returned, and not a single row has been written to the bucket
  by then. On every error the committed rows are those from before; after an error in the middle of the commit or
  of bbolt's own commit this is the rollback that bbolt promises.
\<close>

theorem bolt_update_atomic:
  assumes "bbolt_db B D committed" and "bolt_client fn"
  shows "let t0 = \<lparr>bkt = committed d, pending = Some [], tclosed = False\<rparr>
    in bolt_content B t0 = bGet B (committed d) \<and>
      (\<forall>e. fst (fn t0) = Inl e \<longrightarrow>
         fst (bolt_Update B D fn d) = Inl e \<and> update_fn B fn (committed d) = (Inl e, committed d)) \<and>
      (case bolt_Update B D fn d of
         (Inl e, d') \<Rightarrow> bGet B (committed d') = bGet B (committed d)
       | (Inr x, d') \<Rightarrow> \<exists>t. fn t0 = (Inr x, t) \<and> bGet B (committed d') = bolt_content B t)"
proof -
  let ?t0 = "\<lparr>bkt = committed d, pending = Some [], tclosed = False\<rparr>"
  have c: "bolt_content B ?t0 = bGet B (committed d)" by (simp add: bolt_content_def overlay_def pend_list_def fun_eq_iff)
  have u: "update_fn B fn (committed d) = (Inl e, committed d)" if "fst (fn ?t0) = Inl e" for e
    using that assms(2) [unfolded bolt_client_def, rule_format, of ?t0]
    by (cases "fn ?t0") (simp add: update_fn_def bolt_wf_def pend_list_def)
  have e: "fst (bolt_Update B D fn d) = Inl e" if "fst (fn ?t0) = Inl e" for e
    unfolding bolt_Update_def by (rule bbolt_db.update_fails [OF assms(1)]) (simp add: u [OF that])
  have ok: "\<exists>t. fn ?t0 = (Inr x, t) \<and> bGet B (committed d') = bolt_content B t" if u: "bolt_Update B D fn d = (Inr x, d')" for x d'
  proof -
    obtain r b where f: "update_fn B fn (committed d) = (r, b)" by force
    with u bbolt_db.update_fails [OF assms(1), of "update_fn B fn" d] obtain y where y: "r = Inr y" by (cases r) (auto simp: bolt_Update_def)
    then have y2: "x = y" "committed d' = b"
      using bbolt_db.update_commits [OF assms(1), of "update_fn B fn" d y b x d'] f u by (simp_all add: bolt_Update_def)
    obtain q t where q: "fn ?t0 = (q, t)" by force
    with e u obtain z where "q = Inr z" by (cases q) auto
    with q have t: "fn ?t0 = (Inr z, t)" by simp
    with bbolt_db.update_fn_content [OF assms(1,2) t] f y y2 show ?thesis by auto
  qed
  have rb: "bGet B (committed d') = bGet B (committed d)" if "bolt_Update B D fn d = (Inl e, d')" for e d'
    using bbolt_db.update_rolls_back [OF assms(1), of "update_fn B fn" d e d'] that by (simp add: bolt_Update_def)
  obtain r d' where r: "bolt_Update B D fn d = (r, d')" by force
  have "\<forall>e. fst (fn ?t0) = Inl e \<longrightarrow> r = Inl e \<and> update_fn B fn (committed d) = (Inl e, committed d)" using e u r by simp
  then show ?thesis unfolding Let_def r using c ok [of _ d'] rb [of _ d'] r by (cases r) simp_all
qed

theorem bolt_update_atomic_witness:
  "\<exists>db'. bolt_Update memBucket memDB (bolt_Set [1] [2]) fmempty = (Inr (), db') \<and> fmlookup db' [1] = Some [2]"
proof -
  have c: "bolt_client (bolt_Set [1] [2] :: ((bytes, bytes) fmap txn, unit) act)"
    using mem.bolt_wf_upd by (auto simp: bolt_client_def bolt_Set_def split: option.splits)
  have u: "bolt_Update memBucket memDB (bolt_Set [1] [2]) fmempty = (Inr (), fmupd [1] [2] fmempty)"
    by (simp add: bolt_Update_def update_fn_def bolt_Set_def pend_list_def memBucket_def memDB_def wrapR_def bnd_def ret_def)
  show ?thesis
    using bolt_update_atomic [OF memdb.bbolt_db_axioms c, of fmempty] u
    by (auto simp: bolt_Set_def bolt_content_def overlay_def pend_list_def memBucket_def)
qed

end
