(* ===== verification/Catalog.thy ===== *)
theory Catalog
  imports Storage
begin

text \<open>
  \<^verbatim>\<open>internal/catalog\<close>: the dictionaries between names and identifiers, the counters, the
  registries of indexes and unique constraints (\<^verbatim>\<open>catalog.go\<close>) and the on-disk format marker
  (\<^verbatim>\<open>format.go\<close>), over any transaction. The dictionaries are proved to be bijections that only
  grow, the counters to hand out fresh identifiers, and the format marker never to go down.
\<close>

section \<open>Keys\<close>

definition tagCounter :: byte where "tagCounter = 0x63"
definition tagLabelFwd :: byte where "tagLabelFwd = 0x4C"
definition tagTypeFwd :: byte where "tagTypeFwd = 0x54"
definition tagKeyFwd :: byte where "tagKeyFwd = 0x4B"
definition tagReverse :: byte where "tagReverse = 0x52"
definition tagIndexReg :: byte where "tagIndexReg = 0x58"
definition tagConstraint :: byte where "tagConstraint = 0x55"
definition tagRelIndex :: byte where "tagRelIndex = 0x59"
definition tagFormat :: byte where "tagFormat = 0x46"

definition kindLabel :: byte where "kindLabel = 0x4C"
definition kindType :: byte where "kindType = 0x54"
definition kindKey :: byte where "kindKey = 0x4B"
definition kindNode :: byte where "kindNode = 0x6E"
definition kindEdge :: byte where "kindEdge = 0x65"

lemmas catalog_tags [simp] = tagCounter_def tagLabelFwd_def tagTypeFwd_def tagKeyFwd_def tagReverse_def
  tagIndexReg_def tagConstraint_def tagRelIndex_def tagFormat_def

lemmas catalog_kinds [simp] = kindLabel_def kindType_def kindKey_def kindNode_def kindEdge_def

definition fwdKey :: "byte \<Rightarrow> bytes \<Rightarrow> bytes" where
  "fwdKey fwdTag name = fwdTag # name"

definition revKey :: "byte \<Rightarrow> u32 \<Rightarrow> bytes" where
  "revKey kind i = [tagReverse, kind] @ PutUint32 i"

definition counterKey :: "byte \<Rightarrow> bytes" where
  "counterKey kind = [tagCounter, kind]"

definition indexKey :: "u32 \<Rightarrow> u32 \<Rightarrow> bytes" where
  "indexKey label propKey = tagIndexReg # PutUint32 label @ PutUint32 propKey"

definition constraintKey :: "u32 \<Rightarrow> u32 \<Rightarrow> bytes" where
  "constraintKey label propKey = tagConstraint # PutUint32 label @ PutUint32 propKey"

definition relIndexKey :: "u32 \<Rightarrow> u32 \<Rightarrow> bytes" where
  "relIndexKey typeID propKey = tagRelIndex # PutUint32 typeID @ PutUint32 propKey"

definition formatKey :: bytes where
  "formatKey = [tagFormat]"

section \<open>Reading\<close>

text \<open>The switch that follows a \<^verbatim>\<open>Get\<close>: found, \<^verbatim>\<open>errors.Is(err, storage.ErrNotFound)\<close>, other errors.\<close>

definition lookup :: "'s Txn \<Rightarrow> 's \<Rightarrow> bytes \<Rightarrow> bytes option result" where
  "lookup T s k =
     (case TGet T s k of
        Inr v \<Rightarrow> Inr (Some v)
      | Inl e \<Rightarrow> if errors_Is e ErrNotFound then Inr None else Inl e)"

definition decodeU32 :: "bytes \<Rightarrow> u32 result" where
  "decodeU32 v = (if length v \<noteq> 4 then Inl (ErrMalformedId (length v)) else Inr (Uint32 v))"

definition decodeU64 :: "bytes \<Rightarrow> u64 result" where
  "decodeU64 v = (if length v \<noteq> 8 then Inl (ErrMalformedCounter (length v)) else Inr (Uint64 v))"

definition lookupDict :: "'s Txn \<Rightarrow> byte \<Rightarrow> bytes \<Rightarrow> 's \<Rightarrow> (u32 \<times> bool) result" where
  "lookupDict T fwdTag name s =
     bindR (lookup T s (fwdKey fwdTag name)) (\<lambda>r.
       case r of
         Some v \<Rightarrow> bindR (decodeU32 v) (\<lambda>i. Inr (i, True))
       | None \<Rightarrow> Inr (0, False))"

definition LookupLabel :: "'s Txn \<Rightarrow> bytes \<Rightarrow> 's \<Rightarrow> (u32 \<times> bool) result" where
  "LookupLabel T name = lookupDict T tagLabelFwd name"

definition LookupType :: "'s Txn \<Rightarrow> bytes \<Rightarrow> 's \<Rightarrow> (u32 \<times> bool) result" where
  "LookupType T name = lookupDict T tagTypeFwd name"

definition LookupKey :: "'s Txn \<Rightarrow> bytes \<Rightarrow> 's \<Rightarrow> (u32 \<times> bool) result" where
  "LookupKey T name = lookupDict T tagKeyFwd name"

definition revName :: "'s Txn \<Rightarrow> byte \<Rightarrow> u32 \<Rightarrow> 's \<Rightarrow> bytes result" where
  "revName T kind i s = TGet T s (revKey kind i)"

definition LabelName :: "'s Txn \<Rightarrow> u32 \<Rightarrow> 's \<Rightarrow> bytes result" where
  "LabelName T i = revName T kindLabel i"

definition TypeName :: "'s Txn \<Rightarrow> u32 \<Rightarrow> 's \<Rightarrow> bytes result" where
  "TypeName T i = revName T kindType i"

definition KeyName :: "'s Txn \<Rightarrow> u32 \<Rightarrow> 's \<Rightarrow> bytes result" where
  "KeyName T i = revName T kindKey i"

section \<open>Counters and dictionaries\<close>

definition nextCounter :: "'s Txn \<Rightarrow> byte \<Rightarrow> ('s, u64) act" where
  "nextCounter T kind =
     bnd (reads (\<lambda>s. lookup T s (counterKey kind))) (\<lambda>r.
     bnd (liftR (case r of Some v \<Rightarrow> decodeU64 v | None \<Rightarrow> Inr 0)) (\<lambda>cur.
     let next = cur + 1
     in seqA (TSet T (counterKey kind) (PutUint64 next)) (ret next)))"

definition NextNodeID :: "'s Txn \<Rightarrow> ('s, u64) act" where
  "NextNodeID T = nextCounter T kindNode"

definition NextEdgeID :: "'s Txn \<Rightarrow> ('s, u64) act" where
  "NextEdgeID T = nextCounter T kindEdge"

definition internDict :: "'s Txn \<Rightarrow> byte \<Rightarrow> byte \<Rightarrow> bytes \<Rightarrow> ('s, u32) act" where
  "internDict T fwdTag kind name =
     bnd (reads (\<lambda>s. lookup T s (fwdKey fwdTag name))) (\<lambda>r.
       case r of
         Some v \<Rightarrow> liftR (decodeU32 v)
       | None \<Rightarrow>
           bnd (nextCounter T kind) (\<lambda>id64.
             if 0xFFFFFFFF < id64 then throw (ErrOutOfIds kind)
             else let i = ucast id64
                  in seqA (TSet T (fwdKey fwdTag name) (PutUint32 i))
                    (seqA (TSet T (revKey kind i) name) (ret i))))"

definition InternLabel :: "'s Txn \<Rightarrow> bytes \<Rightarrow> ('s, u32) act" where
  "InternLabel T name = internDict T tagLabelFwd kindLabel name"

definition InternType :: "'s Txn \<Rightarrow> bytes \<Rightarrow> ('s, u32) act" where
  "InternType T name = internDict T tagTypeFwd kindType name"

definition InternKey :: "'s Txn \<Rightarrow> bytes \<Rightarrow> ('s, u32) act" where
  "InternKey T name = internDict T tagKeyFwd kindKey name"

section \<open>The registries\<close>

text \<open>A registry entry with an optional name, for an index on (label, propKey) or, in the registry of
  relationship indexes, on (type, propKey).\<close>

record IndexDef =
  ILabel :: u32
  IPropKey :: u32
  IName :: bytes

record RelIndexDef =
  RType :: u32
  RPropKey :: u32
  RName :: bytes

record ConstraintDef =
  CLabel :: u32
  CPropKey :: u32
  CName :: bytes
  OwnsIndex :: bool

definition AddNamedIndex :: "'s Txn \<Rightarrow> u32 \<Rightarrow> u32 \<Rightarrow> bytes \<Rightarrow> ('s, unit) act" where
  "AddNamedIndex T label propKey name = TSet T (indexKey label propKey) name"

definition AddIndex :: "'s Txn \<Rightarrow> u32 \<Rightarrow> u32 \<Rightarrow> ('s, unit) act" where
  "AddIndex T label propKey = AddNamedIndex T label propKey []"

definition GetIndex :: "'s Txn \<Rightarrow> u32 \<Rightarrow> u32 \<Rightarrow> 's \<Rightarrow> IndexDef option result" where
  "GetIndex T label propKey s =
     bindR (lookup T s (indexKey label propKey)) (\<lambda>r.
       Inr (map_option (\<lambda>v. \<lparr>ILabel = label, IPropKey = propKey, IName = v\<rparr>) r))"

definition RemoveIndex :: "'s Txn \<Rightarrow> u32 \<Rightarrow> u32 \<Rightarrow> ('s, unit) act" where
  "RemoveIndex T label propKey = TDelete T (indexKey label propKey)"

definition IndexName :: "'s Txn \<Rightarrow> IndexDef \<Rightarrow> 's \<Rightarrow> (bytes \<times> bytes \<times> bytes) result" where
  "IndexName T d s =
     bindR (LabelName T (ILabel d) s) (\<lambda>label.
     bindR (KeyName T (IPropKey d) s) (\<lambda>prop.
     let name = (if IName d = [] then str ''index_'' @ label @ str ''_'' @ prop else IName d)
     in Inr (label, prop, name)))"

definition HasIndex :: "'s Txn \<Rightarrow> u32 \<Rightarrow> u32 \<Rightarrow> 's \<Rightarrow> bool result" where
  "HasIndex T label propKey s =
     bindR (lookup T s (indexKey label propKey)) (\<lambda>r. Inr (r \<noteq> None))"

fun list_indexes :: "(bytes \<times> bytes result) list \<Rightarrow> IndexDef list result" where
  "list_indexes [] = Inr []"
| "list_indexes ((k, r) # it) =
     (if length k \<noteq> 9 then Inl (ErrMalformedRegistry (length k))
      else bindR r (\<lambda>v.
           bindR (list_indexes it) (\<lambda>ds.
           Inr (\<lparr>ILabel = Uint32 (take 4 (drop 1 k)), IPropKey = Uint32 (drop 5 k), IName = v\<rparr> # ds))))"

definition ListIndexes :: "'s Txn \<Rightarrow> 's \<Rightarrow> IndexDef list result" where
  "ListIndexes T s = list_indexes (TScan T s [tagIndexReg])"

definition AddConstraint :: "'s Txn \<Rightarrow> ConstraintDef \<Rightarrow> ('s, unit) act" where
  "AddConstraint T d =
     TSet T (constraintKey (CLabel d) (CPropKey d)) ((if OwnsIndex d then 1 else 0) # CName d)"

definition decodeConstraint :: "u32 \<Rightarrow> u32 \<Rightarrow> bytes \<Rightarrow> ConstraintDef result" where
  "decodeConstraint label propKey v =
     (case v of
        [] \<Rightarrow> Inl ErrMalformedConstraint
      | flags # name \<Rightarrow> Inr \<lparr>CLabel = label, CPropKey = propKey, CName = name, OwnsIndex = (flags AND 1 \<noteq> 0)\<rparr>)"

definition GetConstraint :: "'s Txn \<Rightarrow> u32 \<Rightarrow> u32 \<Rightarrow> 's \<Rightarrow> ConstraintDef option result" where
  "GetConstraint T label propKey s =
     bindR (lookup T s (constraintKey label propKey)) (\<lambda>r.
       case r of
         Some v \<Rightarrow> bindR (decodeConstraint label propKey v) (\<lambda>d. Inr (Some d))
       | None \<Rightarrow> Inr None)"

definition HasUnique :: "'s Txn \<Rightarrow> u32 \<Rightarrow> u32 \<Rightarrow> 's \<Rightarrow> bool result" where
  "HasUnique T label propKey s = bindR (GetConstraint T label propKey s) (\<lambda>r. Inr (r \<noteq> None))"

definition RemoveConstraint :: "'s Txn \<Rightarrow> u32 \<Rightarrow> u32 \<Rightarrow> ('s, unit) act" where
  "RemoveConstraint T label propKey = TDelete T (constraintKey label propKey)"

fun list_constraints :: "(bytes \<times> bytes result) list \<Rightarrow> ConstraintDef list result" where
  "list_constraints [] = Inr []"
| "list_constraints ((k, r) # it) =
     (if length k \<noteq> 9 then Inl (ErrMalformedRegistry (length k))
      else bindR r (\<lambda>v.
           bindR (decodeConstraint (Uint32 (take 4 (drop 1 k))) (Uint32 (drop 5 k)) v) (\<lambda>d.
           bindR (list_constraints it) (\<lambda>ds. Inr (d # ds)))))"

definition ListConstraints :: "'s Txn \<Rightarrow> 's \<Rightarrow> ConstraintDef list result" where
  "ListConstraints T s = list_constraints (TScan T s [tagConstraint])"

definition ConstraintName :: "'s Txn \<Rightarrow> ConstraintDef \<Rightarrow> 's \<Rightarrow> (bytes \<times> bytes \<times> bytes) result" where
  "ConstraintName T d s =
     bindR (LabelName T (CLabel d) s) (\<lambda>label.
     bindR (KeyName T (CPropKey d) s) (\<lambda>prop.
     let name = (if CName d = [] then str ''constraint_'' @ label @ str ''_'' @ prop else CName d)
     in Inr (label, prop, name)))"

definition AddRelIndex :: "'s Txn \<Rightarrow> u32 \<Rightarrow> u32 \<Rightarrow> bytes \<Rightarrow> ('s, unit) act" where
  "AddRelIndex T typeID propKey name = TSet T (relIndexKey typeID propKey) name"

definition HasRelIndex :: "'s Txn \<Rightarrow> u32 \<Rightarrow> u32 \<Rightarrow> 's \<Rightarrow> bool result" where
  "HasRelIndex T typeID propKey s =
     bindR (lookup T s (relIndexKey typeID propKey)) (\<lambda>r. Inr (r \<noteq> None))"

definition GetRelIndex :: "'s Txn \<Rightarrow> u32 \<Rightarrow> u32 \<Rightarrow> 's \<Rightarrow> RelIndexDef option result" where
  "GetRelIndex T typeID propKey s =
     bindR (lookup T s (relIndexKey typeID propKey)) (\<lambda>r.
       Inr (map_option (\<lambda>v. \<lparr>RType = typeID, RPropKey = propKey, RName = v\<rparr>) r))"

definition RemoveRelIndex :: "'s Txn \<Rightarrow> u32 \<Rightarrow> u32 \<Rightarrow> ('s, unit) act" where
  "RemoveRelIndex T typeID propKey = TDelete T (relIndexKey typeID propKey)"

fun list_rel_indexes :: "(bytes \<times> bytes result) list \<Rightarrow> RelIndexDef list result" where
  "list_rel_indexes [] = Inr []"
| "list_rel_indexes ((k, r) # it) =
     (if length k \<noteq> 9 then Inl (ErrMalformedRegistry (length k))
      else bindR r (\<lambda>v.
           bindR (list_rel_indexes it) (\<lambda>ds.
           Inr (\<lparr>RType = Uint32 (take 4 (drop 1 k)), RPropKey = Uint32 (drop 5 k), RName = v\<rparr> # ds))))"

definition ListRelIndexes :: "'s Txn \<Rightarrow> 's \<Rightarrow> RelIndexDef list result" where
  "ListRelIndexes T s = list_rel_indexes (TScan T s [tagRelIndex])"

definition RelIndexName :: "'s Txn \<Rightarrow> RelIndexDef \<Rightarrow> 's \<Rightarrow> (bytes \<times> bytes \<times> bytes) result" where
  "RelIndexName T d s =
     bindR (TypeName T (RType d) s) (\<lambda>typ.
     bindR (KeyName T (RPropKey d) s) (\<lambda>prop.
     let name = (if RName d = [] then str ''rel_index_'' @ typ @ str ''_'' @ prop else RName d)
     in Inr (typ, prop, name)))"

section \<open>The format marker\<close>

definition formatVersion :: u32 where "formatVersion = 1"
definition formatUnique :: u32 where "formatUnique = 2"
definition formatRelIndex :: u32 where "formatRelIndex = 3"
definition maxFormat :: u32 where "maxFormat = formatRelIndex"

definition EnsureFormat :: "'s Txn \<Rightarrow> ('s, unit) act" where
  "EnsureFormat T =
     bnd (reads (\<lambda>s. lookup T s formatKey)) (\<lambda>r.
       case r of
         None \<Rightarrow> TSet T formatKey (PutUint32 formatVersion)
       | Some cur \<Rightarrow>
           if length cur \<noteq> 4 then throw (ErrMalformedFormat (length cur))
           else if Uint32 cur < formatVersion \<or> maxFormat < Uint32 cur then throw (ErrFormatVersion (Uint32 cur))
           else ret ())"

text \<open>A missing marker reads as an empty slice, as in the code, where \<^verbatim>\<open>cur\<close> is nil then.\<close>

definition requireFormat :: "'s Txn \<Rightarrow> u32 \<Rightarrow> ('s, unit) act" where
  "requireFormat T v =
     bnd (reads (\<lambda>s. lookup T s formatKey)) (\<lambda>r.
       let cur = (case r of None \<Rightarrow> [] | Some c \<Rightarrow> c)
       in if length cur = 4 \<and> v \<le> Uint32 cur then ret ()
          else TSet T formatKey (PutUint32 v))"

definition RequireUniqueFormat :: "'s Txn \<Rightarrow> ('s, unit) act" where
  "RequireUniqueFormat T = requireFormat T formatUnique"

definition RequireRelIndexFormat :: "'s Txn \<Rightarrow> ('s, unit) act" where
  "RequireRelIndexFormat T = requireFormat T formatRelIndex"

section \<open>Keys are disjoint\<close>

lemma catalog_key_inject [simp]:
  "fwdKey t n = fwdKey t' n' \<longleftrightarrow> t = t' \<and> n = n'"
  "revKey k i = revKey k' i' \<longleftrightarrow> k = k' \<and> i = i'"
  "counterKey k = counterKey k' \<longleftrightarrow> k = k'"
  "indexKey l p = indexKey l' p' \<longleftrightarrow> l = l' \<and> p = p'"
  "constraintKey l p = constraintKey l' p' \<longleftrightarrow> l = l' \<and> p = p'"
  "relIndexKey l p = relIndexKey l' p' \<longleftrightarrow> l = l' \<and> p = p'"
  by (auto simp: fwdKey_def revKey_def counterKey_def indexKey_def constraintKey_def relIndexKey_def)

lemma hd_catalog_key [simp]:
  "hd (fwdKey t n) = t" "hd (revKey k i) = 0x52" "hd (counterKey k) = 0x63" "hd (indexKey l p) = 0x58"
  "hd (constraintKey l p) = 0x55" "hd (relIndexKey l p) = 0x59" "hd formatKey = 0x46"
  by (simp_all add: fwdKey_def revKey_def counterKey_def indexKey_def constraintKey_def relIndexKey_def formatKey_def)

lemma catalog_key_not_Nil [simp]:
  "fwdKey t n \<noteq> []" "revKey k i \<noteq> []" "counterKey k \<noteq> []" "indexKey l p \<noteq> []"
  "constraintKey l p \<noteq> []" "relIndexKey l p \<noteq> []" "formatKey \<noteq> []"
  by (simp_all add: fwdKey_def revKey_def counterKey_def indexKey_def constraintKey_def relIndexKey_def formatKey_def)

lemma key_neq [key_simps]: "hd a \<noteq> hd b \<Longrightarrow> (a :: bytes) = b \<longleftrightarrow> False"
  by auto

section \<open>What the operations do to the content\<close>

text \<open>The value of a counter, and that it is stored in eight bytes if at all.\<close>

definition counter :: "(bytes \<rightharpoonup> bytes) \<Rightarrow> byte \<Rightarrow> u64" where
  "counter m kind = (case m (counterKey kind) of None \<Rightarrow> 0 | Some v \<Rightarrow> Uint64 v)"

definition counter_ok :: "(bytes \<rightharpoonup> bytes) \<Rightarrow> byte \<Rightarrow> bool" where
  "counter_ok m kind \<longleftrightarrow> (\<forall>v. m (counterKey kind) = Some v \<longrightarrow> length v = 8)"

lemma counter_upd [simp]:
  "counter (m(counterKey kind \<mapsto> PutUint64 n)) kind' = (if kind' = kind then n else counter m kind')"
  by (simp add: counter_def)

lemma counter_other: "hd k \<noteq> 0x63 \<Longrightarrow> counter (m(k := x)) kind = counter m kind"
  by (auto simp: counter_def key_simps)

context txn_store
begin

lemma lookup_content: "lookup T s k = Inr r \<Longrightarrow> usable s \<Longrightarrow> content s k = r"
  using get_Inr get_NotFound by (auto simp: lookup_def split: sum.splits if_splits)

lemma runs_nextCounter:
  assumes "runs (nextCounter T kind) s n s'" "usable s"
  shows "usable s' \<and> content s' = (content s)(counterKey kind \<mapsto> PutUint64 n) \<and>
    n = counter (content s) kind + 1 \<and> counter_ok (content s) kind"
proof -
  from assms(1) obtain r cur where l: "lookup T s (counterKey kind) = Inr r"
    and c: "(case r of Some v \<Rightarrow> decodeU64 v | None \<Rightarrow> Inr 0) = Inr cur" and n: "n = cur + 1"
    and t: "runs (TSet T (counterKey kind) (PutUint64 (cur + 1))) s () s'"
    by (auto simp: nextCounter_def runs_simps Let_def)
  have "content s (counterKey kind) = r" using lookup_content [OF l assms(2)] .
  with c have "counter (content s) kind = cur" "counter_ok (content s) kind"
    by (auto simp: counter_def counter_ok_def decodeU64_def split: option.splits if_splits)
  with runs_TSet [OF t assms(2)] n show ?thesis by simp
qed

text \<open>Interning either finds the name or assigns it the next identifier.\<close>

lemma runs_internDict:
  assumes "runs (internDict T tag kind name) s i s'" "usable s"
  shows "usable s' \<and>
    (content s (fwdKey tag name) = Some (PutUint32 i) \<and> s' = s \<or>
     content s (fwdKey tag name) = None \<and> counter_ok (content s) kind \<and>
     counter (content s) kind + 1 \<le> 0xFFFFFFFF \<and> i = ucast (counter (content s) kind + 1) \<and>
     content s' = (content s)(counterKey kind \<mapsto> PutUint64 (counter (content s) kind + 1),
       fwdKey tag name \<mapsto> PutUint32 i, revKey kind i \<mapsto> name))"
proof -
  from assms(1) obtain r where l: "lookup T s (fwdKey tag name) = Inr r"
    and r: "runs (case r of Some v \<Rightarrow> liftR (decodeU32 v)
       | None \<Rightarrow> bnd (nextCounter T kind) (\<lambda>id64.
             if 0xFFFFFFFF < id64 then throw (ErrOutOfIds kind)
             else let i = ucast id64
                  in seqA (TSet T (fwdKey tag name) (PutUint32 i)) (seqA (TSet T (revKey kind i) name) (ret i)))) s i s'"
    by (auto simp: internDict_def runs_simps)
  have f: "content s (fwdKey tag name) = r" using lookup_content [OF l assms(2)] .
  show ?thesis
  proof (cases r)
    case (Some v)
    with r f assms(2) show ?thesis by (auto simp: decodeU32_def Put_Uint split: if_splits)
  next
    case None
    with r obtain n s1 s2 where n: "runs (nextCounter T kind) s n s1" "n \<le> 0xFFFFFFFF"
      and s2: "runs (TSet T (fwdKey tag name) (PutUint32 (ucast n))) s1 () s2"
      and s': "runs (TSet T (revKey kind (ucast n)) name) s2 () s'" and i: "i = ucast n"
      by (auto simp: runs_simps Let_def not_less split: if_splits)
    note a = runs_nextCounter [OF n(1) assms(2)]
    note b = runs_TSet [OF s2 conjunct1 [OF a]]
    note c = runs_TSet [OF s' conjunct1 [OF b]]
    from a b c f None i n(2) show ?thesis by simp
  qed
qed

end

section \<open>Dictionaries are bijections\<close>

text \<open>The forward and the reverse table of a dictionary are inverse to each other, and no identifier
  is zero or beyond the counter, which fits 32 bits.\<close>

definition dict_ok :: "(bytes \<rightharpoonup> bytes) \<Rightarrow> byte \<Rightarrow> byte \<Rightarrow> bool" where
  "dict_ok m tag kind \<longleftrightarrow>
     counter_ok m kind \<and> counter m kind \<le> 0xFFFFFFFF \<and>
     (\<forall>name v. m (fwdKey tag name) = Some v \<longrightarrow>
        (\<exists>i. v = PutUint32 i \<and> i \<noteq> 0 \<and> ucast i \<le> counter m kind \<and> m (revKey kind i) = Some name)) \<and>
     (\<forall>i name. m (revKey kind i) = Some name \<longrightarrow> m (fwdKey tag name) = Some (PutUint32 i))"

definition dicts_ok :: "(bytes \<rightharpoonup> bytes) \<Rightarrow> bool" where
  "dicts_ok m \<longleftrightarrow> dict_ok m tagLabelFwd kindLabel \<and> dict_ok m tagTypeFwd kindType \<and> dict_ok m tagKeyFwd kindKey"

definition intern_content :: "(bytes \<rightharpoonup> bytes) \<Rightarrow> byte \<Rightarrow> byte \<Rightarrow> bytes \<Rightarrow> u32 \<Rightarrow> bytes \<rightharpoonup> bytes" where
  "intern_content m tag kind name i =
     m(counterKey kind \<mapsto> PutUint64 (counter m kind + 1), fwdKey tag name \<mapsto> PutUint32 i, revKey kind i \<mapsto> name)"

lemma dict_ok_fwd:
  assumes "dict_ok m tag kind" "m (fwdKey tag name) = Some (PutUint32 i)"
  shows "i \<noteq> 0" "ucast i \<le> counter m kind" "m (revKey kind i) = Some name"
  using assms unfolding dict_ok_def by (metis Put_inject(1))+

lemma ucast_u64_u32: "(n :: u64) \<le> 0xFFFFFFFF \<Longrightarrow> ucast (ucast n :: u32) = n"
  by (simp add: word_le_def word_uint_eq_iff unsigned_ucast_eq unsigned_take_bit_eq take_bit_int_eq_self_iff)

lemma succ_word: "(c :: 'a::len word) \<noteq> - 1 \<Longrightarrow> c < c + 1 \<and> c + 1 \<noteq> 0"
  using add_eq_0_iff [of 1 c] inc_i [of c "c + 1"] by (auto simp: add.commute word_less_nat_alt unatSuc)

lemma dict_ok_intern:
  assumes "dict_ok m tag kind" and "m (fwdKey tag name) = None"
    and c: "counter m kind + 1 \<le> 0xFFFFFFFF"
    and i: "i = ucast (counter m kind + 1)" and t: "tag \<noteq> 0x52" "tag \<noteq> 0x63"
  shows "dict_ok (intern_content m tag kind name i) tag kind" "i \<noteq> 0"
proof -
  let ?c = "counter m kind"
  have "\<not> (- 1 :: u64) \<le> 0xFFFFFFFF" by code_simp
  then have "?c \<noteq> - 1" using assms(1) by (auto simp: dict_ok_def)
  note succ = succ_word [OF this]
  have ui: "ucast i = ?c + 1" using ucast_u64_u32 [OF c] i by simp
  then show nz: "i \<noteq> 0" using succ by auto
  have lt: "?c < ?c + 1" using succ by simp
  have fresh: "m (revKey kind i) = None"
  proof (rule ccontr)
    assume "m (revKey kind i) \<noteq> None"
    then obtain nm where "m (fwdKey tag nm) = Some (PutUint32 i)" using assms(1) unfolding dict_ok_def by blast
    then have "ucast i \<le> ?c" using assms(1) by (fastforce simp: dict_ok_def)
    with ui lt show False by simp
  qed
  have le: "ucast j \<le> ?c + 1" if "ucast (j :: u32) \<le> ?c" for j using that lt by simp
  have old: "\<exists>j. v = PutUint32 j \<and> j \<noteq> 0 \<and> ucast j \<le> ?c + 1 \<and> j \<noteq> i \<and> m (revKey kind j) = Some nm"
    if "m (fwdKey tag nm) = Some v" for nm v
  proof -
    from that assms(1) obtain j where "v = PutUint32 j" "j \<noteq> 0" "ucast j \<le> ?c" "m (revKey kind j) = Some nm"
      unfolding dict_ok_def by blast
    with fresh le show ?thesis by auto
  qed
  show "dict_ok (intern_content m tag kind name i) tag kind"
    unfolding dict_ok_def
  proof (intro conjI allI impI)
    show "counter_ok (intern_content m tag kind name i) kind"
      using t by (simp add: counter_ok_def intern_content_def key_simps)
    show "counter (intern_content m tag kind name i) kind \<le> 0xFFFFFFFF"
      using t c by (simp add: intern_content_def counter_other)
  next
    fix nm v
    assume "intern_content m tag kind name i (fwdKey tag nm) = Some v"
    then show "\<exists>j. v = PutUint32 j \<and> j \<noteq> 0 \<and> ucast j \<le> counter (intern_content m tag kind name i) kind \<and>
        intern_content m tag kind name i (revKey kind j) = Some nm"
      using t nz ui old [of nm v]
      by (cases "nm = name") (auto simp: intern_content_def counter_other key_simps)
  next
    fix j nm
    assume "intern_content m tag kind name i (revKey kind j) = Some nm"
    then show "intern_content m tag kind name i (fwdKey tag nm) = Some (PutUint32 j)"
      using t assms(1,2) by (auto simp: intern_content_def dict_ok_def key_simps split: if_splits)
  qed
qed

lemma dict_ok_other:
  assumes "dict_ok m tag kind" and "tag' \<noteq> tag" "kind' \<noteq> kind" "tag' \<notin> {0x52, 0x63}" "tag \<notin> {0x52, 0x63}"
  shows "dict_ok (intern_content m tag' kind' name i) tag kind"
  using assms by (auto simp: dict_ok_def intern_content_def counter_other counter_ok_def key_simps)

text \<open>The three dictionaries of the catalogue, by forward tag and kind.\<close>

definition is_dict :: "byte \<Rightarrow> byte \<Rightarrow> bool" where
  "is_dict tag kind \<longleftrightarrow> (tag, kind) \<in> {(tagLabelFwd, kindLabel), (tagTypeFwd, kindType), (tagKeyFwd, kindKey)}"

lemma dicts_ok_intern:
  assumes "dicts_ok m" "is_dict tag kind" "m (fwdKey tag name) = None"
    "counter m kind + 1 \<le> 0xFFFFFFFF" "i = ucast (counter m kind + 1)"
  shows "dicts_ok (intern_content m tag kind name i)"
proof -
  have step: "dict_ok (intern_content m tag kind name i) tag' kind'" if "dict_ok m tag' kind'" "is_dict tag' kind'" for tag' kind'
  proof (cases "tag' = tag")
    case True
    then have "kind' = kind" using that assms(2) by (auto simp: is_dict_def)
    then show ?thesis using that assms True dict_ok_intern(1) [of m tag kind name i] by (auto simp: is_dict_def)
  next
    case False
    then show ?thesis using that assms(2) by (intro dict_ok_other) (auto simp: is_dict_def)
  qed
  show ?thesis using assms(1) unfolding dicts_ok_def by (auto intro!: step simp: is_dict_def)
qed

text \<open>What interning a name gives, under either contract.\<close>

definition interned :: "(bytes \<rightharpoonup> bytes) \<Rightarrow> byte \<Rightarrow> byte \<Rightarrow> bytes \<Rightarrow> u32 \<Rightarrow> (bytes \<rightharpoonup> bytes) \<Rightarrow> bool" where
  "interned m tag kind name i m' \<longleftrightarrow>
     dicts_ok m' \<and> i \<noteq> 0 \<and> m' (fwdKey tag name) = Some (PutUint32 i) \<and> m' (revKey kind i) = Some name \<and>
     (\<forall>tag name j. is_dict tag kind \<longrightarrow> m (fwdKey tag name) = Some (PutUint32 j) \<longrightarrow> m' (fwdKey tag name) = Some (PutUint32 j)) \<and>
     (\<forall>k. hd k \<notin> {tag, 0x52, 0x63} \<longrightarrow> m' k = m k)"

context txn_store
begin

lemma internDict_interned:
  assumes "runs (internDict T tag kind name) s i s'" "usable s" "dicts_ok (content s)" "is_dict tag kind"
  shows "usable s' \<and> interned (content s) tag kind name i (content s')"
proof -
  have t: "tag \<noteq> 0x52" "tag \<noteq> 0x63" using assms(4) by (auto simp: is_dict_def)
  have d: "dict_ok (content s) tag kind" using assms(3,4) by (auto simp: dicts_ok_def is_dict_def)
  from runs_internDict [OF assms(1,2)] show ?thesis
  proof (elim conjE disjE)
    assume "content s (fwdKey tag name) = Some (PutUint32 i)" "s' = s"
    then show ?thesis using dict_ok_fwd [OF d] assms(2,3) by (auto simp: interned_def)
  next
    assume n: "content s (fwdKey tag name) = None" and c: "counter (content s) kind + 1 \<le> 0xFFFFFFFF"
      "i = ucast (counter (content s) kind + 1)" and u: "usable s'"
      "content s' = (content s)(counterKey kind \<mapsto> PutUint64 (counter (content s) kind + 1),
         fwdKey tag name \<mapsto> PutUint32 i, revKey kind i \<mapsto> name)"
    then have m': "content s' = intern_content (content s) tag kind name i" by (simp add: intern_content_def)
    have "dicts_ok (content s')" "i \<noteq> 0"
      unfolding m' using dicts_ok_intern [OF assms(3,4) n c]
        dict_ok_intern(2) [OF d n c t] by auto
    then show ?thesis using u n t m'
      by (auto simp: interned_def intern_content_def is_dict_def key_simps)
  qed
qed

end

section \<open>Operations that cannot fail\<close>

lemma dict_ok_value: "dict_ok m tag kind \<Longrightarrow> m (fwdKey tag name) = Some v \<Longrightarrow> \<exists>i. v = PutUint32 i"
  unfolding dict_ok_def by blast

context reliable_txn
begin

lemma lookup_total: "usable s \<Longrightarrow> lookup T s k = Inr (content s k)"
  by (simp add: lookup_def get_total split: option.splits)

lemma TSet_total:
  assumes "writable s" "k \<noteq> []"
  shows "\<exists>s'. runs (TSet T k v) s () s' \<and> writable s'"
  using set_total [OF assms] by (auto simp: runs_def)

lemma nextCounter_total:
  assumes "writable s" "counter_ok (content s) kind"
  shows "\<exists>s'. runs (nextCounter T kind) s (counter (content s) kind + 1) s' \<and> writable s'"
proof -
  obtain s' where "runs (TSet T (counterKey kind) (PutUint64 (counter (content s) kind + 1))) s () s'" "writable s'"
    using TSet_total [OF assms(1) catalog_key_not_Nil(3)] by blast
  moreover have "(case content s (counterKey kind) of Some v \<Rightarrow> decodeU64 v | None \<Rightarrow> Inr 0) = Inr (counter (content s) kind)"
    using assms(2) by (auto simp: counter_ok_def counter_def decodeU64_def split: option.splits)
  ultimately show ?thesis
    using assms(1) by (auto simp: nextCounter_def runs_simps lookup_total writable_usable Let_def)
qed

lemma internDict_total:
  assumes w: "writable s" and d: "dict_ok (content s) tag kind" and c: "counter (content s) kind < 0xFFFFFFFF"
  shows "\<exists>i s'. runs (internDict T tag kind name) s i s' \<and> writable s'"
proof (cases "content s (fwdKey tag name)")
  case (Some v)
  then obtain i where "v = PutUint32 i" using d unfolding dict_ok_def by blast
  with Some w show ?thesis
    by (auto simp: internDict_def runs_simps lookup_total writable_usable decodeU32_def)
next
  case None
  let ?n = "counter (content s) kind + 1"
  have n: "\<not> 0xFFFFFFFF < ?n" using c inc_le by (metis not_less)
  obtain s1 where s1: "runs (nextCounter T kind) s ?n s1" "writable s1"
    using nextCounter_total w d unfolding dict_ok_def by blast
  obtain s2 where s2: "runs (TSet T (fwdKey tag name) (PutUint32 (ucast ?n))) s1 () s2" "writable s2"
    using TSet_total [OF s1(2) catalog_key_not_Nil(1)] by blast
  obtain s3 where s3: "runs (TSet T (revKey kind (ucast ?n)) name) s2 () s3" "writable s3"
    using TSet_total [OF s2(2) catalog_key_not_Nil(2)] by blast
  have "runs (internDict T tag kind name) s (ucast ?n) s3"
    using None w n s1(1) s2(1) s3(1)
    by (auto simp: internDict_def runs_simps lookup_total writable_usable Let_def)
  with s3(2) show ?thesis by blast
qed

lemma lookupDict_total:
  "usable s \<Longrightarrow> dict_ok (content s) tag kind \<Longrightarrow>
     lookupDict T tag name s = Inr (i, True) \<longleftrightarrow> content s (fwdKey tag name) = Some (PutUint32 i)"
  using dict_ok_value [of "content s" tag kind name]
  by (auto simp: lookupDict_def lookup_total decodeU32_def split: option.splits)

end

section \<open>Properties\<close>

text \<open>
  C36. Interning is a bijection that only grows. On an engine that does not fail, interning a name
  succeeds and returns an identifier that is not zero; from then on the name resolves to that
  identifier, the identifier to that name, interning again returns the same and changes
  nothing, and every name that was known keeps its identifier. The tables of the three
  dictionaries stay inverse to each other.
\<close>

theorem intern_roundtrip:
  assumes "reliable_txn T content usable writable" and "writable s" and "dicts_ok (content s)"
    and "is_dict tag kind" and "counter (content s) kind < 0xFFFFFFFF"
  shows "\<exists>i s'. internDict T tag kind name s = (Inr i, s') \<and> i \<noteq> 0 \<and> writable s' \<and> dicts_ok (content s') \<and>
    lookupDict T tag name s' = Inr (i, True) \<and> revName T kind i s' = Inr name \<and>
    internDict T tag kind name s' = (Inr i, s') \<and>
    (\<forall>name' j. lookupDict T tag name' s = Inr (j, True) \<longrightarrow> lookupDict T tag name' s' = Inr (j, True))"
proof -
  note R = assms(1)
  note S = reliable_txn.axioms(1) [OF R]
  have d: "dict_ok (content s) tag kind" using assms(3,4) by (auto simp: dicts_ok_def is_dict_def)
  obtain i s' where r: "runs (internDict T tag kind name) s i s'" and w: "writable s'"
    using reliable_txn.internDict_total [OF R assms(2) d assms(5)] by blast
  have u: "usable s" "usable s'" using reliable_txn.writable_usable [OF R] assms(2) w by auto
  have i: "interned (content s) tag kind name i (content s')"
    using txn_store.internDict_interned [OF S r u(1) assms(3,4)] by simp
  then have d': "dict_ok (content s') tag kind" using assms(4) by (auto simp: interned_def dicts_ok_def is_dict_def)
  note L = reliable_txn.lookupDict_total [OF R]
  have "internDict T tag kind name s' = (Inr i, s')"
    using i by (simp add: internDict_def bnd_def reads_def liftR_def interned_def decodeU32_def reliable_txn.lookup_total [OF R u(2)])
  moreover have "revName T kind i s' = Inr name"
    using i by (simp add: revName_def interned_def reliable_txn.get_total [OF R u(2)])
  ultimately show ?thesis
    using r w i L [OF u(2) d'] L [OF u(1) d] assms(4) unfolding runs_def interned_def by blast
qed

abbreviation mem_txn :: "(bytes, bytes) fmap \<Rightarrow> (bytes, bytes) fmap txn" where
  "mem_txn db \<equiv> \<lparr>bkt = db, pending = Some [], tclosed = False\<rparr>"

lemma mem_writable [simp]: "bolt_writable (mem_txn db)"
  by (simp add: bolt_writable_def bolt_wf_def pend_list_def)

lemma mem_content [simp]: "bolt_content memBucket (mem_txn db) = fmlookup db"
  by (auto simp: bolt_content_def overlay_def pend_list_def memBucket_def)

lemma dicts_ok_empty [simp]: "dicts_ok (fmlookup fmempty)"
  by (simp add: dicts_ok_def dict_ok_def counter_ok_def counter_def)

theorem intern_roundtrip_witness:
  "\<exists>i s'. internDict (boltTxn memBucket) tagLabelFwd kindLabel (str ''Person'') (mem_txn fmempty) = (Inr i, s') \<and>
     i \<noteq> 0 \<and> revName (boltTxn memBucket) kindLabel i s' = Inr (str ''Person'')"
  using intern_roundtrip [OF mem.bolt.reliable_txn_axioms, of "mem_txn fmempty" tagLabelFwd kindLabel "str ''Person''"]
  by (auto simp: is_dict_def counter_def)

text \<open>
  C37. The format marker gates the database, in every state of it. Without a marker \<^verbatim>\<open>EnsureFormat\<close> writes the base
  version. With one it changes nothing: it refuses a marker that is not four bytes long and a version that this
  build does not read, and accepts the others. \<^verbatim>\<open>requireFormat\<close> raises a marker of four bytes to the larger of the two
  versions, so that it never goes down, and writes the required version when the marker is missing or malformed.
\<close>

theorem format_marker:
  assumes "reliable_txn T content usable writable" and "writable s"
  shows "(case content s formatKey of
      None \<Rightarrow> \<exists>s'. EnsureFormat T s = (Inr (), s') \<and> content s' = (content s)(formatKey \<mapsto> PutUint32 formatVersion)
    | Some cur \<Rightarrow> EnsureFormat T s =
        (if length cur \<noteq> 4 then Inl (ErrMalformedFormat (length cur))
         else if Uint32 cur < formatVersion \<or> maxFormat < Uint32 cur then Inl (ErrFormatVersion (Uint32 cur)) else Inr (), s)) \<and>
    (\<exists>s'. requireFormat T v s = (Inr (), s') \<and>
       content s' = (content s)(formatKey \<mapsto> PutUint32
         (case content s formatKey of None \<Rightarrow> v | Some cur \<Rightarrow> if length cur = 4 then max (Uint32 cur) v else v)))"
proof -
  note S = reliable_txn.axioms(1) [OF assms(1)]
  have u: "usable s" using reliable_txn.writable_usable [OF assms(1,2)] .
  have l: "lookup T s formatKey = Inr (content s formatKey)" using reliable_txn.lookup_total [OF assms(1) u] .
  have w: "\<exists>s'. TSet T formatKey x s = (Inr (), s') \<and> content s' = (content s)(formatKey \<mapsto> x)" for x
    using reliable_txn.set_total [OF assms(1,2) catalog_key_not_Nil(7), of x] txn_store.set_Inr [OF S u] by blast
  have k: "(content s)(formatKey \<mapsto> PutUint32 (Uint32 cur)) = content s" if "content s formatKey = Some cur" "length cur = 4" for cur
    using that by (simp add: Put_Uint fun_upd_idem)
  show ?thesis using l w [of "PutUint32 formatVersion"] w [of "PutUint32 v"]
    by (cases "content s formatKey")
      (auto simp: EnsureFormat_def requireFormat_def bnd_def reads_def throw_def ret_def max_def k)
qed

theorem format_marker_witness:
  "\<exists>s'. requireFormat (boltTxn memBucket) formatUnique (mem_txn (fmupd formatKey (PutUint32 3) fmempty)) = (Inr (), s') \<and>
     bolt_content memBucket s' formatKey = Some (PutUint32 3)"
  using format_marker [OF mem.bolt.reliable_txn_axioms, of "mem_txn (fmupd formatKey (PutUint32 3) fmempty)" formatUnique]
  by (auto simp: formatUnique_def max_def)

section \<open>Listings\<close>

text \<open>The registry keys have nine bytes, and a scan visits each once.\<close>

lemma registry_key:
  assumes "length k = 9" "prefix [t] k"
  shows "k = t # PutUint32 (Uint32 (take 4 (drop (Suc 0) k))) @ PutUint32 (Uint32 (drop 5 k))"
proof -
  obtain k' where k': "k = t # k'" using assms(2) by (cases k) auto
  have "take 4 k' @ drop 4 k' = k'" by simp
  with k' assms(1) show ?thesis by (simp add: Put_Uint eval_nat_numeral)
qed

definition listed :: "('d \<Rightarrow> bytes) \<Rightarrow> ('d \<Rightarrow> bytes \<Rightarrow> bool) \<Rightarrow> (bytes \<times> bytes result) list \<Rightarrow> 'd list \<Rightarrow> bool" where
  "listed key dec it ds \<longleftrightarrow> list_all2 (\<lambda>(k, r) d. k = key d \<and> (\<exists>v. r = Inr v \<and> dec d v)) it ds"

lemma listed_indexes:
  "list_indexes it = Inr ds \<Longrightarrow> \<forall>(k, r) \<in> set it. prefix [tagIndexReg] k \<Longrightarrow>
     listed (\<lambda>d. indexKey (ILabel d) (IPropKey d)) (\<lambda>d v. v = IName d) it ds"
  by (induction it arbitrary: ds rule: list_indexes.induct)
    (auto simp: listed_def bindR_Inr_iff indexKey_def split: if_splits intro: registry_key)

lemma listed_rel_indexes:
  "list_rel_indexes it = Inr ds \<Longrightarrow> \<forall>(k, r) \<in> set it. prefix [tagRelIndex] k \<Longrightarrow>
     listed (\<lambda>d. relIndexKey (RType d) (RPropKey d)) (\<lambda>d v. v = RName d) it ds"
  by (induction it arbitrary: ds rule: list_rel_indexes.induct)
    (auto simp: listed_def bindR_Inr_iff relIndexKey_def split: if_splits intro: registry_key)

lemma decodeConstraint_key:
  "decodeConstraint l p v = Inr d \<Longrightarrow> CLabel d = l \<and> CPropKey d = p"
  by (auto simp: decodeConstraint_def split: list.splits)

lemma listed_constraints:
  "list_constraints it = Inr ds \<Longrightarrow> \<forall>(k, r) \<in> set it. prefix [tagConstraint] k \<Longrightarrow>
     listed (\<lambda>d. constraintKey (CLabel d) (CPropKey d)) (\<lambda>d v. decodeConstraint (CLabel d) (CPropKey d) v = Inr d) it ds"
proof (induction it arbitrary: ds)
  case (Cons kr it)
  obtain k r where kr: "kr = (k, r)" by force
  with Cons.prems obtain v d ds' where k: "length k = 9" "prefix [tagConstraint] k" and r: "r = Inr v"
    and d: "decodeConstraint (Uint32 (take 4 (drop (Suc 0) k))) (Uint32 (drop 5 k)) v = Inr d"
    and ds': "list_constraints it = Inr ds'" "ds = d # ds'"
    by (auto simp: bindR_Inr_iff split: if_splits)
  have "k = constraintKey (CLabel d) (CPropKey d)"
    using registry_key [OF k] decodeConstraint_key [OF d] by (simp add: constraintKey_def)
  moreover have "decodeConstraint (CLabel d) (CPropKey d) v = Inr d"
    using d decodeConstraint_key [OF d] by simp
  ultimately show ?case using Cons.IH [OF ds'(1)] Cons.prems(2) by (simp add: kr r ds'(2) listed_def)
qed (simp add: listed_def)

context txn_store
begin

lemma scan_prefix: "usable s \<Longrightarrow> (k, r) \<in> set (TScan T s p) \<Longrightarrow> prefix p k \<and> content s k \<noteq> None"
  using scan_keys [of s p] by force

lemma listed_content:
  assumes "listed key dec (TScan T s p) ds" "usable s" "\<And>d. prefix p (key d)"
    and det: "\<And>d d' v. key d = key d' \<Longrightarrow> dec d v \<Longrightarrow> dec d' v \<Longrightarrow> d = d'"
  shows "set ds = {d. \<exists>v. content s (key d) = Some v \<and> dec d v}" "distinct ds"
proof -
  have keys: "map fst (TScan T s p) = map key ds"
    using assms(1) unfolding listed_def by (induction rule: list_all2_induct) auto
  have val: "\<exists>v. (key d, Inr v) \<in> set (TScan T s p) \<and> dec d v" if "d \<in> set ds" for d
    using assms(1) that unfolding listed_def by (induction rule: list_all2_induct) auto
  have "distinct (map key ds)"
    using scan_sorted [OF assms(2), of p] by (simp add: keys strict_sorted_iff)
  then show "distinct ds" by (simp add: distinct_map)
  show "set ds = {d. \<exists>v. content s (key d) = Some v \<and> dec d v}"
  proof (intro equalityI subsetI CollectI)
    fix d
    assume "d \<in> set ds"
    then show "\<exists>v. content s (key d) = Some v \<and> dec d v" using val scan_value [OF assms(2)] by blast
  next
    fix d
    assume "d \<in> {d. \<exists>v. content s (key d) = Some v \<and> dec d v}"
    then obtain v where v: "content s (key d) = Some v" "dec d v" by blast
    then have "key d \<in> set (map key ds)"
      using scan_keys [OF assms(2), of p] assms(3) by (simp flip: keys)
    then obtain d' where d': "d' \<in> set ds" "key d' = key d" by auto
    with val scan_value [OF assms(2)] v have "dec d' v" by fastforce
    with det [of d d' v] d' v show "d \<in> set ds" by simp
  qed
qed

lemma scan_all_prefix: "usable s \<Longrightarrow> \<forall>(k, r) \<in> set (TScan T s p). prefix p k"
  using scan_prefix by blast

lemma ListIndexes_content:
  assumes "ListIndexes T s = Inr ds" "usable s"
  shows "set ds = {d. content s (indexKey (ILabel d) (IPropKey d)) = Some (IName d)} \<and> distinct ds"
proof -
  have l: "listed (\<lambda>d. indexKey (ILabel d) (IPropKey d)) (\<lambda>d v. v = IName d) (TScan T s [tagIndexReg]) ds"
    using listed_indexes assms(1) scan_all_prefix [OF assms(2)] unfolding ListIndexes_def by blast
  show ?thesis using listed_content [OF l assms(2)] by (simp add: indexKey_def)
qed

lemma ListRelIndexes_content:
  assumes "ListRelIndexes T s = Inr ds" "usable s"
  shows "set ds = {d. content s (relIndexKey (RType d) (RPropKey d)) = Some (RName d)} \<and> distinct ds"
proof -
  have l: "listed (\<lambda>d. relIndexKey (RType d) (RPropKey d)) (\<lambda>d v. v = RName d) (TScan T s [tagRelIndex]) ds"
    using listed_rel_indexes assms(1) scan_all_prefix [OF assms(2)] unfolding ListRelIndexes_def by blast
  show ?thesis using listed_content [OF l assms(2)] by (simp add: relIndexKey_def)
qed

lemma ListConstraints_content:
  assumes "ListConstraints T s = Inr ds" "usable s"
  shows "set ds = {d. \<exists>v. content s (constraintKey (CLabel d) (CPropKey d)) = Some v \<and>
    decodeConstraint (CLabel d) (CPropKey d) v = Inr d} \<and> distinct ds"
proof -
  have l: "listed (\<lambda>d. constraintKey (CLabel d) (CPropKey d)) (\<lambda>d v. decodeConstraint (CLabel d) (CPropKey d) v = Inr d)
      (TScan T s [tagConstraint]) ds"
    using listed_constraints assms(1) scan_all_prefix [OF assms(2)] unfolding ListConstraints_def by blast
  have p: "prefix [tagConstraint] (constraintKey (CLabel d) (CPropKey d))" for d by (simp add: constraintKey_def)
  have det: "d = d'" if "constraintKey (CLabel d) (CPropKey d) = constraintKey (CLabel d') (CPropKey d')"
    "decodeConstraint (CLabel d) (CPropKey d) v = Inr d" "decodeConstraint (CLabel d') (CPropKey d') v = Inr d'" for d d' v
    using that(2) unfolding catalog_key_inject(5) [THEN iffD1, OF that(1), THEN conjunct1]
      catalog_key_inject(5) [THEN iffD1, OF that(1), THEN conjunct2] that(3) by simp
  show ?thesis using listed_content [OF l assms(2) p] det by blast
qed

end

text \<open>
  C38. The listings are exact: \<^verbatim>\<open>ListIndexes\<close>, \<^verbatim>\<open>ListConstraints\<close> and \<^verbatim>\<open>ListRelIndexes\<close> return every
  registered definition exactly once and nothing else.
\<close>

theorem registry_listing:
  assumes "txn_store T content usable" and "usable s"
    and "ListIndexes T s = Inr ds" and "ListConstraints T s = Inr cs" and "ListRelIndexes T s = Inr rs"
  shows "set ds = {d. content s (indexKey (ILabel d) (IPropKey d)) = Some (IName d)} \<and> distinct ds \<and>
    set cs = {c. \<exists>v. content s (constraintKey (CLabel c) (CPropKey c)) = Some v \<and>
      decodeConstraint (CLabel c) (CPropKey c) v = Inr c} \<and> distinct cs \<and>
    set rs = {r. content s (relIndexKey (RType r) (RPropKey r)) = Some (RName r)} \<and> distinct rs"
  using txn_store.ListIndexes_content [OF assms(1,3,2)] txn_store.ListConstraints_content [OF assms(1,4,2)]
    txn_store.ListRelIndexes_content [OF assms(1,5,2)] by blast

theorem registry_listing_witness:
  "let s = (mem_txn fmempty) \<lparr>pending := Some [(indexKey 1 2, Some [3]), (constraintKey 1 4, Some [1, 5])]\<rparr> in
     {d. bolt_content memBucket s (indexKey (ILabel d) (IPropKey d)) = Some (IName d)}
       = {\<lparr>ILabel = 1, IPropKey = 2, IName = [3]\<rparr>}"
proof -
  let ?s = "(mem_txn fmempty) \<lparr>pending := Some [(indexKey 1 2, Some [3]), (constraintKey 1 4, Some [1, 5])]\<rparr>"
  have w: "bolt_wf ?s" by code_simp
  have i: "ListIndexes (boltTxn memBucket) ?s = Inr [\<lparr>ILabel = 1, IPropKey = 2, IName = [3]\<rparr>]" by code_simp
  have c: "ListConstraints (boltTxn memBucket) ?s = Inr [\<lparr>CLabel = 1, CPropKey = 4, CName = [5], OwnsIndex = True\<rparr>]" by code_simp
  have r: "ListRelIndexes (boltTxn memBucket) ?s = Inr []" by code_simp
  show ?thesis using registry_listing [OF mem.bolt.txn_store_axioms w i c r] by (simp add: Let_def)
qed

end
