(* ===== verification/Graph_Model.thy ===== *)
theory Graph_Model
  imports Catalog
begin

text \<open>
  The operations of \<^verbatim>\<open>internal/graph\<close>: records and their reads (\<^verbatim>\<open>model.go\<close>, \<^verbatim>\<open>crud.go\<close>), index
  entries and unique constraints (\<^verbatim>\<open>unique.go\<close>), relationship indexes (\<^verbatim>\<open>relindex.go\<close>) and scans
  (\<^verbatim>\<open>traversal.go\<close>), over any transaction. A Go map is the list of its entries in the order in
  which the code ranges over it, with distinct keys.
\<close>

section \<open>model.go\<close>

record Node =
  NID :: u64
  NRec :: NodeRecord

record Edge =
  EID :: u64
  ERec :: EdgeRecord

record EdgeRef =
  RefID :: u64
  RefType :: u32
  RefSrc :: u64
  RefDst :: u64

section \<open>Reading records and keys\<close>

definition GetNode :: "'s Txn \<Rightarrow> u64 \<Rightarrow> 's \<Rightarrow> Node result" where
  "GetNode T i s =
     bindR (lookup T s (NodeKey i)) (\<lambda>r.
       case r of
         None \<Rightarrow> Inl ErrNodeNotFound
       | Some v \<Rightarrow> bindR (wrapR (DecodeNode v)) (\<lambda>rec. Inr \<lparr>NID = i, NRec = rec\<rparr>))"

definition GetEdge :: "'s Txn \<Rightarrow> u64 \<Rightarrow> 's \<Rightarrow> Edge result" where
  "GetEdge T i s =
     bindR (lookup T s (EdgeKey i)) (\<lambda>r.
       case r of
         None \<Rightarrow> Inl ErrEdgeNotFound
       | Some v \<Rightarrow> bindR (wrapR (DecodeEdge v)) (\<lambda>rec. Inr \<lparr>EID = i, ERec = rec\<rparr>))"

text \<open>The loop over an iterator that parses every key and stops at the first that is malformed.\<close>

fun parse_keys :: "(bytes \<Rightarrow> 'a result) \<Rightarrow> bytes list \<Rightarrow> 'a list result" where
  "parse_keys f [] = Inr []"
| "parse_keys f (k # ks) = bindR (f k) (\<lambda>x. bindR (parse_keys f ks) (\<lambda>xs. Inr (x # xs)))"

definition scan_parse :: "'s Txn \<Rightarrow> bytes \<Rightarrow> (bytes \<Rightarrow> 'a result) \<Rightarrow> 's \<Rightarrow> 'a list result" where
  "scan_parse T p f s = parse_keys f (map fst (TScan T s p))"

definition AllNodes :: "'s Txn \<Rightarrow> 's \<Rightarrow> u64 list result" where
  "AllNodes T = scan_parse T NodePrefix NodeIDFromKey"

definition NodesByLabel :: "'s Txn \<Rightarrow> u32 \<Rightarrow> 's \<Rightarrow> u64 list result" where
  "NodesByLabel T labelID =
     scan_parse T (LabelPrefix labelID) (\<lambda>k. bindR (ParseLabelKey k) (\<lambda>(_, node). Inr node))"

definition OutEdges :: "'s Txn \<Rightarrow> u64 \<Rightarrow> u32 \<Rightarrow> 's \<Rightarrow> EdgeRef list result" where
  "OutEdges T nodeID typeID =
     scan_parse T (if typeID \<noteq> 0 then OutPrefix nodeID typeID else OutPrefixAll nodeID)
       (\<lambda>k. bindR (ParseOutKey k) (\<lambda>(src, typ, dst, edge).
          Inr \<lparr>RefID = edge, RefType = typ, RefSrc = src, RefDst = dst\<rparr>))"

definition InEdges :: "'s Txn \<Rightarrow> u64 \<Rightarrow> u32 \<Rightarrow> 's \<Rightarrow> EdgeRef list result" where
  "InEdges T nodeID typeID =
     scan_parse T (if typeID \<noteq> 0 then InPrefix nodeID typeID else InPrefixAll nodeID)
       (\<lambda>k. bindR (ParseInKey k) (\<lambda>(dst, typ, src, edge).
          Inr \<lparr>RefID = edge, RefType = typ, RefSrc = src, RefDst = dst\<rparr>))"

section \<open>unique.go\<close>

text \<open>\<open>None\<close> is the result \<^verbatim>\<open>nil, false\<close>.\<close>

definition uniqueValue :: "val \<Rightarrow> val option" where
  "uniqueValue value =
     (case value of
        VFloat f \<Rightarrow>
          (if f_isNaN f then None
           else if f_integral f \<and> - (2 ^ 63) * f_unit \<le> f_num f \<and> f_num f < 2 ^ 63 * f_unit
             then Some (VInt (int64_of_float f))
           else Some (VFloat f))
      | _ \<Rightarrow> Some value)"

definition valueOwner :: "'s Txn \<Rightarrow> bytes \<Rightarrow> 's \<Rightarrow> u64 option result" where
  "valueOwner T uk s =
     bindR (lookup T s uk) (\<lambda>r.
       case r of
         None \<Rightarrow> Inr None
       | Some v \<Rightarrow> if length v \<noteq> 8 then Inl (ErrMalformedOwner (length v)) else Inr (Some (Uint64 v)))"

definition violation :: "'s Txn \<Rightarrow> u32 \<Rightarrow> u32 \<Rightarrow> ('s, unit) act" where
  "violation T label propKey =
     bnd (reads (LabelName T label)) (\<lambda>l.
     bnd (reads (KeyName T propKey)) (\<lambda>k.
     throw (ErrConstraintViolation l k)))"

definition claimValue :: "'s Txn \<Rightarrow> u32 \<Rightarrow> u32 \<Rightarrow> val \<Rightarrow> u64 \<Rightarrow> ('s, unit) act" where
  "claimValue T label propKey value nodeID =
     (case uniqueValue value of
        None \<Rightarrow> ret ()
      | Some c \<Rightarrow>
          bnd (liftR (UniqueKey label propKey c)) (\<lambda>uk.
          bnd (reads (valueOwner T uk)) (\<lambda>owner.
            case owner of
              Some w \<Rightarrow> if w \<noteq> nodeID then violation T label propKey else ret ()
            | None \<Rightarrow> TSet T uk (PutUint64 nodeID))))"

definition putPropEntry :: "'s Txn \<Rightarrow> u32 \<Rightarrow> u32 \<Rightarrow> val \<Rightarrow> u64 \<Rightarrow> ('s, unit) act" where
  "putPropEntry T label propKey value nodeID =
     (if \<not> IsIndexable value then ret ()
      else
        bnd (reads (HasIndex T label propKey)) (\<lambda>has.
        if \<not> has then ret ()
        else
          bnd (liftR (PropKey label propKey value nodeID)) (\<lambda>pk.
          seqA (TSet T pk [])
         (bnd (reads (HasUnique T label propKey)) (\<lambda>unique.
          if \<not> unique then ret ()
          else claimValue T label propKey value nodeID)))))"

definition delPropEntry :: "'s Txn \<Rightarrow> u32 \<Rightarrow> u32 \<Rightarrow> val \<Rightarrow> u64 \<Rightarrow> ('s, unit) act" where
  "delPropEntry T label propKey value nodeID =
     (if \<not> IsIndexable value then ret ()
      else
        bnd (reads (HasIndex T label propKey)) (\<lambda>has.
        if \<not> has then ret ()
        else
          bnd (liftR (PropKey label propKey value nodeID)) (\<lambda>pk.
          seqA (TDelete T pk)
         (bnd (reads (HasUnique T label propKey)) (\<lambda>unique.
          if \<not> unique then ret ()
          else
            (case uniqueValue value of
               None \<Rightarrow> ret ()
             | Some c \<Rightarrow>
                 bnd (liftR (UniqueKey label propKey c)) (\<lambda>uk.
                 bnd (reads (valueOwner T uk)) (\<lambda>owner.
                 if owner \<noteq> Some nodeID then ret () else TDelete T uk))))))))"

definition forEachLabelValue :: "'s Txn \<Rightarrow> u32 \<Rightarrow> u32 \<Rightarrow> (u64 \<Rightarrow> val \<Rightarrow> ('s, unit) act) \<Rightarrow> ('s, unit) act" where
  "forEachLabelValue T label propKey fn =
     bnd (reads (NodesByLabel T label)) (\<lambda>nodeIDs.
     each (\<lambda>i.
       bnd (reads (GetNode T i)) (\<lambda>node.
         case map_of (Props (NRec node)) propKey of
           None \<Rightarrow> ret ()
         | Some v \<Rightarrow> if \<not> IsIndexable v then ret () else fn i v)) nodeIDs)"

definition deletePrefix :: "'s Txn \<Rightarrow> bytes \<Rightarrow> ('s, unit) act" where
  "deletePrefix T p =
     bnd (reads (\<lambda>s. Inr (map fst (TScan T s p)))) (each (TDelete T))"

definition BuildIndex :: "'s Txn \<Rightarrow> u32 \<Rightarrow> u32 \<Rightarrow> bytes \<Rightarrow> ('s, unit) act" where
  "BuildIndex T label propKey name =
     seqA (AddNamedIndex T label propKey name)
       (forEachLabelValue T label propKey (\<lambda>nodeID v.
          bnd (liftR (PropKey label propKey v nodeID)) (\<lambda>pk. TSet T pk [])))"

definition DropIndexEntries :: "'s Txn \<Rightarrow> u32 \<Rightarrow> u32 \<Rightarrow> ('s, unit) act" where
  "DropIndexEntries T labelID keyID =
     seqA (deletePrefix T (PropIndexPrefix labelID keyID)) (RemoveIndex T labelID keyID)"

definition AddUniqueConstraint :: "'s Txn \<Rightarrow> u32 \<Rightarrow> u32 \<Rightarrow> bytes \<Rightarrow> ('s, unit) act" where
  "AddUniqueConstraint T label propKey name =
     bnd (reads (HasIndex T label propKey)) (\<lambda>hasIndex.
     seqA (if \<not> hasIndex then BuildIndex T label propKey [] else ret ())
    (seqA (RequireUniqueFormat T)
    (seqA (AddConstraint T \<lparr>CLabel = label, CPropKey = propKey, CName = name, OwnsIndex = \<not> hasIndex\<rparr>)
    (forEachLabelValue T label propKey (\<lambda>nodeID v. claimValue T label propKey v nodeID)))))"

definition DropUniqueConstraint :: "'s Txn \<Rightarrow> u32 \<Rightarrow> u32 \<Rightarrow> ('s, unit) act" where
  "DropUniqueConstraint T label propKey =
     bnd (reads (GetConstraint T label propKey)) (\<lambda>r.
       case r of
         None \<Rightarrow> ret ()
       | Some d \<Rightarrow>
           seqA (deletePrefix T (UniquePrefix label propKey))
          (seqA (RemoveConstraint T label propKey)
          (if OwnsIndex d then DropIndexEntries T label propKey else ret ())))"

section \<open>relindex.go\<close>

definition putRelPropEntry :: "'s Txn \<Rightarrow> u32 \<Rightarrow> u32 \<Rightarrow> val \<Rightarrow> u64 \<Rightarrow> ('s, unit) act" where
  "putRelPropEntry T typeID propKey value edge =
     (if \<not> IsIndexable value then ret ()
      else
        bnd (reads (HasRelIndex T typeID propKey)) (\<lambda>has.
        if \<not> has then ret ()
        else bnd (liftR (RelPropKey typeID propKey value edge)) (\<lambda>k. TSet T k [])))"

definition delRelPropEntry :: "'s Txn \<Rightarrow> u32 \<Rightarrow> u32 \<Rightarrow> val \<Rightarrow> u64 \<Rightarrow> ('s, unit) act" where
  "delRelPropEntry T typeID propKey value edge =
     (if \<not> IsIndexable value then ret ()
      else
        bnd (reads (HasRelIndex T typeID propKey)) (\<lambda>has.
        if \<not> has then ret ()
        else bnd (liftR (RelPropKey typeID propKey value edge)) (\<lambda>k. TDelete T k)))"

fun edges_of_type :: "u32 \<Rightarrow> (bytes \<times> bytes result) list \<Rightarrow> Edge list result" where
  "edges_of_type typeID [] = Inr []"
| "edges_of_type typeID ((k, r) # it) =
     bindR r (\<lambda>v.
     bindR (DecodeEdge v) (\<lambda>rec.
     if EType rec = typeID then
       bindR (EdgeIDFromKey k) (\<lambda>i.
       bindR (edges_of_type typeID it) (\<lambda>es. Inr (\<lparr>EID = i, ERec = rec\<rparr> # es)))
     else edges_of_type typeID it))"

definition ScanEdgesOfType :: "'s Txn \<Rightarrow> u32 \<Rightarrow> (Edge \<Rightarrow> ('s, unit) act) \<Rightarrow> ('s, unit) act" where
  "ScanEdgesOfType T typeID fn =
     bnd (reads (\<lambda>s. edges_of_type typeID (TScan T s EdgePrefix))) (each fn)"

definition BuildRelIndex :: "'s Txn \<Rightarrow> u32 \<Rightarrow> u32 \<Rightarrow> bytes \<Rightarrow> ('s, unit) act" where
  "BuildRelIndex T typeID propKey name =
     seqA (RequireRelIndexFormat T)
    (seqA (AddRelIndex T typeID propKey name)
    (ScanEdgesOfType T typeID (\<lambda>e.
       case map_of (EProps (ERec e)) propKey of
         None \<Rightarrow> ret ()
       | Some v \<Rightarrow>
           if \<not> IsIndexable v then ret ()
           else bnd (liftR (RelPropKey typeID propKey v (EID e))) (\<lambda>k. TSet T k []))))"

definition DropRelIndexEntries :: "'s Txn \<Rightarrow> u32 \<Rightarrow> u32 \<Rightarrow> ('s, unit) act" where
  "DropRelIndexEntries T typeID propKey =
     seqA (deletePrefix T (RelPropIndexPrefix typeID propKey)) (RemoveRelIndex T typeID propKey)"

text \<open>The closure that \<^verbatim>\<open>edgesByScan\<close> passes to \<^verbatim>\<open>ScanEdgesOfType\<close> only collects, so the scan is read here
  as the list of its edges.\<close>

definition edgesByScan :: "'s Txn \<Rightarrow> u32 \<Rightarrow> u32 \<Rightarrow> val \<Rightarrow> 's \<Rightarrow> u64 list result" where
  "edgesByScan T typeID propKey value s =
     bindR (edges_of_type typeID (TScan T s EdgePrefix)) (\<lambda>es.
       Inr (map EID (filter (\<lambda>e.
         case map_of (EProps (ERec e)) propKey of None \<Rightarrow> False | Some v \<Rightarrow> QueryEqual v value) es)))"

fun probe_all :: "(val \<Rightarrow> u64 list result) \<Rightarrow> val list \<Rightarrow> u64 list result" where
  "probe_all f [] = Inr []"
| "probe_all f (p # ps) = bindR (f p) (\<lambda>ids. bindR (probe_all f ps) (\<lambda>rest. Inr (ids @ rest)))"

definition EdgesByProperty :: "'s Txn \<Rightarrow> u32 \<Rightarrow> u32 \<Rightarrow> val \<Rightarrow> 's \<Rightarrow> u64 list result" where
  "EdgesByProperty T typeID propKey value s =
     (let value = normalize value
      in if value = VNull then Inr []
         else
           bindR (HasRelIndex T typeID propKey s) (\<lambda>has.
             case equalityProbes value of
               (probes, exact) \<Rightarrow>
                 if \<not> has \<or> \<not> exact \<or> \<not> IsIndexable value then edgesByScan T typeID propKey value s
                 else
                   bindR (probe_all (\<lambda>p.
                       bindR (RelPropPrefix typeID propKey p) (\<lambda>pre.
                       scan_parse T pre (\<lambda>k. bindR (ParseRelPropKey k) (\<lambda>(_, i). Inr i)) s)) probes)
                     (\<lambda>ids. Inr (sort ids))))"

section \<open>crud.go\<close>

definition putNodeRecord :: "'s Txn \<Rightarrow> u64 \<Rightarrow> NodeRecord \<Rightarrow> ('s, unit) act" where
  "putNodeRecord T i rec = bnd (liftR (EncodeNode rec)) (\<lambda>v. TSet T (NodeKey i) v)"

definition putNodeIndexes :: "'s Txn \<Rightarrow> u64 \<Rightarrow> NodeRecord \<Rightarrow> ('s, unit) act" where
  "putNodeIndexes T nodeID rec =
     each (\<lambda>l. seqA (TSet T (LabelKey l nodeID) [])
       (each (\<lambda>(k, v). putPropEntry T l k v nodeID) (Props rec))) (Labels rec)"

definition delNodeIndexes :: "'s Txn \<Rightarrow> u64 \<Rightarrow> NodeRecord \<Rightarrow> ('s, unit) act" where
  "delNodeIndexes T nodeID rec =
     each (\<lambda>l. seqA (TDelete T (LabelKey l nodeID))
       (each (\<lambda>(k, v). delPropEntry T l k v nodeID) (Props rec))) (Labels rec)"

fun intern_labels :: "'s Txn \<Rightarrow> bytes list \<Rightarrow> u32 list \<Rightarrow> ('s, u32 list) act" where
  "intern_labels T [] ids = ret ids"
| "intern_labels T (name # names) ids =
     bnd (InternLabel T name) (\<lambda>i.
       if i \<in> set ids then intern_labels T names ids else intern_labels T names (ids @ [i]))"

fun intern_props :: "'s Txn \<Rightarrow> (bytes \<times> val) list \<Rightarrow> props \<Rightarrow> ('s, props) act" where
  "intern_props T [] out = ret out"
| "intern_props T ((k, v) # ps) out =
     (if v = VNull then intern_props T ps out
      else bnd (InternKey T k) (\<lambda>i. intern_props T ps (AList.update i (normalize v) out)))"

definition internProps :: "'s Txn \<Rightarrow> (bytes \<times> val) list \<Rightarrow> ('s, props) act" where
  "internProps T ps = intern_props T ps []"

definition CreateNode :: "'s Txn \<Rightarrow> bytes list \<Rightarrow> (bytes \<times> val) list \<Rightarrow> ('s, u64) act" where
  "CreateNode T labels props =
     bnd (intern_labels T labels []) (\<lambda>labelIDs.
     bnd (internProps T props) (\<lambda>p.
     bnd (NextNodeID T) (\<lambda>i.
     let rec = \<lparr>Labels = labelIDs, Props = p\<rparr>
     in seqA (putNodeRecord T i rec) (seqA (putNodeIndexes T i rec) (ret i)))))"

definition CreateEdge :: "'s Txn \<Rightarrow> bytes \<Rightarrow> u64 \<Rightarrow> u64 \<Rightarrow> (bytes \<times> val) list \<Rightarrow> ('s, u64) act" where
  "CreateEdge T typ src dst props =
     bnd (reads (\<lambda>s. wrapR (GetNode T src s))) (\<lambda>_.
     bnd (reads (\<lambda>s. wrapR (GetNode T dst s))) (\<lambda>_.
     bnd (InternType T typ) (\<lambda>typeID.
     bnd (internProps T props) (\<lambda>p.
     bnd (NextEdgeID T) (\<lambda>i.
     bnd (liftR (EncodeEdge \<lparr>EType = typeID, Src = src, Dst = dst, EProps = p\<rparr>)) (\<lambda>v.
     seqA (TSet T (EdgeKey i) v)
    (seqA (TSet T (OutKey src typeID dst i) [])
    (seqA (TSet T (InKey dst typeID src i) [])
    (seqA (each (\<lambda>(k, x). putRelPropEntry T typeID k x i) p)
    (ret i))))))))))"

definition SetProperty :: "'s Txn \<Rightarrow> u64 \<Rightarrow> bytes \<Rightarrow> val \<Rightarrow> ('s, unit) act" where
  "SetProperty T nodeID key value =
     bnd (reads (GetNode T nodeID)) (\<lambda>node.
     bnd (InternKey T key) (\<lambda>keyID.
     let value = normalize value;
         rec = NRec node;
         old = map_of (Props rec) keyID
     in seqA (each (\<lambda>l.
            seqA (case old of Some o' \<Rightarrow> delPropEntry T l keyID o' nodeID | None \<Rightarrow> ret ())
              (putPropEntry T l keyID value nodeID)) (Labels rec))
          (putNodeRecord T nodeID
            (rec \<lparr>Props := if value = VNull then AList.delete keyID (Props rec)
                           else AList.update keyID value (Props rec)\<rparr>))))"

definition DeleteEdge :: "'s Txn \<Rightarrow> u64 \<Rightarrow> ('s, unit) act" where
  "DeleteEdge T i =
     bnd (reads (GetEdge T i)) (\<lambda>e.
     let rec = ERec e
     in seqA (TDelete T (OutKey (Src rec) (EType rec) (Dst rec) i))
       (seqA (TDelete T (InKey (Dst rec) (EType rec) (Src rec) i))
       (seqA (each (\<lambda>(k, v). delRelPropEntry T (EType rec) k v i) (EProps rec))
       (TDelete T (EdgeKey i)))))"

definition RemoveProperty :: "'s Txn \<Rightarrow> u64 \<Rightarrow> bytes \<Rightarrow> ('s, unit) act" where
  "RemoveProperty T nodeID key =
     bnd (reads (GetNode T nodeID)) (\<lambda>node.
     bnd (reads (LookupKey T key)) (\<lambda>(keyID, found).
     if \<not> found then ret ()
     else
       let rec = NRec node
       in (case map_of (Props rec) keyID of
             None \<Rightarrow> ret ()
           | Some old \<Rightarrow>
               seqA (each (\<lambda>l. delPropEntry T l keyID old nodeID) (Labels rec))
                 (putNodeRecord T nodeID (rec \<lparr>Props := AList.delete keyID (Props rec)\<rparr>)))))"

text \<open>The loop of \<^verbatim>\<open>AddLabels\<close>: \<open>existing\<close> is the set of labels seen so far, \<open>added\<close> the new ones.\<close>

fun add_labels :: "'s Txn \<Rightarrow> bytes list \<Rightarrow> u32 list \<Rightarrow> u32 list \<Rightarrow> ('s, u32 list) act" where
  "add_labels T [] existing added = ret added"
| "add_labels T (name # names) existing added =
     bnd (InternLabel T name) (\<lambda>i.
       if i \<in> set existing then add_labels T names existing added
       else add_labels T names (i # existing) (added @ [i]))"

definition AddLabels :: "'s Txn \<Rightarrow> u64 \<Rightarrow> bytes list \<Rightarrow> ('s, unit) act" where
  "AddLabels T nodeID labels =
     (if length labels = 0 then ret ()
      else
        bnd (reads (GetNode T nodeID)) (\<lambda>node.
        let rec = NRec node
        in bnd (add_labels T labels (Labels rec) []) (\<lambda>added.
           if length added = 0 then ret ()
           else
             seqA (each (\<lambda>i. seqA (TSet T (LabelKey i nodeID) [])
                 (each (\<lambda>(k, v). putPropEntry T i k v nodeID) (Props rec))) added)
               (putNodeRecord T nodeID (rec \<lparr>Labels := Labels rec @ added\<rparr>)))))"

fun lookup_labels :: "'s Txn \<Rightarrow> bytes list \<Rightarrow> 's \<Rightarrow> u32 list result" where
  "lookup_labels T [] s = Inr []"
| "lookup_labels T (name # names) s =
     bindR (LookupLabel T name s) (\<lambda>(i, found).
     bindR (lookup_labels T names s) (\<lambda>ids. Inr (if found then i # ids else ids)))"

definition RemoveLabels :: "'s Txn \<Rightarrow> u64 \<Rightarrow> bytes list \<Rightarrow> ('s, unit) act" where
  "RemoveLabels T nodeID labels =
     (if length labels = 0 then ret ()
      else
        bnd (reads (GetNode T nodeID)) (\<lambda>node.
        bnd (reads (lookup_labels T labels)) (\<lambda>toRemove.
        if length toRemove = 0 then ret ()
        else
          let rec = NRec node
          in seqA (each (\<lambda>i.
                 if i \<in> set toRemove then
                   seqA (TDelete T (LabelKey i nodeID))
                     (each (\<lambda>(k, v). delPropEntry T i k v nodeID) (Props rec))
                 else ret ()) (Labels rec))
               (putNodeRecord T nodeID (rec \<lparr>Labels := filter (\<lambda>i. i \<notin> set toRemove) (Labels rec)\<rparr>)))))"

fun intern_desired :: "'s Txn \<Rightarrow> (bytes \<times> val) list \<Rightarrow> props \<Rightarrow> ('s, props) act" where
  "intern_desired T [] desired = ret desired"
| "intern_desired T ((k, v) # ps) desired =
     bnd (InternKey T k) (\<lambda>i. intern_desired T ps (AList.update i (normalize v) desired))"

text \<open>The loop over \<^verbatim>\<open>desired\<close> when the new properties are merged; the result is \<^verbatim>\<open>node.Props\<close>.\<close>

fun merge_props :: "'s Txn \<Rightarrow> u64 \<Rightarrow> u32 list \<Rightarrow> props \<Rightarrow> props \<Rightarrow> ('s, props) act" where
  "merge_props T nodeID labels [] props = ret props"
| "merge_props T nodeID labels ((keyID, newVal) # ds) props =
     seqA (case map_of props keyID of
             Some old \<Rightarrow> if sameValue old newVal then ret ()
                         else each (\<lambda>l. delPropEntry T l keyID old nodeID) labels
           | None \<Rightarrow> ret ())
       (merge_props T nodeID labels ds
          (if newVal = VNull then AList.delete keyID props else AList.update keyID newVal props))"

definition SetNodeProperties :: "'s Txn \<Rightarrow> u64 \<Rightarrow> (bytes \<times> val) list \<Rightarrow> bool \<Rightarrow> ('s, unit) act" where
  "SetNodeProperties T nodeID props replace =
     bnd (reads (GetNode T nodeID)) (\<lambda>node.
     bnd (intern_desired T props []) (\<lambda>desired.
     let rec = NRec node
     in bnd (if replace then
               seqA (each (\<lambda>(keyID, old).
                   case map_of desired keyID of
                     Some newVal \<Rightarrow> if sameValue newVal old then ret ()
                                    else each (\<lambda>l. delPropEntry T l keyID old nodeID) (Labels rec)
                   | None \<Rightarrow> each (\<lambda>l. delPropEntry T l keyID old nodeID) (Labels rec)) (Props rec))
                 (ret (filter (\<lambda>(k, v). v \<noteq> VNull) desired))
             else merge_props T nodeID (Labels rec) desired (Props rec)) (\<lambda>newProps.
        seqA (each (\<lambda>(keyID, v). each (\<lambda>l. putPropEntry T l keyID v nodeID) (Labels rec)) newProps)
          (putNodeRecord T nodeID (rec \<lparr>Props := newProps\<rparr>)))))"

text \<open>Closing an iterator returns no error in either adapter.\<close>

definition hasIncidentEdges :: "'s Txn \<Rightarrow> u64 \<Rightarrow> 's \<Rightarrow> bool result" where
  "hasIncidentEdges T nodeID s = Inr (TScan T s (OutPrefixAll nodeID) \<noteq> [] \<or> TScan T s (InPrefixAll nodeID) \<noteq> [])"

definition DeleteNode :: "'s Txn \<Rightarrow> u64 \<Rightarrow> ('s, unit) act" where
  "DeleteNode T i =
     bnd (reads (GetNode T i)) (\<lambda>node.
     bnd (reads (hasIncidentEdges T i)) (\<lambda>has.
     if has then throw ErrNodeHasEdges
     else seqA (delNodeIndexes T i (NRec node)) (TDelete T (NodeKey i))))"

definition DetachDeleteNode :: "'s Txn \<Rightarrow> u64 \<Rightarrow> ('s, unit) act" where
  "DetachDeleteNode T i =
     bnd (reads (GetNode T i)) (\<lambda>_.
     bnd (reads (OutEdges T i 0)) (\<lambda>out.
     bnd (reads (InEdges T i 0)) (\<lambda>inn.
     seqA (each (DeleteEdge T) (remdups (map RefID out @ map RefID inn)))
       (DeleteNode T i))))"

section \<open>traversal.go\<close>

definition appendIndexMatches :: "'s Txn \<Rightarrow> u64 list \<Rightarrow> bytes \<Rightarrow> 's \<Rightarrow> u64 list result" where
  "appendIndexMatches T out p s = bindR (scan_parse T p ParsePropKeyNode s) (\<lambda>ids. Inr (out @ ids))"

fun probe_nodes :: "'s Txn \<Rightarrow> u32 \<Rightarrow> u32 \<Rightarrow> val list \<Rightarrow> u64 list \<Rightarrow> 's \<Rightarrow> u64 list result" where
  "probe_nodes T labelID keyID [] out s = Inr out"
| "probe_nodes T labelID keyID (p # ps) out s =
     bindR (PropPrefix labelID keyID p) (\<lambda>pre.
     bindR (appendIndexMatches T out pre s) (\<lambda>out'. probe_nodes T labelID keyID ps out' s))"

fun filter_nodes :: "'s Txn \<Rightarrow> u32 \<Rightarrow> val \<Rightarrow> u64 list \<Rightarrow> 's \<Rightarrow> u64 list result" where
  "filter_nodes T keyID value [] s = Inr []"
| "filter_nodes T keyID value (n # ns) s =
     bindR (GetNode T n s) (\<lambda>node.
     bindR (filter_nodes T keyID value ns s) (\<lambda>out.
     Inr (case map_of (Props (NRec node)) keyID of
            Some v \<Rightarrow> if QueryEqual v value then n # out else out
          | None \<Rightarrow> out)))"

definition NodesByProperty :: "'s Txn \<Rightarrow> u32 \<Rightarrow> u32 \<Rightarrow> val \<Rightarrow> 's \<Rightarrow> u64 list result" where
  "NodesByProperty T labelID keyID value s =
     (let value = normalize value
      in bindR (HasIndex T labelID keyID s) (\<lambda>has.
           case equalityProbes value of
             (probes, exact) \<Rightarrow>
               if has \<and> exact \<and> IsIndexable value then
                 bindR (probe_nodes T labelID keyID probes [] s) (\<lambda>out. Inr (sort out))
               else bindR (NodesByLabel T labelID s) (\<lambda>nodes. filter_nodes T keyID value nodes s)))"

end
