(* ===== verification/Exec_Value.thy ===== *)
theory Exec_Value
  imports Graph_Model
    "HOL-Library.Signed_Division"
begin

text \<open>
  The value operators of the executor (\<^verbatim>\<open>exec/eval.go\<close>): three-valued equality, comparison, \<^verbatim>\<open>IN\<close>,
  the logical connectives, and arithmetic on 64-bit integers with its overflow checks and on floats.
  Go's float arithmetic is modelled on the bit patterns: the exact result is rounded to nearest, ties to even.
\<close>

section \<open>Arithmetic on floats\<close>

text \<open>
  Go's \<^verbatim>\<open>float64\<close> operations round the exact result to the nearest float, ties to even. \<open>round_mag n d\<close>
  are the magnitude bits of the float nearest to $n/d$ units of $2^{-1074}$.
\<close>

definition round_div :: "int \<Rightarrow> int \<Rightarrow> int" where
  "round_div n d = (let q = n div d; r = n mod d in if d < 2 * r \<or> (d = 2 * r \<and> odd q) then q + 1 else q)"

definition round_mag :: "int \<Rightarrow> int \<Rightarrow> int" where
  "round_mag n d =
     (let s = bitlen (n div d) - 53 in min inf_bits (int s * 2 ^ 52 + round_div n (d * 2 ^ s)))"

definition f_pack :: "bool \<Rightarrow> int \<Rightarrow> f64" where
  "f_pack neg bits = word_of_int (bits + (if neg then 2 ^ 63 else 0))"

text \<open>The result of an invalid operation; which NaN it is cannot be observed by a query.\<close>

definition f_nan :: f64 where
  "f_nan = 0x7FF8000000000001"

definition f_negate :: "f64 \<Rightarrow> f64" where
  "f_negate a = a XOR 0x8000000000000000"

definition f_add :: "f64 \<Rightarrow> f64 \<Rightarrow> f64" where
  "f_add a b =
     (if f_isNaN a \<or> f_isNaN b then f_nan
      else if f_isInf a then (if f_isInf b \<and> f_neg a \<noteq> f_neg b then f_nan else a)
      else if f_isInf b then b
      else let n = f_num a + f_num b
           in if n = 0 then f_pack (f_neg a \<and> f_neg b) 0 else f_pack (n < 0) (round_mag \<bar>n\<bar> 1))"

definition f_sub :: "f64 \<Rightarrow> f64 \<Rightarrow> f64" where
  "f_sub a b = f_add a (f_negate b)"

definition f_mul :: "f64 \<Rightarrow> f64 \<Rightarrow> f64" where
  "f_mul a b =
     (let s = (f_neg a \<noteq> f_neg b)
      in if f_isNaN a \<or> f_isNaN b then f_nan
         else if f_isInf a \<or> f_isInf b then (if f_num a = 0 \<or> f_num b = 0 then f_nan else f_pack s inf_bits)
         else f_pack s (round_mag (\<bar>f_num a\<bar> * \<bar>f_num b\<bar>) f_unit))"

text \<open>The divisor is not a zero.\<close>

definition f_div :: "f64 \<Rightarrow> f64 \<Rightarrow> f64" where
  "f_div a b =
     (let s = (f_neg a \<noteq> f_neg b)
      in if f_isNaN a \<or> f_isNaN b \<or> (f_isInf a \<and> f_isInf b) then f_nan
         else if f_isInf a then f_pack s inf_bits
         else if f_isInf b then f_pack s 0
         else f_pack s (round_mag (\<bar>f_num a\<bar> * f_unit) \<bar>f_num b\<bar>))"

section \<open>Equality and comparison\<close>

text \<open>Decimal digits, as \<^verbatim>\<open>%d\<close> prints them.\<close>

fun decimal :: "nat \<Rightarrow> bytes" where
  "decimal n = (if n < 10 then [of_nat (48 + n)] else decimal (n div 10) @ [of_nat (48 + n mod 10)])"

declare decimal.simps [simp del]

definition element_id :: "val \<Rightarrow> u64" where
  "element_id v = (case v of VNode i _ _ \<Rightarrow> i | VEdge i _ _ _ _ \<Rightarrow> i | _ \<Rightarrow> 0)"

text \<open>A path has at least one node and one more node than relationships.\<close>

fun path_steps :: "val list \<Rightarrow> val list \<Rightarrow> bytes" where
  "path_steps (r # rs) (n # ns) =
     str '',E'' @ decimal (unat (element_id r)) @ str '',N'' @ decimal (unat (element_id n)) @ path_steps rs ns"
| "path_steps _ _ = []"

definition pathIDs :: "val list \<Rightarrow> val list \<Rightarrow> bytes" where
  "pathIDs ns rs =
     (case ns of [] \<Rightarrow> [] | n # ns' \<Rightarrow> str ''N'' @ decimal (unat (element_id n)) @ path_steps rs ns')"

text \<open>\<open>equality a b\<close> is the pair of results \<^verbatim>\<open>eq, known\<close>.\<close>

lemma normalize_size [simp]: "size (normalize a) = size a"
  by (simp add: Values.normalize_def split: val.splits)

function (sequential) equality :: "val \<Rightarrow> val \<Rightarrow> bool \<times> bool"
  and equality_list :: "val list \<Rightarrow> val list \<Rightarrow> bool \<Rightarrow> bool \<times> bool"
  and equality_map :: "(bytes \<times> val) list \<Rightarrow> (bytes \<times> val) list \<Rightarrow> bool \<Rightarrow> bool \<times> bool" where
  "equality a b =
     (let a = normalize a; b = normalize b
      in if a = VNull \<or> b = VNull then (False, False)
         else case a of
           VList xs \<Rightarrow>
             (case b of
                VList ys \<Rightarrow> if length xs \<noteq> length ys then (False, True) else equality_list xs ys True
              | _ \<Rightarrow> (False, True))
         | VMap xs \<Rightarrow>
             (case b of
                VMap ys \<Rightarrow> if length xs \<noteq> length ys then (False, True) else equality_map xs ys True
              | _ \<Rightarrow> (False, True))
         | VNode i _ _ \<Rightarrow> (case b of VNode j _ _ \<Rightarrow> (i = j, True) | _ \<Rightarrow> (False, True))
         | VEdge i _ _ _ _ \<Rightarrow> (case b of VEdge j _ _ _ _ \<Rightarrow> (i = j, True) | _ \<Rightarrow> (False, True))
         | VPath ns rs \<Rightarrow> (case b of VPath ns' rs' \<Rightarrow> (pathIDs ns rs = pathIDs ns' rs', True) | _ \<Rightarrow> (False, True))
         | _ \<Rightarrow> (QueryEqual a b, True))"
| "equality_list (x # xs) (y # ys) known =
     (case equality x y of
        (e, k) \<Rightarrow> if k \<and> \<not> e then (False, True) else equality_list xs ys (known \<and> k))"
| "equality_list _ _ known = (known, known)"
| "equality_map ((key, x) # xs) ys known =
     (case map_of ys key of
        None \<Rightarrow> (False, True)
      | Some y \<Rightarrow>
          (case equality x y of
             (e, k) \<Rightarrow> if k \<and> \<not> e then (False, True) else equality_map xs ys (known \<and> k)))"
| "equality_map [] ys known = (known, known)"
  by pat_completeness auto

termination
proof (relation "measure (\<lambda>x. case x of Inl (a, _) \<Rightarrow> size a | Inr (Inl (xs, _)) \<Rightarrow> size_list size xs
    | Inr (Inr (xs, _)) \<Rightarrow> size_list (size_prod (\<lambda>_. 0) size) xs)")
qed (auto simp: Values.normalize_def split: val.splits)

declare equality.simps [simp del]

definition equals :: "val \<Rightarrow> val \<Rightarrow> bool" where
  "equals a b = (case equality a b of (eq, known) \<Rightarrow> known \<and> eq)"

definition equalityOp :: "val \<Rightarrow> val \<Rightarrow> bool \<Rightarrow> val" where
  "equalityOp a b negate = (case equality a b of (eq, known) \<Rightarrow> if \<not> known then VNull else VBool (eq \<noteq> negate))"

definition truthy :: "val \<Rightarrow> bool" where
  "truthy v = (case v of VBool b \<Rightarrow> b | _ \<Rightarrow> False)"

definition isNaN :: "val \<Rightarrow> bool" where
  "isNaN v = (case v of VFloat f \<Rightarrow> f_isNaN f | _ \<Rightarrow> False)"

definition cmpInt64 :: "i64 \<Rightarrow> i64 \<Rightarrow> int" where
  "cmpInt64 a b = (if sint a < sint b then -1 else if sint b < sint a then 1 else 0)"

definition cmpFloat64 :: "f64 \<Rightarrow> f64 \<Rightarrow> int" where
  "cmpFloat64 a b = (if f_less a b then -1 else if f_less b a then 1 else 0)"

definition cmpBool :: "bool \<Rightarrow> bool \<Rightarrow> int" where
  "cmpBool a b = (if a = b then 0 else if \<not> a then -1 else 1)"

text \<open>\<^verbatim>\<open>strings.Compare\<close>\<close>

definition strings_Compare :: "bytes \<Rightarrow> bytes \<Rightarrow> int" where
  "strings_Compare a b = (if a = b then 0 else if a < b then -1 else 1)"

definition compareValues :: "val \<Rightarrow> val \<Rightarrow> int \<times> bool" where
  "compareValues a b =
     (let a = normalize a; b = normalize b
      in case a of
           VInt x \<Rightarrow>
             (case b of
                VInt y \<Rightarrow> (cmpInt64 x y, True)
              | VFloat y \<Rightarrow> (cmpFloat64 (f_of_int (sint x)) y, True)
              | _ \<Rightarrow> (0, False))
         | VFloat x \<Rightarrow>
             (case b of
                VInt y \<Rightarrow> (cmpFloat64 x (f_of_int (sint y)), True)
              | VFloat y \<Rightarrow> (cmpFloat64 x y, True)
              | _ \<Rightarrow> (0, False))
         | VStr x \<Rightarrow> (case b of VStr y \<Rightarrow> (strings_Compare x y, True) | _ \<Rightarrow> (0, False))
         | VBool x \<Rightarrow> (case b of VBool y \<Rightarrow> (cmpBool x y, True) | _ \<Rightarrow> (0, False))
         | _ \<Rightarrow> (0, False))"

definition compareOp :: "string \<Rightarrow> val \<Rightarrow> val \<Rightarrow> val" where
  "compareOp op a b =
     (let a = normalize a; b = normalize b
      in if a = VNull \<or> b = VNull then VNull
         else if isNaN a \<or> isNaN b then VBool False
         else case compareValues a b of
           (c, ok) \<Rightarrow>
             if \<not> ok then VNull
             else if op = ''<'' then VBool (c < 0)
             else if op = ''<='' then VBool (c \<le> 0)
             else if op = ''>'' then VBool (c > 0)
             else if op = ''>='' then VBool (c \<ge> 0)
             else VNull)"

definition stringPredicate :: "val \<Rightarrow> val \<Rightarrow> (bytes \<Rightarrow> bytes \<Rightarrow> bool) \<Rightarrow> val result" where
  "stringPredicate l r fn = (case (l, r) of (VStr a, VStr b) \<Rightarrow> Inr (VBool (fn a b)) | _ \<Rightarrow> Inr VNull)"

fun in_items :: "val \<Rightarrow> val list \<Rightarrow> bool \<Rightarrow> val" where
  "in_items needle [] unknown = (if unknown then VNull else VBool False)"
| "in_items needle (item # items) unknown =
     (case equality needle item of
        (eq, known) \<Rightarrow> if known \<and> eq then VBool True else in_items needle items (unknown \<or> \<not> known))"

definition inList :: "val \<Rightarrow> val \<Rightarrow> val result" where
  "inList needle haystack =
     (case haystack of
        VNull \<Rightarrow> Inr VNull
      | VList items \<Rightarrow> Inr (in_items needle items False)
      | _ \<Rightarrow> Inl (ErrExec ''IN requires a list''))"

text \<open>\<^verbatim>\<open>boolValue\<close> once both operands are evaluated.\<close>

definition boolValue :: "val \<Rightarrow> val \<Rightarrow> bool \<Rightarrow> val" where
  "boolValue l r isOr =
     (if (l \<noteq> VNull \<and> truthy l = isOr) \<or> (r \<noteq> VNull \<and> truthy r = isOr) then VBool isOr
      else if l = VNull \<or> r = VNull then VNull
      else VBool (\<not> isOr))"

section \<open>Arithmetic\<close>

definition minInt64 :: i64 where
  "minInt64 = 0x8000000000000000"

definition maxInt64 :: i64 where
  "maxInt64 = 0x7FFFFFFFFFFFFFFF"

text \<open>Go's division and remainder of \<^verbatim>\<open>int64\<close>: the quotient is truncated towards zero, and wraps.\<close>

definition go_div :: "i64 \<Rightarrow> i64 \<Rightarrow> i64" where
  "go_div a b = word_of_int (sint a sdiv sint b)"

definition go_mod :: "i64 \<Rightarrow> i64 \<Rightarrow> i64" where
  "go_mod a b = word_of_int (sint a smod sint b)"

definition addInt :: "i64 \<Rightarrow> i64 \<Rightarrow> i64 result" where
  "addInt a b = (let c = a + b in if sint ((a XOR c) AND (b XOR c)) < 0 then Inl ErrIntegerOverflow else Inr c)"

definition negateInt :: "i64 \<Rightarrow> i64 result" where
  "negateInt n = (if n = minInt64 then Inl ErrIntegerOverflow else Inr (- n))"

definition intArithmetic :: "string \<Rightarrow> i64 \<Rightarrow> i64 \<Rightarrow> val result" where
  "intArithmetic op a b =
     (if op = ''+'' then bindR (addInt a b) (\<lambda>c. Inr (VInt c))
      else if op = ''-'' then
        (let c = a - b
         in if sint ((a XOR b) AND (a XOR c)) < 0 then Inl ErrIntegerOverflow else Inr (VInt c))
      else if op = ''*'' then
        (if a = 0 \<or> b = 0 then Inr (VInt 0)
         else let c = a * b
              in if go_div c b \<noteq> a \<or> (a = -1 \<and> b = minInt64) \<or> (b = -1 \<and> a = minInt64)
                 then Inl ErrIntegerOverflow else Inr (VInt c))
      else if op = ''/'' then
        (if b = 0 then Inl (ErrExec ''division by zero'')
         else if a = minInt64 \<and> b = -1 then Inl ErrIntegerOverflow
         else Inr (VInt (go_div a b)))
      else if op = ''%'' then
        (if b = 0 then Inl (ErrExec ''division by zero'') else Inr (VInt (go_mod a b)))
      else Inl (ErrExec ''unknown operator''))"

definition floatArithmetic :: "string \<Rightarrow> f64 \<Rightarrow> f64 \<Rightarrow> val result" where
  "floatArithmetic op a b =
     (if op = ''+'' then Inr (VFloat (f_add a b))
      else if op = ''-'' then Inr (VFloat (f_sub a b))
      else if op = ''*'' then Inr (VFloat (f_mul a b))
      else if op = ''/'' then
        (if f_eq b 0 then Inl (ErrExec ''division by zero'') else Inr (VFloat (f_div a b)))
      else if op = ''%'' then Inl (ErrExec ''modulo requires integers'')
      else Inl (ErrExec ''unknown operator''))"

definition toFloat :: "val \<Rightarrow> f64 option" where
  "toFloat v = (case v of VInt n \<Rightarrow> Some (f_of_int (sint n)) | VFloat f \<Rightarrow> Some f | _ \<Rightarrow> None)"

definition arithmetic :: "string \<Rightarrow> val \<Rightarrow> val \<Rightarrow> val result" where
  "arithmetic op a b =
     (let a = normalize a; b = normalize b
      in case (a, b) of
           (VStr x, VStr y) \<Rightarrow>
             if op = ''+'' then Inr (VStr (x @ y)) else Inl (ErrExec ''arithmetic requires numbers'')
         | (VInt x, VInt y) \<Rightarrow> intArithmetic op x y
         | _ \<Rightarrow>
             (case toFloat a of
                None \<Rightarrow> Inl (ErrExec ''arithmetic requires numbers'')
              | Some x \<Rightarrow>
                  (case toFloat b of
                     None \<Rightarrow> Inl (ErrExec ''arithmetic requires numbers'')
                   | Some y \<Rightarrow> floatArithmetic op x y)))"

section \<open>Integer arithmetic does not wrap around\<close>

definition fits :: "int \<Rightarrow> bool" where
  "fits z \<longleftrightarrow> - (2 ^ 63) \<le> z \<and> z < 2 ^ 63"

lemma fits_sint [simp]: "fits (sint (a :: i64))"
  using sint_i64_bounds [of a] by (simp add: fits_def)

lemma sint_of_int: "fits z \<Longrightarrow> sint (word_of_int z :: i64) = z"
  by (simp add: fits_def sint_sbintrunc' signed_take_bit_int_eq_self)

lemma sint_word_of_int: "sint (word_of_int z :: i64) = (z + 2 ^ 63) mod 2 ^ 64 - 2 ^ 63"
  by (simp add: sint_sbintrunc' signed_take_bit_eq_take_bit_shift take_bit_eq_mod)

lemma sint_word_of_int_cases:
  assumes "- (2 ^ 64) \<le> z" "z < 2 ^ 64"
  shows "sint (word_of_int z :: i64) = (if fits z then z else if z < 0 then z + 2 ^ 64 else z - 2 ^ 64)"
proof (cases "fits z")
  case False
  have "(z + 2 ^ 63) mod 2 ^ 64 = (if z < 0 then z + 2 ^ 63 + 2 ^ 64 else z + 2 ^ 63 - 2 ^ 64)"
  proof (cases "z < 0")
    case True
    then have "(z + 2 ^ 63 + 2 ^ 64) mod 2 ^ 64 = z + 2 ^ 63 + 2 ^ 64"
      using False assms by (intro mod_pos_pos_trivial) (auto simp: fits_def)
    moreover have "(z + 2 ^ 63 + 2 ^ 64) mod 2 ^ 64 = (z + 2 ^ 63) mod 2 ^ 64" by (rule mod_add_self2)
    ultimately show ?thesis using True by simp
  next
    case pos: False
    then have "(z + 2 ^ 63 - 2 ^ 64) mod 2 ^ 64 = z + 2 ^ 63 - 2 ^ 64"
      using False assms by (intro mod_pos_pos_trivial) (auto simp: fits_def)
    moreover have "(z + 2 ^ 63 - 2 ^ 64) mod 2 ^ 64 = (z + 2 ^ 63) mod 2 ^ 64" by (rule minus_mod_self2)
    ultimately show ?thesis using pos by simp
  qed
  then show ?thesis using False by (simp add: sint_word_of_int)
qed (simp add: sint_of_int)

lemma sint_neg_bits: "sint ((a :: i64) XOR b) < 0 \<longleftrightarrow> (sint a < 0) \<noteq> (sint b < 0)" "sint (a AND b) < 0 \<longleftrightarrow> sint a < 0 \<and> sint b < 0"
  unfolding bit_last_iff [symmetric] by (auto simp: bit_simps)

lemma word_of_sint: "(a :: i64) + b = word_of_int (sint a + sint b)" "a - b = word_of_int (sint a - sint b)" "a * b = word_of_int (sint a * sint b)"
  by simp_all

lemma add_overflow:
  fixes a b :: i64
  shows "sint ((a XOR (a + b)) AND (b XOR (a + b))) < 0 \<longleftrightarrow> \<not> fits (sint a + sint b)"
    "sint ((a XOR b) AND (a XOR (a - b))) < 0 \<longleftrightarrow> \<not> fits (sint a - sint b)"
proof -
  have r: "- (2 ^ 64) \<le> sint a + sint b" "sint a + sint b < 2 ^ 64" "- (2 ^ 64) \<le> sint a - sint b" "sint a - sint b < 2 ^ 64"
    using sint_i64_bounds(1,2) [of a] sint_i64_bounds(1,2) [of b] by simp_all
  note s = sint_word_of_int_cases [OF r(1,2)] sint_word_of_int_cases [OF r(3,4)]
  show "sint ((a XOR (a + b)) AND (b XOR (a + b))) < 0 \<longleftrightarrow> \<not> fits (sint a + sint b)"
    unfolding sint_neg_bits unfolding word_of_sint s
    using sint_i64_bounds(1,2) [of a] sint_i64_bounds(1,2) [of b] by (auto simp: fits_def)
  show "sint ((a XOR b) AND (a XOR (a - b))) < 0 \<longleftrightarrow> \<not> fits (sint a - sint b)"
    unfolding sint_neg_bits unfolding word_of_sint s
    using sint_i64_bounds(1,2) [of a] sint_i64_bounds(1,2) [of b] by (auto simp: fits_def)
qed

lemma sint_special: "sint (-1 :: i64) = -1" "sint minInt64 = - (2 ^ 63)"
  by (simp_all add: minInt64_def)

lemma smod_abs_less: "b \<noteq> 0 \<Longrightarrow> \<bar>a smod b\<bar> < \<bar>b :: int\<bar>"
  by (auto simp: smod_int_alt_def abs_mult abs_sgn_eq)

lemma sdiv_fits: "fits x \<Longrightarrow> fits y \<Longrightarrow> \<not> (x = - (2 ^ 63) \<and> y = -1) \<Longrightarrow> fits (x sdiv y)"
proof -
  assume h: "fits x" "fits y" "\<not> (x = - (2 ^ 63) \<and> y = -1)"
  show "fits (x sdiv y)"
  proof (cases "\<bar>y\<bar> \<le> 1")
    case True
    then have "y = 0 \<or> y = 1 \<or> y = -1" by auto
    then show ?thesis using h by (auto simp: fits_def)
  next
    case False
    have "\<bar>x sdiv y\<bar> \<le> \<bar>x\<bar> div \<bar>y\<bar>" by (auto simp: signed_divide_int_def abs_mult abs_sgn_eq pos_imp_zdiv_nonneg_iff)
    also have "\<dots> \<le> \<bar>x\<bar> div 2" using False by (intro zdiv_mono2) auto
    finally have "\<bar>x sdiv y\<bar> \<le> \<bar>x\<bar> div 2" .
    then show ?thesis using h(1) by (auto simp: fits_def)
  qed
qed

lemma mult_sdiv: "y \<noteq> 0 \<Longrightarrow> (x * y) sdiv y = (x :: int)"
proof -
  assume y: "y \<noteq> 0"
  then have "\<bar>x * y\<bar> div \<bar>y\<bar> = \<bar>x\<bar>" by (simp add: abs_mult)
  moreover have "sgn (x * y) * sgn y = sgn x" using y by (cases y "0 :: int" rule: linorder_cases) (simp_all add: sgn_mult)
  ultimately show ?thesis by (simp only: signed_divide_int_def) (simp add: sgn_mult_abs)
qed

lemma mult_overflow:
  fixes a b :: i64
  assumes "a \<noteq> 0" "b \<noteq> 0"
  shows "go_div (a * b) b \<noteq> a \<or> (a = -1 \<and> b = minInt64) \<or> (b = -1 \<and> a = minInt64) \<longleftrightarrow> \<not> fits (sint a * sint b)"
proof -
  let ?p = "sint a * sint b"
  have b0: "sint b \<noteq> 0" using assms(2) sint_eq_iff [of b 0] by simp
  have c: "a * b = word_of_int ?p" by simp
  show ?thesis
  proof
    assume l: "go_div (a * b) b \<noteq> a \<or> (a = -1 \<and> b = minInt64) \<or> (b = -1 \<and> a = minInt64)"
    show "\<not> fits ?p"
    proof
      assume f: "fits ?p"
      then have "sint (a * b) = ?p" using c sint_of_int by metis
      then have "go_div (a * b) b = word_of_int (sint a)" unfolding go_div_def by (simp only: mult_sdiv [OF b0])
      then have "go_div (a * b) b = a" by simp
      with l have "(sint a = -1 \<and> sint b = - (2 ^ 63)) \<or> (sint b = -1 \<and> sint a = - (2 ^ 63))" using sint_special by auto
      with f show False by (auto simp: fits_def)
    qed
  next
    assume n: "\<not> fits ?p"
    show "go_div (a * b) b \<noteq> a \<or> (a = -1 \<and> b = minInt64) \<or> (b = -1 \<and> a = minInt64)"
    proof (rule ccontr)
      assume h: "\<not> ?thesis"
      let ?c = "sint (a * b)"
      let ?q = "?c sdiv sint b"
      have q: "word_of_int ?q = a" using h by (simp add: go_div_def)
      have "\<not> (?c = - (2 ^ 63) \<and> sint b = -1)"
      proof
        assume m: "?c = - (2 ^ 63) \<and> sint b = -1"
        then have "a = minInt64" using q by (simp add: minInt64_def)
        moreover have "b = -1" using m sint_eq_iff [of b "-1"] sint_special(1) by simp
        ultimately show False using h by simp
      qed
      then have "fits ?q" by (intro sdiv_fits) simp_all
      then have qa: "?q = sint a" using q sint_of_int by metis
      have "?c = sint b * ?q + ?c smod sint b" by (rule mult_sdiv_smod_eq [symmetric])
      then have cr: "?c = ?p + ?c smod sint b" using qa by (simp add: mult.commute)
      have "\<bar>?c smod sint b\<bar> < 2 ^ 63" using smod_abs_less [OF b0, of ?c] sint_i64_bounds(3) [of b] by linarith
      moreover have "?c - ?p = ?c smod sint b" using cr by simp
      moreover have "(2 ^ 64) dvd (?c - ?p)"
      proof -
        have "(word_of_int ?c :: i64) = word_of_int ?p" by simp
        then have "take_bit LENGTH(64) ?c = take_bit LENGTH(64) ?p" unfolding word_of_int_eq_iff .
        then show ?thesis by (simp add: take_bit_eq_mod mod_eq_dvd_iff)
      qed
      ultimately have "?c smod sint b = 0" using zdvd_imp_le [of "2 ^ 64" "\<bar>?c smod sint b\<bar>"] by (auto simp: dvd_abs_iff)
      then have "?p = ?c" using cr by simp
      then show False using n by (metis fits_sint)
    qed
  qed
qed

text \<open>
  C14. Integer arithmetic is exact or fails: each operator of \<^verbatim>\<open>intArithmetic\<close> returns the mathematical
  result when it fits 64 bits and \<^verbatim>\<open>ErrIntegerOverflow\<close> when it does not, for all operands; division
  truncates towards zero, and division by zero is an error.
\<close>

theorem int_arithmetic_exact:
  "intArithmetic ''+'' a b = (if fits (sint a + sint b) then Inr (VInt (word_of_int (sint a + sint b))) else Inl ErrIntegerOverflow) \<and>
   intArithmetic ''-'' a b = (if fits (sint a - sint b) then Inr (VInt (word_of_int (sint a - sint b))) else Inl ErrIntegerOverflow) \<and>
   intArithmetic ''*'' a b = (if fits (sint a * sint b) then Inr (VInt (word_of_int (sint a * sint b))) else Inl ErrIntegerOverflow) \<and>
   intArithmetic ''/'' a b =
     (if b = 0 then Inl (ErrExec ''division by zero'')
      else if fits (sint a sdiv sint b) then Inr (VInt (word_of_int (sint a sdiv sint b))) else Inl ErrIntegerOverflow) \<and>
   intArithmetic ''%'' a b =
     (if b = 0 then Inl (ErrExec ''division by zero'') else Inr (VInt (word_of_int (sint a smod sint b))))"
proof (intro conjI)
  show "intArithmetic ''+'' a b = (if fits (sint a + sint b) then Inr (VInt (word_of_int (sint a + sint b))) else Inl ErrIntegerOverflow)"
    using add_overflow(1) [of a b] by (simp add: intArithmetic_def addInt_def Let_def)
  show "intArithmetic ''-'' a b = (if fits (sint a - sint b) then Inr (VInt (word_of_int (sint a - sint b))) else Inl ErrIntegerOverflow)"
    using add_overflow(2) [of a b] by (simp add: intArithmetic_def Let_def)
  show "intArithmetic ''*'' a b = (if fits (sint a * sint b) then Inr (VInt (word_of_int (sint a * sint b))) else Inl ErrIntegerOverflow)"
  proof (cases "a = 0 \<or> b = 0")
    case True
    then show ?thesis by (auto simp: intArithmetic_def fits_def)
  next
    case False
    then show ?thesis using mult_overflow [of a b] by (simp add: intArithmetic_def Let_def)
  qed
  show "intArithmetic ''/'' a b =
     (if b = 0 then Inl (ErrExec ''division by zero'')
      else if fits (sint a sdiv sint b) then Inr (VInt (word_of_int (sint a sdiv sint b))) else Inl ErrIntegerOverflow)"
  proof (cases "a = minInt64 \<and> b = -1")
    case True
    then show ?thesis by (simp add: intArithmetic_def sint_special fits_def)
  next
    case False
    then have "\<not> (sint a = - (2 ^ 63) \<and> sint b = -1)" using sint_eq_iff [of a minInt64] sint_eq_iff [of b "-1"] sint_special by auto
    then have "fits (sint a sdiv sint b)" by (intro sdiv_fits) simp_all
    then show ?thesis using False by (simp add: intArithmetic_def go_div_def)
  qed
qed (simp add: intArithmetic_def go_mod_def)

section \<open>The laws of equality and comparison\<close>

definition equality_at :: "(bytes \<times> val) list \<Rightarrow> bytes \<Rightarrow> val \<Rightarrow> bool \<times> bool" where
  "equality_at ys k x = (case map_of ys k of None \<Rightarrow> (False, True) | Some y \<Rightarrow> equality x y)"

lemma equality_map_Cons:
  "equality_map ((k, x) # xs) ys known =
     (if equality_at ys k x = (False, True) then (False, True) else equality_map xs ys (known \<and> snd (equality_at ys k x)))"
  by (auto simp: equality_at_def split: option.splits prod.splits)

lemma equality_map_spec:
  "equality_map xs ys known =
     (if \<exists>(k, x) \<in> set xs. equality_at ys k x = (False, True) then (False, True)
      else (known \<and> (\<forall>(k, x) \<in> set xs. snd (equality_at ys k x)), known \<and> (\<forall>(k, x) \<in> set xs. snd (equality_at ys k x))))"
proof (induction xs arbitrary: known)
  case (Cons e xs)
  obtain k x where e: "e = (k, x)" by (cases e)
  show ?case unfolding e equality_map_Cons using Cons.IH by auto
qed simp

text \<open>Values whose maps have distinct keys, as Go's maps do.\<close>

fun go_value :: "val \<Rightarrow> bool" where
  "go_value (VList vs) \<longleftrightarrow> (\<forall>v \<in> set vs. go_value v)"
| "go_value (VMap es) \<longleftrightarrow> distinct (map fst es) \<and> (\<forall>(k, v) \<in> set es. go_value v)"
| "go_value _ \<longleftrightarrow> True"

lemma f_eq_sym: "f_eq a b = f_eq b a"
  by (auto simp: f_eq_def)

lemma equality_list_sym:
  "length xs = length ys \<Longrightarrow> \<forall>x \<in> set xs. \<forall>y \<in> set ys. equality x y = equality y x \<Longrightarrow>
    equality_list xs ys known = equality_list ys xs known"
  by (induction xs ys arbitrary: known rule: list_induct2) (auto split: prod.splits)

lemma equality_map_sym:
  assumes "\<And>k l x y. (k, x) \<in> set xs \<Longrightarrow> (l, y) \<in> set ys \<Longrightarrow> equality x y = equality y x" "length xs = length ys"
    "distinct (map fst xs)" "distinct (map fst ys)"
  shows "equality_map xs ys True = equality_map ys xs True"
proof (cases "fst ` set xs = fst ` set ys")
  case True
  have m: "(k, x) \<in> set xs \<longleftrightarrow> map_of xs k = Some x" "(k, y) \<in> set ys \<longleftrightarrow> map_of ys k = Some y" for k x y
    using assms(3,4) by simp_all
  have dom: "(\<exists>x. map_of xs k = Some x) \<longleftrightarrow> (\<exists>y. map_of ys k = Some y)" for k
    using True by (metis domIff dom_map_of_conv_image_fst not_None_eq)
  have s: "equality x y = equality y x" if "map_of xs k = Some x" "map_of ys k = Some y" for k x y
    using that assms(1) by (blast dest: map_of_SomeD)
  have at: "(\<exists>x. map_of xs k = Some x \<and> P (equality_at ys k x)) \<longleftrightarrow> (\<exists>y. map_of ys k = Some y \<and> P (equality_at xs k y))" for k P
  proof (cases "map_of xs k")
    case None
    then show ?thesis using dom [of k] by simp
  next
    case (Some x)
    then obtain y where y: "map_of ys k = Some y" using dom [of k] by auto
    show ?thesis using Some y s [OF Some y] by (simp add: equality_at_def)
  qed
  have ex: "(\<exists>(k, x) \<in> set xs. P (equality_at ys k x)) \<longleftrightarrow> (\<exists>(k, y) \<in> set ys. P (equality_at xs k y))" for P
    using at [of _ P] unfolding Bex_def by (simp add: split_paired_Ex m) 
  have "(\<forall>(k, x) \<in> set xs. snd (equality_at ys k x)) \<longleftrightarrow> (\<forall>(k, y) \<in> set ys. snd (equality_at xs k y))"
    using ex [of "\<lambda>p. \<not> snd p"] by auto
  then show ?thesis using ex [of "\<lambda>p. p = (False, True)"] by (simp add: equality_map_spec)
next
  case False
  have "card (fst ` set xs) = card (fst ` set ys)" using assms(2-4) by (metis distinct_card length_map set_map)
  with False have "\<not> fst ` set xs \<subseteq> fst ` set ys" "\<not> fst ` set ys \<subseteq> fst ` set xs"
    by (metis card_subset_eq finite_imageI finite_set)+
  then obtain p q where pq: "p \<in> set xs" "fst p \<notin> fst ` set ys" "q \<in> set ys" "fst q \<notin> fst ` set xs" by blast
  obtain k x l y where "p = (k, x)" "q = (l, y)" by (cases p, cases q)
  with pq have "(k, x) \<in> set xs" "k \<notin> fst ` set ys" "(l, y) \<in> set ys" "l \<notin> fst ` set xs" by simp_all
  then have "equality_at ys k x = (False, True)" "(k, x) \<in> set xs" "equality_at xs l y = (False, True)" "(l, y) \<in> set ys"
    by (simp_all add: equality_at_def map_of_eq_None_iff [THEN iffD2])
  then show ?thesis by (auto simp: equality_map_spec)
qed

lemma equality_sym_aux: "go_value a \<Longrightarrow> go_value b \<Longrightarrow> equality a b = equality b a"
proof (induction a arbitrary: b rule: measure_induct_rule [where f = size])
  case (less a)
  have list: "equality_list xs ys True = equality_list ys xs True" if "a = VList xs" "b = VList ys" "length xs = length ys" for xs ys
  proof (rule equality_list_sym [OF that(3)], intro ballI)
    fix x y
    assume m: "x \<in> set xs" "y \<in> set ys"
    have "size x < size a" using that(1) size_list_estimation' [OF m(1), of "size x" size] by simp
    then show "equality x y = equality y x" by (rule less.IH) (use less.prems m that(1,2) in auto)
  qed
  have map: "equality_map xs ys True = equality_map ys xs True" if "a = VMap xs" "b = VMap ys" "length xs = length ys" for xs ys
  proof (rule equality_map_sym [OF _ that(3)])
    show "distinct (map fst xs)" "distinct (map fst ys)" using less.prems that(1,2) by simp_all
    fix k l x y
    assume m: "(k, x) \<in> set xs" "(l, y) \<in> set ys"
    have "size x < size a" using that(1) size_list_estimation' [OF m(1), of "size x" "size_prod (\<lambda>_. 0) size"] by simp
    then show "equality x y = equality y x" by (rule less.IH) (use less.prems m that(1,2) in auto)
  qed
  show ?case unfolding equality.simps [of a b] equality.simps [of b a] Let_def
    by (cases a; cases b) (auto simp: Values.normalize_def QueryEqual_def f_eq_sym intro!: list map)
qed

text \<open>
  C15. Equality does not depend on the order of its operands, in all three outcomes: for values of any
  shape, nested lists and maps included, \<^verbatim>\<open>a = b\<close> and \<^verbatim>\<open>b = a\<close> are both true, both false or both null.
\<close>

theorem equality_symmetric:
  assumes "go_value a" and "go_value b"
  shows "equality a b = equality b a \<and> equalityOp a b negate = equalityOp b a negate"
  using equality_sym_aux [OF assms] by (simp add: equalityOp_def)

theorem equality_symmetric_witness:
  "equality (VMap [([1], VInt 1), ([2], VList [VNull])]) (VMap [([2], VList [VFloat 0]), ([1], VFloat 0x3FF0000000000000)]) = (False, False) \<and>
   equality (VMap [([2], VList [VFloat 0]), ([1], VFloat 0x3FF0000000000000)]) (VMap [([1], VInt 1), ([2], VList [VNull])]) = (False, False)"
proof -
  have "equality (VMap [([1], VInt 1), ([2], VList [VNull])]) (VMap [([2], VList [VFloat 0]), ([1], VFloat 0x3FF0000000000000)]) = (False, False)"
    by code_simp
  with equality_symmetric [of "VMap [([1], VInt 1), ([2], VList [VNull])]" "VMap [([2], VList [VFloat 0]), ([1], VFloat 0x3FF0000000000000)]"]
  show ?thesis by simp
qed

lemma compareValues_cases:
  assumes "snd (compareValues a b)"
  obtains x y where "normalize a = VInt x" "normalize b = VInt y" "compareValues a b = (cmpInt64 x y, True)"
  | x y where "normalize a = VInt x" "normalize b = VFloat y" "compareValues a b = (cmpFloat64 (f_of_int (sint x)) y, True)"
  | x y where "normalize a = VFloat x" "normalize b = VInt y" "compareValues a b = (cmpFloat64 x (f_of_int (sint y)), True)"
  | x y where "normalize a = VFloat x" "normalize b = VFloat y" "compareValues a b = (cmpFloat64 x y, True)"
  | x y where "normalize a = VStr x" "normalize b = VStr y" "compareValues a b = (strings_Compare x y, True)"
  | x y where "normalize a = VBool x" "normalize b = VBool y" "compareValues a b = (cmpBool x y, True)"
  using assms by (auto simp: compareValues_def Let_def split: val.splits)

lemma cmp_simps:
  "cmpInt64 x y < 0 \<longleftrightarrow> sint x < sint y" "0 < cmpInt64 x y \<longleftrightarrow> sint y < sint x" "cmpInt64 x y = 0 \<longleftrightarrow> x = y"
  "cmpFloat64 f g < 0 \<longleftrightarrow> f_less f g" "0 < cmpFloat64 f g \<longleftrightarrow> f_less g f"
  "\<not> f_isNaN f \<Longrightarrow> \<not> f_isNaN g \<Longrightarrow> cmpFloat64 f g = 0 \<longleftrightarrow> f_eq f g"
  "strings_Compare s t < 0 \<longleftrightarrow> s < t" "0 < strings_Compare s t \<longleftrightarrow> t < s" "strings_Compare s t = 0 \<longleftrightarrow> s = t"
  "cmpBool p q < 0 \<longleftrightarrow> \<not> p \<and> q" "0 < cmpBool p q \<longleftrightarrow> p \<and> \<not> q" "cmpBool p q = 0 \<longleftrightarrow> p = q"
  using sint_eq_iff [of x y]
  by (auto simp: cmpInt64_def cmpFloat64_def strings_Compare_def cmpBool_def f_less_def f_eq_def)

lemma compare_zero:
  assumes "compareValues a b = (c, True)" "\<not> isNaN (normalize a)" "\<not> isNaN (normalize b)"
  shows "c = 0 \<longleftrightarrow> equals a b"
proof -
  have "snd (compareValues a b)" using assms(1) by simp
  then show ?thesis
    using assms by (cases rule: compareValues_cases)
      (auto simp: equals_def equality.simps Let_def QueryEqual_def Values.normalize_def cmp_simps isNaN_def split: val.splits)
qed

text \<open>
  C16. Comparison is coherent: for two values that compare (numbers of either kind, strings or
  booleans; no NaN) exactly one of \<^verbatim>\<open><\<close>, \<^verbatim>\<open>=\<close> and \<^verbatim>\<open>>\<close> holds, \<^verbatim>\<open><=\<close> and \<^verbatim>\<open>>=\<close> are the unions, and swapping the
  operands swaps \<^verbatim>\<open><\<close> and \<^verbatim>\<open>>\<close>.
\<close>

theorem comparison_trichotomy:
  assumes "snd (compareValues a b)" and "\<not> isNaN (normalize a)" and "\<not> isNaN (normalize b)"
  shows "\<exists>lt gt. compareOp ''<'' a b = VBool lt \<and> compareOp ''>'' a b = VBool gt \<and>
    (lt \<and> \<not> equals a b \<and> \<not> gt \<or> \<not> lt \<and> equals a b \<and> \<not> gt \<or> \<not> lt \<and> \<not> equals a b \<and> gt) \<and>
    compareOp ''<='' a b = VBool (lt \<or> equals a b) \<and> compareOp ''>='' a b = VBool (gt \<or> equals a b) \<and>
    compareOp ''<'' b a = VBool gt \<and> compareOp ''>'' b a = VBool lt"
proof -
  obtain c where c: "compareValues a b = (c, True)" using assms(1) by (cases "compareValues a b") auto
  have swap: "compareValues b a = (- c, True)"
    using assms(1) c by (cases rule: compareValues_cases)
      (auto simp: compareValues_def cmpInt64_def cmpFloat64_def f_less_def strings_Compare_def cmpBool_def)
  have nn: "normalize a \<noteq> VNull" "normalize b \<noteq> VNull" using assms(1) by (cases rule: compareValues_cases; simp)+
  have idem: "normalize (normalize v) = normalize v" for v by (simp add: Values.normalize_def split: val.splits)
  have "compareValues (normalize a) (normalize b) = (c, True)" "compareValues (normalize b) (normalize a) = (- c, True)"
    using c swap by (simp_all add: compareValues_def idem)
  then show ?thesis using nn assms(2,3) compare_zero [OF c assms(2,3)] by (auto simp: compareOp_def)
qed

theorem comparison_trichotomy_witness:
  "compareOp ''<'' (VInt 1) (VFloat 0x4000000000000000) = VBool True \<and> \<not> equals (VInt 1) (VFloat 0x4000000000000000) \<and>
   compareOp ''>='' (VInt 1) (VFloat 0x4000000000000000) = VBool False"
proof -
  have a: "snd (compareValues (VInt 1) (VFloat 0x4000000000000000))" by code_simp
  have b: "\<not> isNaN (normalize (VInt 1))" "\<not> isNaN (normalize (VFloat 0x4000000000000000))" by code_simp+
  have c: "compareOp ''<'' (VInt 1) (VFloat 0x4000000000000000) = VBool True" by code_simp
  from comparison_trichotomy [OF a b] c show ?thesis by auto
qed

lemma equality_list_known: "fst (equality_list xs ys known) \<Longrightarrow> snd (equality_list xs ys known)"
  by (induction xs arbitrary: ys known; rename_tac ys known; case_tac ys) (auto split: prod.splits if_splits)

lemma equality_map_known: "fst (equality_map xs ys known) \<Longrightarrow> snd (equality_map xs ys known)"
  by (induction xs arbitrary: known) (auto split: prod.splits if_splits option.splits)

lemma equality_known: "fst (equality a b) \<Longrightarrow> snd (equality a b)"
  unfolding equality.simps [of a b] Let_def
  by (cases "normalize a"; cases "normalize b") (auto simp: equality_list_known equality_map_known split: if_splits)

text \<open>
  C17. \<^verbatim>\<open>IN\<close> is the disjunction of the equalities: on a list it gives what \<^verbatim>\<open>x = y1 OR x = y2 OR ...\<close> gives in
  the three-valued logic of \<^verbatim>\<open>boolOp\<close>, nulls included, although it stops at the first match.
\<close>

theorem in_list_is_disjunction:
  "inList needle (VList items) = Inr (foldr (\<lambda>item acc. boolValue (equalityOp needle item False) acc True) items (VBool False))"
proof -
  let ?f = "\<lambda>items. foldr (\<lambda>item acc. boolValue (equalityOp needle item False) acc True) items (VBool False)"
  have bool: "?f is \<in> {VNull, VBool True, VBool False}" for "is" by (cases "is") (auto simp: boolValue_def)
  have "in_items needle is u = (if ?f is = VBool True then VBool True else if u \<or> ?f is = VNull then VNull else VBool False)" for "is" u
  proof (induction "is" arbitrary: u)
    case (Cons i "is")
    obtain e k where ek: "equality needle i = (e, k)" by (cases "equality needle i")
    have "e \<Longrightarrow> k" using equality_known [of needle i] ek by simp
    then show ?case using Cons bool [of "is"] ek by (auto simp: boolValue_def equalityOp_def truthy_def)
  qed simp
  then show ?thesis using bool [of items] by (auto simp: inList_def)
qed

end
