(* ===== verification/Go_Strings.thy ===== *)
theory Go_Strings
  imports Exec_Value
begin

text \<open>
  What the executor uses of Go's string library: UTF-8 decoding and encoding, searching, splitting and
  replacing, trimming, and the decimal form of integers, each as the Go library defines it.
\<close>

section \<open>UTF-8\<close>

text \<open>A \<^verbatim>\<open>rune\<close> is a natural number. \<open>DecodeRune s\<close> is the first rune of \<open>s\<close> with its width; an invalid or
  truncated sequence gives \<open>RuneError\<close> with width 1.\<close>

definition RuneError :: nat where
  "RuneError = 0xFFFD"

definition is_cont :: "byte \<Rightarrow> bool" where
  "is_cont b \<longleftrightarrow> 0x80 \<le> b \<and> b \<le> 0xBF"

definition second_lo :: "byte \<Rightarrow> byte" where
  "second_lo b = (if b = 0xE0 then 0xA0 else if b = 0xF0 then 0x90 else 0x80)"

definition second_hi :: "byte \<Rightarrow> byte" where
  "second_hi b = (if b = 0xED then 0x9F else if b = 0xF4 then 0x8F else 0xBF)"

definition DecodeRune :: "bytes \<Rightarrow> nat \<times> nat" where
  "DecodeRune s =
     (case s of
        [] \<Rightarrow> (RuneError, 0)
      | b0 # s1 \<Rightarrow>
          if b0 < 0x80 then (unat b0, 1)
          else if b0 < 0xC2 \<or> 0xF4 < b0 then (RuneError, 1)
          else case s1 of
            [] \<Rightarrow> (RuneError, 1)
          | b1 # s2 \<Rightarrow>
              if b1 < second_lo b0 \<or> second_hi b0 < b1 then (RuneError, 1)
              else if b0 < 0xE0 then ((unat b0 - 0xC0) * 64 + (unat b1 - 0x80), 2)
              else case s2 of
                [] \<Rightarrow> (RuneError, 1)
              | b2 # s3 \<Rightarrow>
                  if \<not> is_cont b2 then (RuneError, 1)
                  else if b0 < 0xF0
                  then ((unat b0 - 0xE0) * 4096 + (unat b1 - 0x80) * 64 + (unat b2 - 0x80), 3)
                  else case s3 of
                    [] \<Rightarrow> (RuneError, 1)
                  | b3 # _ \<Rightarrow>
                      if \<not> is_cont b3 then (RuneError, 1)
                      else ((unat b0 - 0xF0) * 262144 + (unat b1 - 0x80) * 4096 + (unat b2 - 0x80) * 64
                              + (unat b3 - 0x80), 4))"

definition valid_rune :: "nat \<Rightarrow> bool" where
  "valid_rune r \<longleftrightarrow> r < 0xD800 \<or> (0xDFFF < r \<and> r \<le> 0x10FFFF)"

definition EncodeRune :: "nat \<Rightarrow> bytes" where
  "EncodeRune rune =
     (let r = (if valid_rune rune then rune else RuneError)
      in if r < 0x80 then [of_nat r]
         else if r < 0x800 then [of_nat (0xC0 + r div 64), of_nat (0x80 + r mod 64)]
         else if r < 0x10000
         then [of_nat (0xE0 + r div 4096), of_nat (0x80 + r div 64 mod 64), of_nat (0x80 + r mod 64)]
         else [of_nat (0xF0 + r div 262144), of_nat (0x80 + r div 4096 mod 64), of_nat (0x80 + r div 64 mod 64),
               of_nat (0x80 + r mod 64)])"

lemma DecodeRune_width: "0 < snd (DecodeRune (b # s))" "snd (DecodeRune s) \<le> length s"
  by (auto simp: DecodeRune_def split: list.splits)

lemma drop_rune [termination_simp]: "s \<noteq> [] \<Longrightarrow> length s - snd (DecodeRune s) < length s"
  using DecodeRune_width(1) [of "hd s" "tl s"] by (cases s) auto

text \<open>The conversions \<^verbatim>\<open>[]rune(s)\<close> and \<^verbatim>\<open>string(runes)\<close>, and the pieces of a string, one per rune.\<close>

fun runes :: "bytes \<Rightarrow> nat list" where
  "runes s = (if s = [] then [] else fst (DecodeRune s) # runes (drop (snd (DecodeRune s)) s))"

declare runes.simps [simp del]

definition string_of_runes :: "nat list \<Rightarrow> bytes" where
  "string_of_runes rs = concat (map EncodeRune rs)"

fun explode :: "bytes \<Rightarrow> bytes list" where
  "explode s = (if s = [] then [] else take (snd (DecodeRune s)) s # explode (drop (snd (DecodeRune s)) s))"

declare explode.simps [simp del]

lemma byte_less_iff: "n < 256 \<Longrightarrow> m < 256 \<Longrightarrow> (of_nat n :: byte) < of_nat m \<longleftrightarrow> n < m"
  by (simp add: word_less_nat_alt unat_of_nat)

lemma byte_le_iff: "n < 256 \<Longrightarrow> m < 256 \<Longrightarrow> (of_nat n :: byte) \<le> of_nat m \<longleftrightarrow> n \<le> m"
  by (simp add: word_le_nat_alt unat_of_nat)

lemma byte_eq_iff: "n < 256 \<Longrightarrow> m < 256 \<Longrightarrow> (of_nat n :: byte) = of_nat m \<longleftrightarrow> n = m"
  by (simp add: word_unat_eq_iff unat_of_nat)

lemma byte_unat: "n < 256 \<Longrightarrow> unat (of_nat n :: byte) = n"
  by (simp add: unat_of_nat)

lemma byte_cmp_numeral:
  assumes "n < 256" and "numeral k < (256 :: nat)"
  shows "(of_nat n :: byte) < numeral k \<longleftrightarrow> n < numeral k" "numeral k < (of_nat n :: byte) \<longleftrightarrow> numeral k < n"
    "(of_nat n :: byte) \<le> numeral k \<longleftrightarrow> n \<le> numeral k" "numeral k \<le> (of_nat n :: byte) \<longleftrightarrow> numeral k \<le> n"
    "(of_nat n :: byte) = numeral k \<longleftrightarrow> n = numeral k"
  using byte_less_iff [OF assms] byte_less_iff [OF assms(2,1)] byte_le_iff [OF assms] byte_le_iff [OF assms(2,1)]
    byte_eq_iff [OF assms] by simp_all

lemma digits64:
  "(r :: nat) = r div 4096 * 4096 + r div 64 mod 64 * 64 + r mod 64"
  "(r :: nat) = r div 262144 * 262144 + r div 4096 mod 64 * 4096 + r div 64 mod 64 * 64 + r mod 64"
proof -
  have d: "r div 4096 = r div 64 div 64" "r div 262144 = r div 64 div 64 div 64" by (simp_all flip: div_mult2_eq)
  show "r = r div 4096 * 4096 + r div 64 mod 64 * 64 + r mod 64"
    unfolding d using div_mult_mod_eq [of r 64] div_mult_mod_eq [of "r div 64" 64] by linarith
  show "r = r div 262144 * 262144 + r div 4096 mod 64 * 4096 + r div 64 mod 64 * 64 + r mod 64"
    unfolding d using div_mult_mod_eq [of r 64] div_mult_mod_eq [of "r div 64" 64] div_mult_mod_eq [of "r div 64 div 64" 64]
    by linarith
qed

lemma decode_encode:
  assumes "valid_rune r"
  shows "DecodeRune (EncodeRune r @ s) = (r, length (EncodeRune r))"
proof -
  consider "r < 0x80" | "0x80 \<le> r" "r < 0x800" | "0x800 \<le> r" "r < 0x10000" | "0x10000 \<le> r" "r \<le> 0x10FFFF"
    using assms by (fastforce simp: valid_rune_def)
  then show ?thesis
  proof cases
    case 1
    then show ?thesis using assms by (simp add: EncodeRune_def DecodeRune_def byte_cmp_numeral byte_unat)
  next
    case 2
    have "r div 64 < 32" "2 \<le> r div 64" "r mod 64 < 64" using 2 by simp_all
    then show ?thesis using 2 assms
      by (simp add: EncodeRune_def DecodeRune_def byte_cmp_numeral byte_unat second_lo_def second_hi_def del: of_nat_add)
  next
    case 3
    define a b c where "a = r div 4096" "b = r div 64 mod 64" "c = r mod 64"
    have abc: "a < 16" "b < 64" "c < 64" "r = a * 4096 + b * 64 + c" using 3 digits64(1) [of r] unfolding a_b_c_def by simp_all
    have enc: "EncodeRune r = [of_nat (0xE0 + a), of_nat (0x80 + b), of_nat (0x80 + c)]"
      using 3 assms by (simp add: EncodeRune_def a_b_c_def)
    have "a \<noteq> 0 \<or> 32 \<le> b" "a \<noteq> 13 \<or> b < 32" using 3 assms abc by (auto simp: valid_rune_def)
    then show ?thesis unfolding enc using abc(1-3)
      by (auto simp: DecodeRune_def byte_cmp_numeral byte_unat second_lo_def second_hi_def is_cont_def abc(4)
          simp del: of_nat_add)
  next
    case 4
    define a b c d where "a = r div 262144" "b = r div 4096 mod 64" "c = r div 64 mod 64" "d = r mod 64"
    have abc: "a \<le> 4" "b < 64" "c < 64" "d < 64" "r = a * 262144 + b * 4096 + c * 64 + d"
      using 4 digits64(2) [of r] unfolding a_b_c_d_def by simp_all
    have enc: "EncodeRune r = [of_nat (0xF0 + a), of_nat (0x80 + b), of_nat (0x80 + c), of_nat (0x80 + d)]"
      using 4 assms by (simp add: EncodeRune_def a_b_c_d_def)
    have "a \<noteq> 0 \<or> 16 \<le> b" "a \<noteq> 4 \<or> b < 16" using 4 abc by auto
    then show ?thesis unfolding enc using abc(1-4)
      by (auto simp: DecodeRune_def byte_cmp_numeral byte_unat second_lo_def second_hi_def is_cont_def abc(5)
          simp del: of_nat_add)
  qed
qed

lemma EncodeRune_not_Nil [simp]: "EncodeRune r \<noteq> []"
  by (simp add: EncodeRune_def Let_def)

lemma runes_string:
  "(\<And>r. r \<in> set rs \<Longrightarrow> valid_rune r) \<Longrightarrow> runes (string_of_runes rs) = rs"
proof (induction rs)
  case Nil
  then show ?case by (simp add: string_of_runes_def runes.simps)
next
  case (Cons r rs)
  then show ?case
    using decode_encode [of r "concat (map EncodeRune rs)"]
    by (simp add: runes.simps [of "EncodeRune r @ concat (map EncodeRune rs)"] string_of_runes_def)
qed

lemma concat_explode: "concat (explode s) = s"
  by (induction s rule: explode.induct) (simp add: explode.simps)

lemma length_explode: "length (explode s) = length (runes s)"
  by (induction s rule: explode.induct) (simp add: explode.simps runes.simps)

section \<open>Searching and replacing\<close>

text \<open>\<open>cut sep s\<close> are the parts of \<open>s\<close> before and after the first occurrence of \<open>sep\<close>.\<close>

fun cut :: "bytes \<Rightarrow> bytes \<Rightarrow> (bytes \<times> bytes) option" where
  "cut sep s =
     (if prefix sep s then Some ([], drop (length sep) s)
      else case s of [] \<Rightarrow> None | c # t \<Rightarrow> map_option (\<lambda>(a, b). (c # a, b)) (cut sep t))"

declare cut.simps [simp del]

lemma cut_Some: "cut sep s = Some (a, b) \<Longrightarrow> s = a @ sep @ b"
proof (induction s arbitrary: a b)
  case Nil
  then show ?case by (auto simp: cut.simps [of sep "[]"] split: if_splits)
next
  case (Cons c s)
  then show ?case by (auto simp: cut.simps [of sep "c # s"] prefix_def split: if_splits)
qed

lemma cut_smaller [termination_simp]: "sep \<noteq> [] \<Longrightarrow> cut sep s = Some (a, b) \<Longrightarrow> length b < length s"
  by (drule cut_Some) simp

fun genSplit :: "bytes \<Rightarrow> bytes \<Rightarrow> bytes list" where
  "genSplit sep s =
     (if sep = [] then [s] else case cut sep s of None \<Rightarrow> [s] | Some (a, b) \<Rightarrow> a # genSplit sep b)"

fun replace :: "bytes \<Rightarrow> bytes \<Rightarrow> bytes \<Rightarrow> bytes" where
  "replace old new s =
     (if old = [] then s else case cut old s of None \<Rightarrow> s | Some (a, b) \<Rightarrow> a @ new @ replace old new b)"

declare genSplit.simps [simp del] replace.simps [simp del]

definition strings_Split :: "bytes \<Rightarrow> bytes \<Rightarrow> bytes list" where
  "strings_Split s sep = (if sep = [] then explode s else genSplit sep s)"

definition strings_ReplaceAll :: "bytes \<Rightarrow> bytes \<Rightarrow> bytes \<Rightarrow> bytes" where
  "strings_ReplaceAll s old new =
     (if old = new then s
      else if old = [] then new @ concat (map (\<lambda>p. p @ new) (explode s))
      else replace old new s)"

fun join :: "bytes \<Rightarrow> bytes list \<Rightarrow> bytes" where
  "join sep [] = []"
| "join sep [s] = s"
| "join sep (s # t # ts) = s @ sep @ join sep (t # ts)"

lemma genSplit_not_Nil [simp]: "genSplit sep s \<noteq> []"
  by (simp add: genSplit.simps split: option.splits)

lemma join_Cons: "ts \<noteq> [] \<Longrightarrow> join sep (s # ts) = s @ sep @ join sep ts"
  by (cases ts) auto

lemma join_genSplit: "sep \<noteq> [] \<Longrightarrow> join sep (genSplit sep s) = s"
proof (induction sep s rule: genSplit.induct)
  case (1 sep s)
  then show ?case
    by (cases "cut sep s") (auto simp: genSplit.simps [of sep s] join_Cons dest: cut_Some)
qed

lemma replace_join: "old \<noteq> [] \<Longrightarrow> replace old new s = join new (genSplit old s)"
proof (induction old new s rule: replace.induct)
  case (1 old new s)
  then show ?case
    by (cases "cut old s") (auto simp: genSplit.simps [of old s] replace.simps [of old new s] join_Cons)
qed

lemma join_empty: "join [] ss = concat ss"
  by (induction "[] :: bytes" ss rule: join.induct) auto

section \<open>Spaces, letters and numbers\<close>

definition unicode_IsSpace :: "nat \<Rightarrow> bool" where
  "unicode_IsSpace r \<longleftrightarrow>
     (9 \<le> r \<and> r \<le> 13) \<or> r \<in> {0x20, 0x85, 0xA0, 0x1680, 0x2028, 0x2029, 0x202F, 0x205F, 0x3000} \<or> (0x2000 \<le> r \<and> r \<le> 0x200A)"

text \<open>\<open>last_start s n\<close> goes back over at most \<open>n\<close> continuation bytes to the start of the last rune.\<close>

fun last_start :: "bytes \<Rightarrow> nat \<Rightarrow> nat \<Rightarrow> nat" where
  "last_start s 0 i = i"
| "last_start s (Suc n) i = (if i = 0 \<or> \<not> is_cont (s ! i) then i else last_start s n (i - 1))"

definition DecodeLastRune :: "bytes \<Rightarrow> nat \<times> nat" where
  "DecodeLastRune s =
     (if s = [] then (RuneError, 0)
      else if last s < 0x80 then (unat (last s), 1)
      else let start = last_start s 3 (length s - 1); (r, n) = DecodeRune (drop start s)
           in if start + n \<noteq> length s then (RuneError, 1) else (r, n))"

fun trimLeft :: "bytes \<Rightarrow> bytes" where
  "trimLeft s =
     (if s = [] \<or> \<not> unicode_IsSpace (fst (DecodeRune s)) then s else trimLeft (drop (snd (DecodeRune s)) s))"

lemma last_start_le: "last_start s n i \<le> i"
  by (induction s n i rule: last_start.induct) auto

lemma DecodeLastRune_width [termination_simp]:
  assumes "s \<noteq> []"
  shows "length s - snd (DecodeLastRune s) < length s"
proof -
  define start where "start = last_start s 3 (length s - 1)"
  have "start < length s" using last_start_le [of s 3 "length s - 1"] assms by (simp add: start_def) (cases s; simp)
  then have "0 < snd (DecodeRune (drop start s))"
    using DecodeRune_width(1) [of "hd (drop start s)" "tl (drop start s)"] by simp
  then show ?thesis using assms by (auto simp: DecodeLastRune_def Let_def start_def split: prod.split)
qed

fun trimRight :: "bytes \<Rightarrow> bytes" where
  "trimRight s =
     (if s = [] \<or> \<not> unicode_IsSpace (fst (DecodeLastRune s)) then s
      else trimRight (take (length s - snd (DecodeLastRune s)) s))"

declare trimLeft.simps [simp del] trimRight.simps [simp del]

definition TrimSpace :: "bytes \<Rightarrow> bytes" where
  "TrimSpace s = trimRight (trimLeft s)"

definition ascii :: "bytes \<Rightarrow> bool" where
  "ascii s \<longleftrightarrow> (\<forall>b \<in> set s. b < 0x80)"

definition lower :: "byte \<Rightarrow> byte" where
  "lower b = (if 0x41 \<le> b \<and> b \<le> 0x5A then b + 0x20 else b)"

definition upper :: "byte \<Rightarrow> byte" where
  "upper b = (if 0x61 \<le> b \<and> b \<le> 0x7A then b - 0x20 else b)"

text \<open>\<^verbatim>\<open>strconv.ParseInt(s, 10, 64)\<close>, without its error values, and \<^verbatim>\<open>strconv.FormatInt(i, 10)\<close>.\<close>

fun parse_digits :: "bytes \<Rightarrow> int \<Rightarrow> int option" where
  "parse_digits [] n = Some n"
| "parse_digits (b # s) n = (if 0x30 \<le> b \<and> b \<le> 0x39 then parse_digits s (10 * n + uint (b - 0x30)) else None)"

definition ParseInt :: "bytes \<Rightarrow> i64 option" where
  "ParseInt s =
     (let (neg, d) = (case s of [] \<Rightarrow> (False, []) | b # t \<Rightarrow> if b = 0x2B then (False, t) else if b = 0x2D then (True, t) else (False, s))
      in if d = [] then None
         else case parse_digits d 0 of
           None \<Rightarrow> None
         | Some n \<Rightarrow>
             if neg then (if n \<le> 2 ^ 63 then Some (word_of_int (- n)) else None)
             else if n < 2 ^ 63 then Some (word_of_int n) else None)"

definition FormatInt :: "i64 \<Rightarrow> bytes" where
  "FormatInt i = (if sint i < 0 then [0x2D] @ decimal (nat (- sint i)) else decimal (nat (sint i)))"

lemma parse_digits_append: "parse_digits (s @ t) n = (case parse_digits s n of None \<Rightarrow> None | Some m \<Rightarrow> parse_digits t m)"
  by (induction s n rule: parse_digits.induct) auto

lemma digit_byte:
  assumes "n < 10"
  shows "(0x30 :: byte) \<le> of_nat (48 + n)" "(of_nat (48 + n) :: byte) \<le> 0x39" "uint (of_nat (48 + n) - 0x30 :: byte) = int n"
proof -
  show "(0x30 :: byte) \<le> of_nat (48 + n)" "(of_nat (48 + n) :: byte) \<le> 0x39"
    using assms by (simp_all add: byte_cmp_numeral del: of_nat_add)
  have "(of_nat (48 + n) - 0x30 :: byte) = of_nat n" by simp
  then show "uint (of_nat (48 + n) - 0x30 :: byte) = int n" using assms by (simp add: unsigned_of_nat take_bit_nat_eq_self)
qed

lemma parse_decimal: "parse_digits (decimal n) 0 = Some (int n)"
proof (induction n rule: decimal.induct)
  case (1 n)
  show ?case
  proof (cases "n < 10")
    case True
    then show ?thesis using digit_byte [OF True] by (simp add: decimal.simps [of n] del: of_nat_add)
  next
    case False
    have "n mod 10 < 10" by simp
    from digit_byte [OF this] 1 [OF False] False show ?thesis
      by (simp add: decimal.simps [of n] parse_digits_append del: of_nat_add) (simp add: zdiv_int zmod_int)
  qed
qed

lemma decimal_start: "decimal n = b # s \<Longrightarrow> 0x30 \<le> b"
proof (induction n arbitrary: b s rule: decimal.induct)
  case (1 n)
  show ?case
  proof (cases "n < 10")
    case True
    then show ?thesis using 1(2) digit_byte [OF True] by (simp add: decimal.simps [of n] del: of_nat_add)
  next
    case False
    have "decimal m \<noteq> []" for m by (simp add: decimal.simps [of m])
    then show ?thesis using 1 False by (cases "decimal (n div 10)") (auto simp: decimal.simps [of n])
  qed
qed

lemma ParseInt_FormatInt: "ParseInt (FormatInt i) = Some i"
proof -
  have ne: "decimal n \<noteq> []" for n by (simp add: decimal.simps [of n])
  have b: "- (2 ^ 63) \<le> sint i" "sint i < 2 ^ 63" using sint_i64_bounds [of i] by simp_all
  show ?thesis
  proof (cases "sint i < 0")
    case True
    then show ?thesis using b ne by (simp add: FormatInt_def ParseInt_def parse_decimal)
  next
    case False
    obtain c s where cs: "decimal (nat (sint i)) = c # s" using ne by (cases "decimal (nat (sint i))") auto
    have "(0x30 :: byte) \<le> c" using decimal_start [OF cs] .
    then have "c \<noteq> 0x2B" "c \<noteq> 0x2D" by auto
    then show ?thesis using False b cs parse_decimal [of "nat (sint i)"] by (simp add: FormatInt_def ParseInt_def)
  qed
qed

end
