(* ===== verification/Exec_Context.thy ===== *)
theory Exec_Context
  imports Go_Strings
begin

text \<open>
  The context of an execution (\<^verbatim>\<open>exec/exec.go\<close>): the transaction, the parameters, the caches of dictionary
  lookups and compiled patterns, the fixed timestamp and the cancellation check.
\<close>

section \<open>The library and the environment\<close>

text \<open>
  What an execution uses besides the query and the data: the operations of the transaction, the parts
  of the Go library that are tables or algorithms of their own (case mapping beyond ASCII, printing
  and parsing of floats, regular expressions, the conversion of a float outside the range of
  \<^verbatim>\<open>int64\<close>, which Go leaves to the implementation), and what an execution observes of its environment:
  the cancellation, the clock and the random numbers, each a function of the moment of observation.
\<close>

record 's World =
  Store :: "'s Txn"
  unicode_ToUpper :: "bytes \<Rightarrow> bytes"
  unicode_ToLower :: "bytes \<Rightarrow> bytes"
  ParseFloat :: "bytes \<Rightarrow> f64 option"
  FormatFloat :: "f64 \<Rightarrow> bytes"
  fmt_v :: "f64 \<Rightarrow> bytes"
  fmt_g :: "f64 \<Rightarrow> bytes"
  regexp_Compile :: "bytes \<Rightarrow> (bytes \<Rightarrow> bool) option"
  float_overflow :: "f64 \<Rightarrow> i64"
  Ctx_Err :: "nat \<Rightarrow> error option"
  UnixMilli :: "nat \<Rightarrow> i64"
  rand_Float64 :: "nat \<Rightarrow> f64"

definition ToUpper :: "'s World \<Rightarrow> bytes \<Rightarrow> bytes" where
  "ToUpper W s = (if ascii s then map upper s else unicode_ToUpper W s)"

definition ToLower :: "'s World \<Rightarrow> bytes \<Rightarrow> bytes" where
  "ToLower W s = (if ascii s then map lower s else unicode_ToLower W s)"

definition int64_conv :: "'s World \<Rightarrow> f64 \<Rightarrow> i64" where
  "int64_conv W f =
     (if f_isNaN f \<or> f_isInf f \<or> \<not> fits (f_trunc f) then float_overflow W f else int64_of_float f)"

section \<open>The context of an execution\<close>

text \<open>
  The fields of \<^verbatim>\<open>Context\<close> that change during an execution, with the state of the transaction; \<open>moment\<close>
  counts the observations of the environment. The open cursors belong to the operators.
\<close>

record 's Context =
  ctxTxn :: 's
  Params :: "bytes \<rightharpoonup> val"
  MaxRows :: i64
  keyIDs :: "bytes \<rightharpoonup> u32"
  labelIDs :: "bytes \<rightharpoonup> u32"
  regexps :: "bytes \<rightharpoonup> (bytes \<Rightarrow> bool)"
  now :: i64
  moment :: nat

type_synonym binding = "bytes \<rightharpoonup> val"

definition query :: "('s \<Rightarrow> 'a result) \<Rightarrow> ('s Context, 'a) act" where
  "query f c = (f (ctxTxn c), c)"

definition onTxn :: "('s, 'a) act \<Rightarrow> ('s Context, 'a) act" where
  "onTxn a c = (case a (ctxTxn c) of (r, s) \<Rightarrow> (r, c\<lparr>ctxTxn := s\<rparr>))"

definition observe :: "(nat \<Rightarrow> 'a) \<Rightarrow> ('s Context, 'a) act" where
  "observe f c = (Inr (f (moment c)), c\<lparr>moment := Suc (moment c)\<rparr>)"

fun mapA :: "('a \<Rightarrow> ('s, 'b) act) \<Rightarrow> 'a list \<Rightarrow> ('s, 'b list) act" where
  "mapA f [] = ret []"
| "mapA f (x # xs) = bnd (f x) (\<lambda>y. bnd (mapA f xs) (\<lambda>ys. ret (y # ys)))"

lemma mapA_cong [fundef_cong]: "xs = ys \<Longrightarrow> (\<And>x. x \<in> set ys \<Longrightarrow> f x = g x) \<Longrightarrow> mapA f xs = mapA g ys"
  by (induction ys arbitrary: xs) auto

definition check :: "'s World \<Rightarrow> ('s Context, unit) act" where
  "check W = bnd (observe (Ctx_Err W)) (\<lambda>e. case e of None \<Rightarrow> ret () | Some e \<Rightarrow> throw e)"

definition ctx_regexp :: "'s World \<Rightarrow> bytes \<Rightarrow> ('s Context, bytes \<Rightarrow> bool) act" where
  "ctx_regexp W pattern c =
     (case regexps c pattern of
        Some re \<Rightarrow> (Inr re, c)
      | None \<Rightarrow>
          (case regexp_Compile W (str ''^(?:'' @ pattern @ str '')$'') of
             None \<Rightarrow> (Inl (ErrExec ''invalid regular expression''), c)
           | Some re \<Rightarrow> (Inr re, c\<lparr>regexps := (regexps c)(pattern \<mapsto> re)\<rparr>)))"

definition timestamp :: "'s World \<Rightarrow> ('s Context, i64) act" where
  "timestamp W c =
     (if now c = 0 then bnd (observe (UnixMilli W)) (\<lambda>t c. (Inr t, c\<lparr>now := t\<rparr>)) c else (Inr (now c), c))"

definition lookupKey :: "'s World \<Rightarrow> bytes \<Rightarrow> ('s Context, u32 \<times> bool) act" where
  "lookupKey W name c =
     (case keyIDs c name of
        Some i \<Rightarrow> (Inr (i, True), c)
      | None \<Rightarrow>
          (case LookupKey (Store W) name (ctxTxn c) of
             Inl e \<Rightarrow> (Inl e, c)
           | Inr (i, found) \<Rightarrow> (Inr (i, found), if found then c\<lparr>keyIDs := (keyIDs c)(name \<mapsto> i)\<rparr> else c)))"

definition lookupLabel :: "'s World \<Rightarrow> bytes \<Rightarrow> ('s Context, u32 \<times> bool) act" where
  "lookupLabel W name c =
     (case labelIDs c name of
        Some i \<Rightarrow> (Inr (i, True), c)
      | None \<Rightarrow>
          (case LookupLabel (Store W) name (ctxTxn c) of
             Inl e \<Rightarrow> (Inl e, c)
           | Inr (i, found) \<Rightarrow> (Inr (i, found), if found then c\<lparr>labelIDs := (labelIDs c)(name \<mapsto> i)\<rparr> else c)))"

section \<open>Printing\<close>

definition node_val :: "Node \<Rightarrow> val" where
  "node_val n = VNode (NID n) (Labels (NRec n)) (Props (NRec n))"

text \<open>\<^verbatim>\<open>%v\<close>: elements are separated by a space, maps are printed in the order of their keys.\<close>

definition spaced :: "bytes list \<Rightarrow> bytes" where
  "spaced xs = join (str '' '') xs"

fun sprint_v :: "'s World \<Rightarrow> val \<Rightarrow> bytes" where
  "sprint_v W VNull = str ''<nil>''"
| "sprint_v W (VBool x) = (if x then str ''true'' else str ''false'')"
| "sprint_v W (VInt i) = FormatInt i"
| "sprint_v W (VGoInt i) = FormatInt i"
| "sprint_v W (VFloat f) = fmt_v W f"
| "sprint_v W (VStr s) = s"
| "sprint_v W (VList vs) = str ''['' @ spaced (map (\<lambda>v. sprint_v W v) vs) @ str '']''"
| "sprint_v W (VMap m) =
     str ''map['' @ spaced (map (\<lambda>(k, s). k @ str '':'' @ s) (sort_key fst (map (\<lambda>(k, v). (k, sprint_v W v)) m))) @ str '']''"
| "sprint_v W (VNode i ls ps) =
     str ''{'' @ decimal (unat i) @ str '' {['' @ spaced (map (\<lambda>l. decimal (unat l)) ls) @ str ''] map['' @
     spaced (map (\<lambda>(k, s). decimal (unat k) @ str '':'' @ s) (sort_key fst (map (\<lambda>(k, v). (k, sprint_v W v)) ps))) @ str '']}}''"
| "sprint_v W (VEdge i t a b ps) =
     str ''{'' @ decimal (unat i) @ str '' {'' @ spaced [decimal (unat t), decimal (unat a), decimal (unat b)] @ str '' map['' @
     spaced (map (\<lambda>(k, s). decimal (unat k) @ str '':'' @ s) (sort_key fst (map (\<lambda>(k, v). (k, sprint_v W v)) ps))) @ str '']}}''"
| "sprint_v W (VRels rs) = str ''['' @ spaced (map (\<lambda>v. sprint_v W v) rs) @ str '']''"
| "sprint_v W (VPath ns rs) =
     str ''{['' @ spaced (map (\<lambda>v. sprint_v W v) ns) @ str ''] ['' @ spaced (map (\<lambda>v. sprint_v W v) rs) @ str '']}''"

end
