(* ===== verification/Exec_Func.thy ===== *)
theory Exec_Func
  imports Exec_Context
begin

text \<open>
  The scalar functions of the query language (\<^verbatim>\<open>exec/functions.go\<close>), the registry they are called through,
  and what the functions on integers and strings compute.
\<close>

section \<open>Exact results\<close>

text \<open>Rounding keeps a number that is a float: an operation on floats whose exact result is a float returns
  that float. In particular the arithmetic on integers of up to 53 bits is exact.\<close>

lemma f_unit_not_neg [simp]: "\<not> f_unit < 0"
  by (simp add: f_unit_def)

lemma bitlen_eqI: "0 < n \<Longrightarrow> 2 ^ k \<le> n \<Longrightarrow> n < 2 ^ Suc k \<Longrightarrow> bitlen n = Suc k"
  using bitlen_le_iff [of n "Suc k"] bitlen_le_iff [of n k] by linarith

lemma round_div_exact: "d \<noteq> 0 \<Longrightarrow> 0 \<le> d \<Longrightarrow> round_div (q * d) d = q"
  by (simp add: round_div_def Let_def)

lemma round_mag_mag:
  assumes "0 \<le> b" "b \<le> inf_bits"
  shows "round_mag (mag b) 1 = b"
proof (cases "b div 2 ^ 52 = 0")
  case True
  then have m: "mag b = b" "0 \<le> b" "b < 2 ^ 52" using assms by (auto simp: mag_def)
  then have "bitlen b - 53 = 0" using bitlen_le_iff [of b 53] by (cases "b = 0") (auto simp: bitlen.simps)
  then show ?thesis using m assms round_div_exact [of 1 b] by (simp add: round_mag_def)
next
  case False
  define e m where "e = nat (b div 2 ^ 52 - 1)" "m = b mod 2 ^ 52"
  have "1 \<le> b div 2 ^ 52" using False pos_imp_zdiv_nonneg_iff [of "2 ^ 52" b] assms(1) by simp
  then have b: "b = (int e + 1) * 2 ^ 52 + m" "0 \<le> m" "m < 2 ^ 52" by (simp_all add: e_m_def)
  have mag: "mag b = (2 ^ 52 + m) * 2 ^ e" using False by (simp add: mag_def e_m_def)
  have "bitlen (mag b) = Suc (52 + e)" unfolding mag
    using b by (intro bitlen_eqI) (simp_all add: power_add)
  then have "bitlen (mag b) - 53 = e" by simp
  moreover have "round_div (mag b) (2 ^ e) = 2 ^ 52 + m" unfolding mag by (rule round_div_exact) simp_all
  ultimately show ?thesis using assms(2) b(1) by (simp add: round_mag_def)
qed

lemma round_div_scale: "0 < k \<Longrightarrow> round_div (k * n) (k * d) = round_div n d"
proof -
  assume k: "0 < k"
  have "k * d < 2 * (k * r) \<longleftrightarrow> d < 2 * r" "k * d = 2 * (k * r) \<longleftrightarrow> d = 2 * r" for r
    using mult_less_cancel_left_pos [OF k, of d "2 * r"] mult_cancel_left [of k d "2 * r"] k by (simp_all add: mult.left_commute)
  then show ?thesis using k by (simp add: round_div_def Let_def)
qed

lemma round_mag_scale: "0 < k \<Longrightarrow> round_mag (k * n) (k * d) = round_mag n d"
  using round_div_scale [of k n "d * 2 ^ s" for s] by (simp add: round_mag_def Let_def mult.assoc)

lemma f_pack_exact:
  assumes "f_num f \<noteq> 0" "\<not> f_isNaN f"
  shows "f_pack (f_num f < 0) (round_mag \<bar>f_num f\<bar> 1) = f"
proof -
  have b: "0 \<le> f_abs_bits f" "f_abs_bits f \<le> inf_bits" using assms f_abs_bits_bounds [of f] by (auto simp: f_isNaN_def)
  have "f_num f < 0 \<longleftrightarrow> f_neg f" "\<bar>f_num f\<bar> = mag (f_abs_bits f)"
    using assms mag_nonneg [OF b(1)] by (auto simp: f_num_def)
  then have "f_pack (f_num f < 0) (round_mag \<bar>f_num f\<bar> 1) = word_of_int (uint f)"
    unfolding uint_f64 f_pack_def by (simp only: round_mag_mag [OF b])
  then show ?thesis by simp
qed

lemma f_int:
  assumes "\<bar>i\<bar> \<le> 2 ^ 53"
  shows "f_num (f_of_int i) = i * f_unit" "\<not> f_isNaN (f_of_int i)" "\<not> f_isInf (f_of_int i)"
    "i \<noteq> 0 \<Longrightarrow> f_pack (i < 0) (round_mag (\<bar>i\<bar> * f_unit) 1) = f_of_int i"
proof -
  show num: "f_num (f_of_int i) = i * f_unit" by (rule f_of_int_exact [OF assms])
  have "\<bar>i\<bar> \<le> 2 ^ 63" using assms by simp
  then show nan: "\<not> f_isNaN (f_of_int i)" "\<not> f_isInf (f_of_int i)" by (rule f_num_of_int(2), rule f_isInf_of_int)
  show "f_pack (i < 0) (round_mag (\<bar>i\<bar> * f_unit) 1) = f_of_int i" if "i \<noteq> 0"
    using f_pack_exact [of "f_of_int i"] that nan by (simp add: num mult_less_0_iff abs_mult)
qed

lemma f_pack_0: "f_pack False 0 = f_of_int 0"
  by (simp add: f_pack_def f_of_int_def)

lemma f_neg_int: "\<bar>i\<bar> \<le> 2 ^ 53 \<Longrightarrow> f_neg (f_of_int i) \<longleftrightarrow> i < 0"
  using f_of_int_fields(2) [of i] by (cases "i = 0") (auto simp: f_of_int_def f_neg_def)

lemma f_num_negate: "f_num (f_negate f) = - f_num f" "f_isNaN (f_negate f) = f_isNaN f" "f_isInf (f_negate f) = f_isInf f"
    "f_neg (f_negate f) \<longleftrightarrow> \<not> f_neg f"
proof -
  have u: "uint (f_negate f) = (if f_neg f then uint f - 2 ^ 63 else uint f + 2 ^ 63)"
    unfolding f_negate_def xor_signBit_add by (rule uint_plus_signBit)
  have "f_abs_bits (f_negate f) = f_abs_bits f" unfolding f_abs_bits_def u
    using uint_lt2p [of f] by (auto simp: f_neg_def)
  moreover show n: "f_neg (f_negate f) \<longleftrightarrow> \<not> f_neg f" 
    using uint_lt2p [of f] unfolding f_neg_def u by (auto simp: f_neg_def)
  ultimately show "f_num (f_negate f) = - f_num f" "f_isNaN (f_negate f) = f_isNaN f" "f_isInf (f_negate f) = f_isInf f"
    by (auto simp: f_num_def f_isNaN_def f_isInf_def)
qed

lemma f_add_exact:
  assumes "\<not> f_isNaN a" "\<not> f_isNaN b" "\<not> f_isInf a" "\<not> f_isInf b" "f_num a + f_num b = i * f_unit" "\<bar>i\<bar> \<le> 2 ^ 53"
    "\<not> (f_neg a \<and> f_neg b \<and> i = 0)"
  shows "f_add a b = f_of_int i"
  using assms f_int(4) [OF assms(6)] by (auto simp: f_add_def Let_def f_pack_0 mult_less_0_iff abs_mult)

lemma f_add_int:
  assumes "\<bar>i\<bar> \<le> 2 ^ 53" "\<bar>j\<bar> \<le> 2 ^ 53" "\<bar>i + j\<bar> \<le> 2 ^ 53"
  shows "f_add (f_of_int i) (f_of_int j) = f_of_int (i + j)"
  using assms f_int [OF assms(1)] f_int [OF assms(2)]
  by (intro f_add_exact) (auto simp: f_neg_int distrib_right)

lemma f_sub_int:
  assumes "\<bar>i\<bar> \<le> 2 ^ 53" "\<bar>j\<bar> \<le> 2 ^ 53" "\<bar>i - j\<bar> \<le> 2 ^ 53"
  shows "f_sub (f_of_int i) (f_of_int j) = f_of_int (i - j)"
  unfolding f_sub_def using assms f_int [OF assms(1)] f_int [OF assms(2)]
  by (intro f_add_exact) (auto simp: f_neg_int f_num_negate left_diff_distrib)

lemma f_div_int:
  assumes "\<bar>i * j\<bar> \<le> 2 ^ 53" "i \<noteq> 0" "j \<noteq> 0"
  shows "f_div (f_of_int (i * j)) (f_of_int j) = f_of_int i"
proof -
  have "1 \<le> \<bar>i\<bar>" "1 \<le> \<bar>j\<bar>" using assms(2,3) by simp_all
  then have "\<bar>i\<bar> \<le> \<bar>i * j\<bar>" "\<bar>j\<bar> \<le> \<bar>i * j\<bar>"
    using mult_left_mono [of 1 "\<bar>j\<bar>" "\<bar>i\<bar>"] mult_right_mono [of 1 "\<bar>i\<bar>" "\<bar>j\<bar>"] unfolding abs_mult by linarith+
  then have b: "\<bar>i\<bar> \<le> 2 ^ 53" "\<bar>j\<bar> \<le> 2 ^ 53" using assms(1) by linarith+
  have "round_mag (\<bar>i * j * f_unit\<bar> * f_unit) \<bar>j * f_unit\<bar> = round_mag (\<bar>i\<bar> * f_unit) 1"
    using round_mag_scale [of "\<bar>j\<bar> * f_unit" "\<bar>i\<bar> * f_unit" 1] assms(3) by (simp add: abs_mult mult_ac)
  moreover have "(f_neg (f_of_int (i * j)) \<noteq> f_neg (f_of_int j)) = (i < 0)"
    using f_neg_int [OF assms(1)] f_neg_int [OF b(2)] assms(2,3) by (auto simp: mult_less_0_iff)
  ultimately show ?thesis
    using f_int(1-3) [OF assms(1)] f_int(4) [OF b(1) assms(2)] f_int(1-3) [OF b(2)] by (simp add: f_div_def Let_def)
qed

section \<open>Arguments\<close>

definition needArgs :: "val list \<Rightarrow> nat \<Rightarrow> int \<Rightarrow> unit result" where
  "needArgs args lo hi =
     (if length args < lo \<or> (0 \<le> hi \<and> hi < int (length args)) then Inl (ErrExec ''wrong number of arguments'') else Inr ())"

definition intArg :: "'s World \<Rightarrow> val \<Rightarrow> i64 result" where
  "intArg W v =
     (case v of VInt n \<Rightarrow> Inr n | VFloat f \<Rightarrow> Inr (int64_conv W f) | _ \<Rightarrow> Inl (ErrExec ''expects an integer''))"

type_synonym 's scalarFunc = "'s World \<Rightarrow> val list \<Rightarrow> ('s Context, val) act"

text \<open>A function that uses neither the database nor the environment.\<close>

definition pure_fn :: "('s World \<Rightarrow> val list \<Rightarrow> val result) \<Rightarrow> 's scalarFunc" where
  "pure_fn f W args = liftR (f W args)"

section \<open>Lists of integers\<close>

definition maxRangeLen :: int where
  "maxRangeLen = 10000000"

definition range_more :: "i64 \<Rightarrow> i64 \<Rightarrow> i64 \<Rightarrow> bool" where
  "range_more i e step \<longleftrightarrow> (sint step > 0 \<and> sint i \<le> sint e) \<or> (sint step < 0 \<and> sint i \<ge> sint e)"

definition range_last :: "i64 \<Rightarrow> i64 \<Rightarrow> bool" where
  "range_last i step \<longleftrightarrow>
     (sint step > 0 \<and> sint i > sint (maxInt64 - step)) \<or> (sint step < 0 \<and> sint i < sint (minInt64 - step))"

lemma sint_maxInt64: "sint maxInt64 = 2 ^ 63 - 1"
  by (simp add: maxInt64_def)

lemma sint_exact:
  "fits (sint a + sint b) \<Longrightarrow> sint (a + b :: i64) = sint a + sint b"
  "fits (sint a - sint b) \<Longrightarrow> sint (a - b :: i64) = sint a - sint b"
  unfolding word_of_sint by (rule sint_of_int, assumption)+

text \<open>The step does not wrap around: the loop stops before it would.\<close>

lemma range_step:
  assumes "\<not> range_last i step" "sint step \<noteq> 0"
  shows "sint (i + step) = sint i + sint step"
proof -
  have b: "fits (sint i)" "fits (sint step)" by (rule fits_sint)+
  have "fits (sint i + sint step)"
  proof (cases "sint step > 0")
    case True
    have "sint (maxInt64 - step) = 2 ^ 63 - 1 - sint step"
      using True b(2) sint_exact(2) [of maxInt64 step] by (simp add: sint_maxInt64 fits_def)
    then show ?thesis using assms(1) True b by (simp add: range_last_def fits_def)
  next
    case False
    have "sint (minInt64 - step) = - (2 ^ 63) - sint step"
      using False b(2) assms(2) sint_exact(2) [of minInt64 step] by (simp add: sint_special fits_def)
    then show ?thesis using assms False b by (simp add: range_last_def fits_def)
  qed
  then show ?thesis by (rule sint_exact)
qed

function range_loop :: "i64 \<Rightarrow> i64 \<Rightarrow> i64 \<Rightarrow> val list" where
  "range_loop i e step =
     (if range_more i e step then VInt i # (if range_last i step then [] else range_loop (i + step) e step) else [])"
  by pat_completeness auto

termination
  by (relation "measure (\<lambda>(i, e, step). if range_more i e step then nat (\<bar>sint e - sint i\<bar> + 1) else 0)")
    (auto simp: range_more_def range_step)

declare range_loop.simps [simp del]

fun int_args :: "val list \<Rightarrow> i64 list result" where
  "int_args [] = Inr []"
| "int_args (a # as) =
     (case normalize a of
        VInt n \<Rightarrow> bindR (int_args as) (\<lambda>ns. Inr (n # ns))
      | _ \<Rightarrow> Inl (ErrExec ''range() expects integers''))"

definition fnRange :: "'s World \<Rightarrow> val list \<Rightarrow> val result" where
  "fnRange W args =
     bindR (needArgs args 2 3) (\<lambda>_.
     bindR (int_args args) (\<lambda>nums.
       let start = nums ! 0; e = nums ! 1; step = (if length nums = 3 then nums ! 2 else 1)
       in if step = 0 then Inl (ErrExec ''range() step must not be zero'')
          else if f_less (f_of_int maxRangeLen)
                  (f_add (f_div (f_sub (f_of_int (sint e)) (f_of_int (sint start))) (f_of_int (sint step))) (f_of_int 1))
          then Inl (ErrExec ''range() would produce too many elements'')
          else Inr (VList (range_loop start e step))))"

fun first_non_null :: "val list \<Rightarrow> val" where
  "first_non_null [] = VNull"
| "first_non_null (a # as) = (if a \<noteq> VNull then a else first_non_null as)"

definition fnCoalesce :: "'s World \<Rightarrow> val list \<Rightarrow> val result" where
  "fnCoalesce W args = bindR (needArgs args 1 (-1)) (\<lambda>_. Inr (first_non_null args))"

definition edgeEnd :: "'s World \<Rightarrow> val list \<Rightarrow> bool \<Rightarrow> ('s Context, val) act" where
  "edgeEnd W args start =
     bnd (liftR (needArgs args 1 1)) (\<lambda>_.
       case args ! 0 of
         VNull \<Rightarrow> ret VNull
       | VEdge _ _ src dst _ \<Rightarrow>
           bnd (query (GetNode (Store W) (if start then src else dst))) (\<lambda>n. ret (node_val n))
       | _ \<Rightarrow> throw (ErrExec ''expects a relationship''))"

definition fnStartNode :: "'s scalarFunc" where
  "fnStartNode W args = edgeEnd W args True"

definition fnEndNode :: "'s scalarFunc" where
  "fnEndNode W args = edgeEnd W args False"

section \<open>Numbers\<close>

text \<open>\<^verbatim>\<open>math.Floor\<close>, \<^verbatim>\<open>math.Ceil\<close>, \<^verbatim>\<open>math.Sqrt\<close> and \<^verbatim>\<open>math.Abs\<close>. \<open>f_sqrt\<close> rounds the square root correctly: \<open>q\<close> is
  the integral part of twice the root in units of $2^{-1074}$, and its last bit records a remainder.\<close>

definition math_Floor :: "f64 \<Rightarrow> f64" where
  "math_Floor f = (if f_isNaN f \<or> f_isInf f \<or> f_integral f then f else f_of_int (f_floor f))"

definition math_Ceil :: "f64 \<Rightarrow> f64" where
  "math_Ceil f = f_negate (math_Floor (f_negate f))"

fun isqrt :: "int \<Rightarrow> int" where
  "isqrt n = (if n \<le> 0 then 0 else let r = 2 * isqrt (n div 4) in if (r + 1) * (r + 1) \<le> n then r + 1 else r)"

declare isqrt.simps [simp del]

definition f_sqrt :: "f64 \<Rightarrow> f64" where
  "f_sqrt f =
     (if f_isNaN f \<or> f_num f = 0 \<or> (f_isInf f \<and> \<not> f_neg f) then f
      else if f_neg f then f_nan
      else let n = 4 * f_num f * f_unit; q = isqrt n
           in f_pack False (round_mag (2 * q + (if q * q < n then 1 else 0)) 4))"

definition math_Abs :: "f64 \<Rightarrow> f64" where
  "math_Abs f = f AND 0x7FFFFFFFFFFFFFFF"

definition numericFunc :: "val list \<Rightarrow> (f64 \<Rightarrow> f64) \<Rightarrow> val result" where
  "numericFunc args f =
     bindR (needArgs args 1 1) (\<lambda>_.
       case normalize (args ! 0) of
         VNull \<Rightarrow> Inr VNull
       | VInt v \<Rightarrow> Inr (VFloat (f (f_of_int (sint v))))
       | VFloat v \<Rightarrow> Inr (VFloat (f v))
       | _ \<Rightarrow> Inl (ErrExec ''expects a number''))"

definition fnRound :: "'s World \<Rightarrow> val list \<Rightarrow> val result" where
  "fnRound W args = numericFunc args (\<lambda>x. math_Floor (f_add x 0x3FE0000000000000))"

definition fnFloor :: "'s World \<Rightarrow> val list \<Rightarrow> val result" where
  "fnFloor W args = numericFunc args math_Floor"

definition fnCeil :: "'s World \<Rightarrow> val list \<Rightarrow> val result" where
  "fnCeil W args = numericFunc args math_Ceil"

definition fnSqrt :: "'s World \<Rightarrow> val list \<Rightarrow> val result" where
  "fnSqrt W args = numericFunc args f_sqrt"

definition fnSign :: "'s World \<Rightarrow> val list \<Rightarrow> val result" where
  "fnSign W args =
     bindR (needArgs args 1 1) (\<lambda>_.
       case normalize (args ! 0) of
         VNull \<Rightarrow> Inr VNull
       | VInt v \<Rightarrow> Inr (VInt (word_of_int (cmpInt64 v 0)))
       | VFloat v \<Rightarrow> Inr (VInt (if f_less 0 v then 1 else if f_less v 0 then -1 else 0))
       | _ \<Rightarrow> Inl (ErrExec ''sign() expects a number''))"

definition fnRand :: "'s scalarFunc" where
  "fnRand W args = bnd (liftR (needArgs args 0 0)) (\<lambda>_. bnd (observe (rand_Float64 W)) (\<lambda>f. ret (VFloat f)))"

definition fnTimestamp :: "'s scalarFunc" where
  "fnTimestamp W args = bnd (liftR (needArgs args 0 0)) (\<lambda>_. bnd (timestamp W) (\<lambda>t. ret (VInt t)))"

definition fnAbs :: "'s World \<Rightarrow> val list \<Rightarrow> val result" where
  "fnAbs W args =
     bindR (needArgs args 1 1) (\<lambda>_.
       case args ! 0 of
         VNull \<Rightarrow> Inr VNull
       | VInt v \<Rightarrow> if sint v < 0 then bindR (negateInt v) (\<lambda>n. Inr (VInt n)) else Inr (VInt v)
       | VFloat v \<Rightarrow> Inr (VFloat (math_Abs v))
       | _ \<Rightarrow> Inl (ErrExec ''abs() expects a number''))"

section \<open>Nodes, relationships and paths\<close>

definition fnID :: "'s World \<Rightarrow> val list \<Rightarrow> val result" where
  "fnID W args =
     bindR (needArgs args 1 1) (\<lambda>_.
       case args ! 0 of
         VNull \<Rightarrow> Inr VNull
       | VNode i _ _ \<Rightarrow> Inr (VInt i)
       | VEdge i _ _ _ _ \<Rightarrow> Inr (VInt i)
       | _ \<Rightarrow> Inl (ErrExec ''id() expects a node or relationship''))"

definition fnLabels :: "'s scalarFunc" where
  "fnLabels W args =
     bnd (liftR (needArgs args 1 1)) (\<lambda>_.
       case args ! 0 of
         VNull \<Rightarrow> ret VNull
       | VNode _ labels _ \<Rightarrow>
           bnd (mapA (\<lambda>l. query (LabelName (Store W) l)) labels) (\<lambda>names. ret (VList (map VStr names)))
       | _ \<Rightarrow> throw (ErrExec ''labels() expects a node''))"

definition fnType :: "'s scalarFunc" where
  "fnType W args =
     bnd (liftR (needArgs args 1 1)) (\<lambda>_.
       case args ! 0 of
         VNull \<Rightarrow> ret VNull
       | VEdge _ t _ _ _ \<Rightarrow> bnd (query (TypeName (Store W) t)) (\<lambda>name. ret (VStr name))
       | _ \<Rightarrow> throw (ErrExec ''type() expects a relationship''))"

definition keyNames :: "'s World \<Rightarrow> (u32 \<times> val) list \<Rightarrow> ('s Context, val) act" where
  "keyNames W props =
     bnd (mapA (\<lambda>(i, _). query (KeyName (Store W) i)) props) (\<lambda>names. ret (VList (map VStr names)))"

definition fnKeys :: "'s scalarFunc" where
  "fnKeys W args =
     bnd (liftR (needArgs args 1 1)) (\<lambda>_.
       case args ! 0 of
         VNull \<Rightarrow> ret VNull
       | VNode _ _ props \<Rightarrow> keyNames W props
       | VEdge _ _ _ _ props \<Rightarrow> keyNames W props
       | VMap m \<Rightarrow> ret (VList (map (\<lambda>(k, _). VStr k) m))
       | _ \<Rightarrow> throw (ErrExec ''keys() expects a node, relationship or map''))"

fun props_map :: "'s World \<Rightarrow> (u32 \<times> val) list \<Rightarrow> (bytes \<times> val) list \<Rightarrow> ('s Context, (bytes \<times> val) list) act" where
  "props_map W [] out = ret out"
| "props_map W ((i, v) # props) out =
     bnd (query (KeyName (Store W) i)) (\<lambda>name. props_map W props (AList.update name v out))"

definition propsMap :: "'s World \<Rightarrow> (u32 \<times> val) list \<Rightarrow> ('s Context, val) act" where
  "propsMap W props = bnd (props_map W props []) (\<lambda>m. ret (VMap m))"

definition fnProperties :: "'s scalarFunc" where
  "fnProperties W args =
     bnd (liftR (needArgs args 1 1)) (\<lambda>_.
       case args ! 0 of
         VNull \<Rightarrow> ret VNull
       | VNode _ _ props \<Rightarrow> propsMap W props
       | VEdge _ _ _ _ props \<Rightarrow> propsMap W props
       | VMap m \<Rightarrow> ret (VMap m)
       | _ \<Rightarrow> throw (ErrExec ''properties() expects a node, relationship or map''))"

definition fnNodes :: "'s World \<Rightarrow> val list \<Rightarrow> val result" where
  "fnNodes W args =
     bindR (needArgs args 1 1) (\<lambda>_.
       case args ! 0 of
         VNull \<Rightarrow> Inr VNull
       | VPath ns _ \<Rightarrow> Inr (VList ns)
       | _ \<Rightarrow> Inl (ErrExec ''nodes() expects a path''))"

definition fnRelationships :: "'s World \<Rightarrow> val list \<Rightarrow> val result" where
  "fnRelationships W args =
     bindR (needArgs args 1 1) (\<lambda>_.
       case args ! 0 of
         VNull \<Rightarrow> Inr VNull
       | VPath _ rs \<Rightarrow> Inr (VList rs)
       | _ \<Rightarrow> Inl (ErrExec ''relationships() expects a path''))"

section \<open>Sizes and conversions\<close>

definition sizeOf :: "bool \<Rightarrow> val \<Rightarrow> val result" where
  "sizeOf isLength v =
     (case v of
        VNull \<Rightarrow> Inr VNull
      | VStr x \<Rightarrow> Inr (VInt (of_nat (length (runes x))))
      | VList x \<Rightarrow> Inr (VInt (of_nat (length x)))
      | VRels x \<Rightarrow> Inr (VInt (of_nat (length x)))
      | VPath _ rs \<Rightarrow>
          if isLength then Inr (VInt (of_nat (length rs))) else Inl (ErrExec ''size() of a path'')
      | _ \<Rightarrow> Inl (ErrExec ''expects a list or string''))"

definition fnSize :: "'s World \<Rightarrow> val list \<Rightarrow> val result" where
  "fnSize W args = bindR (needArgs args 1 1) (\<lambda>_. sizeOf False (args ! 0))"

definition fnLength :: "'s World \<Rightarrow> val list \<Rightarrow> val result" where
  "fnLength W args = bindR (needArgs args 1 1) (\<lambda>_. sizeOf True (args ! 0))"

definition fnToInteger :: "'s World \<Rightarrow> val list \<Rightarrow> val result" where
  "fnToInteger W args =
     bindR (needArgs args 1 1) (\<lambda>_.
       case args ! 0 of
         VNull \<Rightarrow> Inr VNull
       | VInt v \<Rightarrow> Inr (VInt v)
       | VFloat v \<Rightarrow> if f_isNaN v \<or> f_isInf v then Inr VNull else Inr (VInt (int64_conv W v))
       | VStr v \<Rightarrow> (case ParseInt (TrimSpace v) of None \<Rightarrow> Inr VNull | Some n \<Rightarrow> Inr (VInt n))
       | VBool v \<Rightarrow> Inr (VInt (if v then 1 else 0))
       | _ \<Rightarrow> Inl (ErrExec ''toInteger() unsupported type''))"

definition fnToFloat :: "'s World \<Rightarrow> val list \<Rightarrow> val result" where
  "fnToFloat W args =
     bindR (needArgs args 1 1) (\<lambda>_.
       case args ! 0 of
         VNull \<Rightarrow> Inr VNull
       | VFloat v \<Rightarrow> Inr (VFloat v)
       | VInt v \<Rightarrow> Inr (VFloat (f_of_int (sint v)))
       | VStr v \<Rightarrow> (case ParseFloat W (TrimSpace v) of None \<Rightarrow> Inr VNull | Some f \<Rightarrow> Inr (VFloat f))
       | _ \<Rightarrow> Inl (ErrExec ''toFloat() unsupported type''))"

definition fnToString :: "'s World \<Rightarrow> val list \<Rightarrow> val result" where
  "fnToString W args =
     bindR (needArgs args 1 1) (\<lambda>_.
       case args ! 0 of
         VNull \<Rightarrow> Inr VNull
       | VStr v \<Rightarrow> Inr (VStr v)
       | VInt v \<Rightarrow> Inr (VStr (FormatInt v))
       | VFloat v \<Rightarrow> Inr (VStr (FormatFloat W v))
       | VBool v \<Rightarrow> Inr (VStr (if v then str ''true'' else str ''false''))
       | v \<Rightarrow> Inr (VStr (sprint_v W v)))"

section \<open>Strings\<close>

definition stringFn :: "val \<Rightarrow> (bytes \<Rightarrow> bytes) \<Rightarrow> val result" where
  "stringFn v fn =
     (case v of VNull \<Rightarrow> Inr VNull | VStr s \<Rightarrow> Inr (VStr (fn s)) | _ \<Rightarrow> Inl (ErrExec ''expected a string''))"

definition fnToUpper :: "'s World \<Rightarrow> val list \<Rightarrow> val result" where
  "fnToUpper W args = bindR (needArgs args 1 1) (\<lambda>_. stringFn (args ! 0) (ToUpper W))"

definition fnToLower :: "'s World \<Rightarrow> val list \<Rightarrow> val result" where
  "fnToLower W args = bindR (needArgs args 1 1) (\<lambda>_. stringFn (args ! 0) (ToLower W))"

definition fnTrim :: "'s World \<Rightarrow> val list \<Rightarrow> val result" where
  "fnTrim W args = bindR (needArgs args 1 1) (\<lambda>_. stringFn (args ! 0) TrimSpace)"

text \<open>The sum \<open>startIdx + length\<close> is the machine's, which wraps around.\<close>

definition fnSubstring :: "'s World \<Rightarrow> val list \<Rightarrow> val result" where
  "fnSubstring W args =
     bindR (needArgs args 2 3) (\<lambda>_.
       case args ! 0 of
         VNull \<Rightarrow> Inr VNull
       | VStr s \<Rightarrow>
           bindR (intArg W (args ! 1)) (\<lambda>i.
             let rs = runes s; startIdx = (if sint i < 0 then 0 else i)
             in if sint startIdx > int (length rs) then Inr (VStr [])
                else if length args = 2 then Inr (VStr (string_of_runes (drop (unat startIdx) rs)))
                else bindR (intArg W (args ! 2)) (\<lambda>len.
                  let e0 = startIdx + len;
                      e1 = (if sint e0 < sint startIdx then startIdx else e0);
                      e = (if sint e1 > int (length rs) then of_nat (length rs) else e1)
                  in Inr (VStr (string_of_runes (take (unat e - unat startIdx) (drop (unat startIdx) rs))))))
       | _ \<Rightarrow> Inl (ErrExec ''substring() expects a string''))"

definition fnReplace :: "'s World \<Rightarrow> val list \<Rightarrow> val result" where
  "fnReplace W args =
     bindR (needArgs args 3 3) (\<lambda>_.
       if args ! 0 = VNull \<or> args ! 1 = VNull \<or> args ! 2 = VNull then Inr VNull
       else case args ! 0 of
         VStr s \<Rightarrow>
           (case args ! 1 of
              VStr from \<Rightarrow>
                (case args ! 2 of
                   VStr to \<Rightarrow> Inr (VStr (strings_ReplaceAll s from to))
                 | _ \<Rightarrow> Inl (ErrExec ''replace() expects a string for replacement''))
            | _ \<Rightarrow> Inl (ErrExec ''replace() expects a string for search''))
       | _ \<Rightarrow> Inl (ErrExec ''replace() expects a string''))"

definition fnSplit :: "'s World \<Rightarrow> val list \<Rightarrow> val result" where
  "fnSplit W args =
     bindR (needArgs args 2 2) (\<lambda>_.
       if args ! 0 = VNull \<or> args ! 1 = VNull then Inr VNull
       else case args ! 0 of
         VStr s \<Rightarrow>
           (case args ! 1 of
              VStr sep \<Rightarrow> Inr (VList (map VStr (strings_Split s sep)))
            | _ \<Rightarrow> Inl (ErrExec ''split() expects a string for delimiter''))
       | _ \<Rightarrow> Inl (ErrExec ''split() expects a string''))"

section \<open>Lists\<close>

definition fnHead :: "'s World \<Rightarrow> val list \<Rightarrow> val result" where
  "fnHead W args =
     bindR (needArgs args 1 1) (\<lambda>_.
       case args ! 0 of
         VNull \<Rightarrow> Inr VNull
       | VList list \<Rightarrow> Inr (if list = [] then VNull else hd list)
       | _ \<Rightarrow> Inl (ErrExec ''head() expects a list''))"

definition fnLast :: "'s World \<Rightarrow> val list \<Rightarrow> val result" where
  "fnLast W args =
     bindR (needArgs args 1 1) (\<lambda>_.
       case args ! 0 of
         VNull \<Rightarrow> Inr VNull
       | VList list \<Rightarrow> Inr (if list = [] then VNull else last list)
       | _ \<Rightarrow> Inl (ErrExec ''last() expects a list''))"

definition fnTail :: "'s World \<Rightarrow> val list \<Rightarrow> val result" where
  "fnTail W args =
     bindR (needArgs args 1 1) (\<lambda>_.
       case args ! 0 of
         VNull \<Rightarrow> Inr VNull
       | VList list \<Rightarrow> Inr (VList (tl list))
       | _ \<Rightarrow> Inl (ErrExec ''tail() expects a list''))"

section \<open>The registry\<close>

definition scalarFuncs :: "bytes \<Rightarrow> 's scalarFunc option" where
  "scalarFuncs = map_of
     [(str ''id'', pure_fn fnID),
      (str ''labels'', fnLabels),
      (str ''type'', fnType),
      (str ''keys'', fnKeys),
      (str ''properties'', fnProperties),
      (str ''size'', pure_fn fnSize),
      (str ''length'', pure_fn fnLength),
      (str ''nodes'', pure_fn fnNodes),
      (str ''relationships'', pure_fn fnRelationships),
      (str ''tointeger'', pure_fn fnToInteger),
      (str ''tofloat'', pure_fn fnToFloat),
      (str ''tostring'', pure_fn fnToString),
      (str ''toupper'', pure_fn fnToUpper),
      (str ''tolower'', pure_fn fnToLower),
      (str ''trim'', pure_fn fnTrim),
      (str ''substring'', pure_fn fnSubstring),
      (str ''replace'', pure_fn fnReplace),
      (str ''split'', pure_fn fnSplit),
      (str ''abs'', pure_fn fnAbs),
      (str ''head'', pure_fn fnHead),
      (str ''last'', pure_fn fnLast),
      (str ''tail'', pure_fn fnTail),
      (str ''range'', pure_fn fnRange),
      (str ''coalesce'', pure_fn fnCoalesce),
      (str ''startnode'', fnStartNode),
      (str ''endnode'', fnEndNode),
      (str ''round'', pure_fn fnRound),
      (str ''floor'', pure_fn fnFloor),
      (str ''ceil'', pure_fn fnCeil),
      (str ''sqrt'', pure_fn fnSqrt),
      (str ''sign'', pure_fn fnSign),
      (str ''rand'', fnRand),
      (str ''timestamp'', fnTimestamp)]"

definition isAggregateName :: "'s World \<Rightarrow> bytes \<Rightarrow> bool" where
  "isAggregateName W name \<longleftrightarrow>
     ToLower W name \<in> set (map str [''count'', ''sum'', ''avg'', ''min'', ''max'', ''collect''])"

text \<open>\<open>args\<close> evaluates the arguments, in order.\<close>

definition evalFunctionCall :: "'s World \<Rightarrow> bytes \<Rightarrow> ('s Context, val list) act \<Rightarrow> ('s Context, val) act" where
  "evalFunctionCall W name args =
     (if isAggregateName W name then throw (ErrExec ''aggregate used outside aggregation context'')
      else case scalarFuncs (ToLower W name) of
        None \<Rightarrow> throw (ErrExec ''unknown function'')
      | Some fn \<Rightarrow> bnd args (\<lambda>vs. fn W vs))"

section \<open>What the functions compute\<close>

lemma range_count:
  assumes "s \<noteq> (0 :: int)"
  shows "0 < (d div s) + 1 \<longleftrightarrow> (0 < s \<and> 0 \<le> d) \<or> (s < 0 \<and> d \<le> 0)" "(d - s) div s = d div s - 1"
proof -
  show "(d - s) div s = d div s - 1" using div_mult_self1 [of s d "-1"] assms by simp
  have "0 \<le> d div s \<longleftrightarrow> (0 < s \<and> 0 \<le> d) \<or> (s < 0 \<and> d \<le> 0)"
    using assms by (cases "0 < s") (auto simp: pos_imp_zdiv_nonneg_iff neg_imp_zdiv_nonneg_iff)
  then show "0 < (d div s) + 1 \<longleftrightarrow> (0 < s \<and> 0 \<le> d) \<or> (s < 0 \<and> d \<le> 0)" by linarith
qed

lemma range_last_count:
  assumes "range_last i s" "range_more i e s"
  shows "(sint e - sint i) div sint s = 0"
proof (cases "0 < sint s")
  case True
  have "sint (maxInt64 - s) = 2 ^ 63 - 1 - sint s"
    using True sint_exact(2) [of maxInt64 s] fits_sint [of s] by (simp add: sint_maxInt64 fits_def)
  then have "sint e - sint i < sint s" using assms True fits_sint [of e] by (simp add: range_last_def fits_def)
  then show ?thesis using assms(2) True by (intro div_pos_pos_trivial) (auto simp: range_more_def)
next
  case False
  then have "sint s < 0" using assms(2) by (auto simp: range_more_def)
  have "sint (minInt64 - s) = - (2 ^ 63) - sint s"
    using \<open>sint s < 0\<close> sint_exact(2) [of minInt64 s] fits_sint [of s] by (simp add: sint_special fits_def)
  then have "sint s < sint e - sint i" using assms False fits_sint [of e] by (simp add: range_last_def fits_def)
  then show ?thesis using assms(2) \<open>sint s < 0\<close> by (intro div_neg_neg_trivial) (auto simp: range_more_def)
qed

lemma range_loop_eq:
  assumes "sint step \<noteq> 0"
  shows "range_loop i e step =
    map (\<lambda>k. VInt (word_of_int (sint i + int k * sint step))) [0..<nat ((sint e - sint i) div sint step + 1)]"
  using assms
proof (induction i e step rule: range_loop.induct)
  case (1 i e s)
  have more: "range_more i e s \<longleftrightarrow> 0 < (sint e - sint i) div sint s + 1"
    using 1(2) range_count(1) [of "sint s" "sint e - sint i"] by (auto simp: range_more_def)
  consider "\<not> range_more i e s" | "range_more i e s" "range_last i s" | "range_more i e s" "\<not> range_last i s" by blast
  then show ?case
  proof cases
    case 1
    then show ?thesis using more by (simp add: range_loop.simps [of i])
  next
    case 2
    then show ?thesis using range_last_count [OF 2(2,1)] by (simp add: range_loop.simps [of i])
  next
    case 3
    define n where "n = nat ((sint e - sint i) div sint s)"
    have n: "nat ((sint e - sint i) div sint s + 1) = Suc n" using 3(1) more by (simp add: n_def)
    have step: "sint (i + s) = sint i + sint s" using range_step [OF 3(2)] 1(2) .
    have "range_loop (i + s) e s = map (\<lambda>k. VInt (word_of_int (sint i + sint s + int k * sint s))) [0..<n]"
      using 1(1) [OF 3 1(2)] range_count(2) [of "sint s" "sint e - sint i"] 1(2)
      by (simp add: step n_def algebra_simps)
    then show ?thesis unfolding n using 3
      by (simp add: range_loop.simps [of i] map_upt_Suc algebra_simps del: upt_Suc)
  qed
qed

lemma range_between:
  assumes "sint step \<noteq> 0" "k < nat ((sint e - sint i) div sint step + 1)"
  shows "(sint i \<le> sint i + int k * sint step \<and> sint i + int k * sint step \<le> sint e) \<or>
    (sint e \<le> sint i + int k * sint step \<and> sint i + int k * sint step \<le> sint i)"
proof -
  let ?d = "sint e - sint i" and ?s = "sint step"
  have k: "int k \<le> ?d div ?s" using assms(2) by linarith
  have d: "?d div ?s * ?s + ?d mod ?s = ?d" by simp
  show ?thesis
  proof (cases "0 < ?s")
    case True
    then have "int k * ?s \<le> ?d div ?s * ?s" "0 \<le> ?d mod ?s" "0 \<le> int k * ?s" using k by (simp_all add: mult_right_mono)
    then show ?thesis using d by linarith
  next
    case False
    then have "?d div ?s * ?s \<le> int k * ?s" "?d mod ?s \<le> 0" "int k * ?s \<le> 0"
      using k assms(1) by (simp_all add: mult_right_mono_neg mult_nonneg_nonpos)
    then show ?thesis using d by linarith
  qed
qed

text \<open>
  C21. \<^verbatim>\<open>range(start, end, step)\<close>, when it returns, returns exactly the integers from \<open>start\<close> to \<open>end\<close>
  by \<open>step\<close>, in either direction and up to the limits of \<^verbatim>\<open>int64\<close>: the loop ends and no element wraps around.
\<close>

theorem range_exact:
  assumes "fnRange W [VInt start, VInt e, VInt step] = Inr v"
  shows "\<exists>zs. v = VList (map (\<lambda>z. VInt (word_of_int z)) zs) \<and>
    zs = map (\<lambda>k. sint start + int k * sint step) [0..<nat ((sint e - sint start) div sint step + 1)] \<and>
    list_all fits zs"
proof -
  let ?n = "nat ((sint e - sint start) div sint step + 1)"
  have s: "sint step \<noteq> 0" and v: "v = VList (range_loop start e step)"
    using assms sint_eq_iff [of step 0] by (auto simp: fnRange_def needArgs_def Values.normalize_def Let_def split: if_splits)
  have "fits (sint start + int k * sint step)" if "k < ?n" for k
    using range_between [OF s that] fits_sint [of start] fits_sint [of e] by (auto simp: fits_def)
  then show ?thesis unfolding v range_loop_eq [OF s] by (auto simp: list_all_iff)
qed

theorem range_exact_witness:
  "fnRange (undefined :: unit World) [VInt 5, VInt 1, VInt (-2)] = Inr (VList [VInt 5, VInt 3, VInt 1])"
proof -
  have s: "sint (5 :: i64) = 5" "sint (1 :: i64) = 1" "sint (-2 :: i64) = -2" by code_simp+
  have "\<not> f_less (f_of_int maxRangeLen)
      (f_add (f_div (f_sub (f_of_int (sint (1 :: i64))) (f_of_int (sint (5 :: i64)))) (f_of_int (sint (-2 :: i64)))) (f_of_int 1))"
    unfolding s using f_sub_int [of 1 5] f_div_int [of 2 "-2"] f_add_int [of 2 1] f_int(1) [of 3] f_int(1) [of maxRangeLen]
    by (simp add: f_less_def maxRangeLen_def)
  then have *: "fnRange (undefined :: unit World) [VInt 5, VInt 1, VInt (-2)] = Inr (VList (range_loop 5 1 (-2)))"
    by (simp add: fnRange_def needArgs_def Values.normalize_def Let_def)
  from range_exact [OF *] show ?thesis unfolding * by (simp add: s upt_rec)
qed

text \<open>
  C22. \<^verbatim>\<open>split\<close> loses nothing: joining the parts with the delimiter gives the string back, for every string and
  delimiter, also when the delimiter is empty and the string is cut into its characters. For a delimiter that is not
  empty, \<^verbatim>\<open>replace\<close> is the same parts joined with the replacement; for an empty one nothing is said of \<^verbatim>\<open>replace\<close>.
\<close>

theorem split_join:
  "\<exists>parts. fnSplit W [VStr s, VStr sep] = Inr (VList (map VStr parts)) \<and> join sep parts = s \<and>
     (sep \<noteq> [] \<longrightarrow> fnReplace W [VStr s, VStr sep, VStr t] = Inr (VStr (join t parts)))"
  by (cases "sep = []")
    (auto simp: fnSplit_def fnReplace_def needArgs_def strings_Split_def strings_ReplaceAll_def join_empty concat_explode
      join_genSplit replace_join)

theorem split_join_witness:
  "\<exists>parts. fnSplit (undefined :: unit World) [VStr (str ''a,b''), VStr (str '','')] = Inr (VList (map VStr parts)) \<and>
     join (str '','') parts = str ''a,b'' \<and>
     fnReplace (undefined :: unit World) [VStr (str ''a,b''), VStr (str '',''), VStr (str ''--'')] = Inr (VStr (join (str ''--'') parts))"
proof -
  have "str '','' \<noteq> []" by code_simp
  with split_join [of undefined "str ''a,b''" "str '',''" "str ''--''"] show ?thesis by auto
qed

lemma unat_sint: "0 \<le> sint (i :: i64) \<Longrightarrow> unat i = nat (sint i)"
  using uint_lt2p [of i] by (simp add: sint_uint_64 split: if_splits)

text \<open>
  C23. \<^verbatim>\<open>substring(s, start, length)\<close> is the part of \<open>s\<close> that starts at character \<open>start\<close> and has at most \<open>length\<close>
  characters, for every \<open>start\<close> and \<open>length\<close> that are not negative, unless their sum exceeds the range of \<^verbatim>\<open>int64\<close>:
  then the result is empty, whatever the string holds.
\<close>

theorem substring_exact:
  assumes "0 \<le> sint i" and "0 \<le> sint n" and "int (length (runes s)) < 2 ^ 63"
  shows "fnSubstring W [VStr s, VInt i, VInt n] =
    Inr (VStr (if fits (sint i + sint n) then string_of_runes (take (nat (sint n)) (drop (nat (sint i)) (runes s))) else []))"
proof -
  define L where "L = int (length (runes s))"
  have len: "sint (of_nat (length (runes s)) :: i64) = L"
    using assms(3) sint_of_int [of L] by (simp add: L_def fits_def)
  have sum: "sint (i + n) = (if fits (sint i + sint n) then sint i + sint n else sint i + sint n - 2 ^ 64)"
    unfolding word_of_sint using assms(1,2) fits_sint [of i] fits_sint [of n]
    by (subst sint_word_of_int_cases) (auto simp: fits_def)
  show ?thesis
  proof (cases "L < sint i")
    case True
    then show ?thesis using assms by (simp add: fnSubstring_def needArgs_def intArg_def Let_def L_def string_of_runes_def)
  next
    case False
    define e where "e = (if sint (i + n) < sint i then i else if sint (i + n) > L then of_nat (length (runes s)) else i + n)"
    have e: "unat e - unat i = (if fits (sint i + sint n) then nat (min (sint n) (L - sint i)) else 0)"
      using assms(1,2) False sum len fits_sint [of n] fits_sint [of i] by (auto simp: e_def unat_sint L_def fits_def)
    have "fnSubstring W [VStr s, VInt i, VInt n] = Inr (VStr (string_of_runes (take (unat e - unat i) (drop (unat i) (runes s)))))"
      using assms(1) False by (auto simp: fnSubstring_def needArgs_def intArg_def Let_def L_def e_def)
    moreover have "take (nat (min (sint n) (L - sint i))) (drop (nat (sint i)) (runes s)) = take (nat (sint n)) (drop (nat (sint i)) (runes s))"
      using assms(1,2) False by (auto simp: L_def min_def)
    ultimately show ?thesis unfolding e using unat_sint [OF assms(1)] by (simp add: string_of_runes_def)
  qed
qed

theorem substring_exact_witness:
  "fnSubstring (undefined :: unit World) [VStr (str ''abc''), VInt 1, VInt 1] = Inr (VStr (str ''b'')) \<and>
   fnSubstring (undefined :: unit World) [VStr (str ''abc''), VInt 1, VInt maxInt64] = Inr (VStr [])"
proof -
  have a: "0 \<le> sint (1 :: i64)" "0 \<le> sint maxInt64" "int (length (runes (str ''abc''))) < 2 ^ 63" by code_simp+
  have b: "fits (sint (1 :: i64) + sint (1 :: i64))" "\<not> fits (sint (1 :: i64) + sint maxInt64)"
    by code_simp+
  have "runes (str ''abc'') = [97, 98, 99]" by code_simp
  then have c: "string_of_runes (take (nat (sint (1 :: i64))) (drop (nat (sint (1 :: i64))) (runes (str ''abc'')))) = str ''b''"
    by (simp add: string_of_runes_def EncodeRune_def valid_rune_def str_def)
  from substring_exact [OF a(1,1,3), of "undefined :: unit World"] substring_exact [OF a, of "undefined :: unit World"] b c
  show ?thesis by simp
qed

end
