(* ===== verification/Ast.thy ===== *)
theory Ast
  imports Values
begin

text \<open>
  The syntax trees of \<^verbatim>\<open>query/ast/ast.go\<close>, one constructor or record per Go type with the fields in the
  order of the source, and the free variables of an expression.
\<close>

section \<open>Positions and expressions\<close>

record Pos =
  Offset :: int
  Line :: int
  Col :: int

text \<open>
  Operators and the kinds of quantifiers are the strings of the source; names that come from a query
  are byte strings. A map of entries is the list of them, with distinct keys, in some iteration
  order. A \<^verbatim>\<open>nil\<close> expression is \<open>None\<close>.
\<close>

datatype Expr =
    Literal val Pos
  | Param bytes Pos
  | Variable bytes Pos
  | PropertyAccess Expr bytes Pos
  | Unary string Expr Pos
  | Binary string Expr Expr Pos
  | FunctionCall bytes bool bool "Expr list" Pos
  | LabelsPredicate Expr "bytes list" Pos
  | ListLiteral "Expr list" Pos
  | MapLiteral "(bytes \<times> Expr) list" Pos
  | Subscript Expr Expr Pos
  | ListComprehension bytes Expr "Expr option" "Expr option" Pos
  | Quantifier string bytes Expr Expr Pos
  | Slice Expr "Expr option" "Expr option" Pos
  | Case "Expr option" "(Expr \<times> Expr) list" "Expr option" Pos

section \<open>Patterns\<close>

datatype Direction = DirOut | DirIn | DirBoth

datatype ShortestKind = NotShortest | ShortestOne | ShortestAll

record NodePattern =
  NVariable :: bytes
  NLabels :: "bytes list"
  NProps :: "(bytes \<times> Expr) list"
  NPos :: Pos

record RelPattern =
  RVariable :: bytes
  RTypes :: "bytes list"
  RProps :: "(bytes \<times> Expr) list"
  RDirection :: Direction
  VarLength :: bool
  MinHops :: int
  MaxHops :: int
  RPos :: Pos

record PatternChain =
  ChainRel :: RelPattern
  ChainNode :: NodePattern

record PatternPart =
  PVariable :: bytes
  Start :: NodePattern
  Chain :: "PatternChain list"
  Shortest :: ShortestKind

section \<open>Clauses\<close>

record ReturnItem =
  RIExpr :: Expr
  RIAlias :: bytes

record SortItem =
  SIExpr :: Expr
  SIDesc :: bool

text \<open>The target of a property assignment or removal is a \<^verbatim>\<open>*PropertyAccess\<close>: its target and key.\<close>

datatype SetClause =
    SetPropertyC Expr bytes Expr
  | SetLabelsC bytes "bytes list" Pos
  | SetMapC bytes Expr bool Pos

datatype RemoveClause =
    RemovePropertyC Expr bytes
  | RemoveLabelsC bytes "bytes list" Pos

record Projection =
  Distinct :: bool
  Star :: bool
  Items :: "ReturnItem list"
  OrderBy :: "SortItem list"
  Skip :: "Expr option"
  Limit :: "Expr option"

text \<open>\<^verbatim>\<open>With\<close> and \<^verbatim>\<open>Return\<close> share the fields of a projection; \<^verbatim>\<open>With\<close> has a condition besides.\<close>

datatype Clause =
    Match bool "PatternPart list" "Expr option" Pos
  | With Projection "Expr option" Pos
  | Return Projection Pos
  | Create "PatternPart list" Pos
  | Merge PatternPart "SetClause list" "SetClause list" Pos
  | Set "SetClause list" Pos
  | Remove "RemoveClause list" Pos
  | Unwind Expr bytes Pos
  | Delete bool "Expr list" Pos
  | CreateIndex bytes bytes bytes bytes bool Pos
  | DropIndex bytes bool Pos
  | ShowIndexes Pos
  | CreateConstraint bytes bytes bytes Pos
  | DropConstraint bytes bool Pos
  | ShowConstraints Pos

record QueryUnion =
  UAll :: bool
  UClauses :: "Clause list"
  UPos :: Pos

record Query =
  Clauses :: "Clause list"
  Unions :: "QueryUnion list"

section \<open>Variables\<close>

text \<open>The variables of an expression that the row has to bind: a comprehension or a quantifier binds its
  own variable in its condition and its result.\<close>

fun fv :: "Expr \<Rightarrow> bytes set" where
  "fv (Literal _ _) = {}"
| "fv (Param _ _) = {}"
| "fv (Variable x _) = {x}"
| "fv (PropertyAccess e _ _) = fv e"
| "fv (Unary _ e _) = fv e"
| "fv (Binary _ l r _) = fv l \<union> fv r"
| "fv (FunctionCall _ _ _ es _) = (\<Union>e \<in> set es. fv e)"
| "fv (LabelsPredicate e _ _) = fv e"
| "fv (ListLiteral es _) = (\<Union>e \<in> set es. fv e)"
| "fv (MapLiteral es _) = (\<Union>(k, e) \<in> set es. fv e)"
| "fv (Subscript e i _) = fv e \<union> fv i"
| "fv (ListComprehension x e w m _) = fv e \<union> ((\<Union>a \<in> set_option w. fv a) \<union> (\<Union>a \<in> set_option m. fv a) - {x})"
| "fv (Quantifier _ x e w _) = fv e \<union> (fv w - {x})"
| "fv (Slice e f t _) = fv e \<union> (\<Union>a \<in> set_option f. fv a) \<union> (\<Union>a \<in> set_option t. fv a)"
| "fv (Case d ws e _) = (\<Union>a \<in> set_option d. fv a) \<union> (\<Union>(c, r) \<in> set ws. fv c \<union> fv r) \<union> (\<Union>a \<in> set_option e. fv a)"

end
