(* ===== verification/Exec_Eval.thy ===== *)
theory Exec_Eval
  imports Exec_Func
    Ast
begin

text \<open>
  The evaluation of expressions (\<^verbatim>\<open>exec/eval.go\<close>): it depends on the free variables only, it never writes,
  its caches cannot be observed, and its quantifiers follow the three-valued logic.
\<close>

section \<open>Evaluation\<close>

text \<open>
  Each function of \<^verbatim>\<open>eval.go\<close> that evaluates subexpressions takes their evaluations as actions; \<open>eval\<close> at the
  end supplies them. The order of evaluation and the first error are those of the source.
\<close>

definition propValue :: "'s World \<Rightarrow> (u32 \<times> val) list \<Rightarrow> bytes \<Rightarrow> ('s Context, val) act" where
  "propValue W props key =
     bnd (lookupKey W key) (\<lambda>(keyID, found).
       ret (if \<not> found then VNull else case map_of props keyID of None \<Rightarrow> VNull | Some v \<Rightarrow> v))"

definition map_value :: "(bytes \<times> val) list \<Rightarrow> bytes \<Rightarrow> val" where
  "map_value m key = (case map_of m key of None \<Rightarrow> VNull | Some v \<Rightarrow> v)"

definition evalProperty :: "'s World \<Rightarrow> ('s Context, val) act \<Rightarrow> bytes \<Rightarrow> ('s Context, val) act" where
  "evalProperty W target key =
     bnd target (\<lambda>t.
       case t of
         VNull \<Rightarrow> ret VNull
       | VNode _ _ props \<Rightarrow> propValue W props key
       | VEdge _ _ _ _ props \<Rightarrow> propValue W props key
       | VMap m \<Rightarrow> ret (map_value m key)
       | _ \<Rightarrow> throw (ErrExec ''property access on a non-node/edge/map value''))"

fun evalWhens :: "(val \<Rightarrow> bool) \<Rightarrow> (('c, val) act \<times> ('c, val) act) list \<Rightarrow> ('c, val) act \<Rightarrow> ('c, val) act" where
  "evalWhens chosen [] otherwise = otherwise"
| "evalWhens chosen ((cond, result) # whens) otherwise =
     bnd cond (\<lambda>v. if chosen v then result else evalWhens chosen whens otherwise)"

definition evalCase ::
  "('c, val) act option \<Rightarrow> (('c, val) act \<times> ('c, val) act) list \<Rightarrow> ('c, val) act option \<Rightarrow> ('c, val) act" where
  "evalCase operand whens els =
     (let otherwise = (case els of None \<Rightarrow> ret VNull | Some e \<Rightarrow> e)
      in case operand of
        Some e \<Rightarrow> bnd e (\<lambda>v. evalWhens (\<lambda>candidate. equals v candidate) whens otherwise)
      | None \<Rightarrow> evalWhens truthy whens otherwise)"

text \<open>\<open>iter_items\<close> is the loop of \<^verbatim>\<open>iterList\<close>: \<open>fn\<close> updates an accumulator and may stop. The result of \<open>iterList\<close> is \<open>None\<close>
  for a null list.\<close>

fun iter_items :: "'s World \<Rightarrow> (val \<Rightarrow> 'a \<Rightarrow> ('s Context, bool \<times> 'a) act) \<Rightarrow> val list \<Rightarrow> 'a \<Rightarrow> ('s Context, 'a) act" where
  "iter_items W fn [] acc = ret acc"
| "iter_items W fn (item # items) acc =
     seqA (check W) (bnd (fn item acc) (\<lambda>(stop, acc). if stop then ret acc else iter_items W fn items acc))"

definition iterList ::
  "'s World \<Rightarrow> ('s Context, val) act \<Rightarrow> bytes \<Rightarrow> binding \<Rightarrow> (binding \<Rightarrow> val \<Rightarrow> 'a \<Rightarrow> ('s Context, bool \<times> 'a) act) \<Rightarrow> 'a
     \<Rightarrow> ('s Context, 'a option) act" where
  "iterList W list variable b fn acc =
     bnd list (\<lambda>v.
       case v of
         VNull \<Rightarrow> ret None
       | VList items \<Rightarrow> bnd (iter_items W (\<lambda>item. fn (b(variable \<mapsto> item)) item) items acc) (\<lambda>acc. ret (Some acc))
       | _ \<Rightarrow> throw (ErrExec ''IN requires a list''))"

definition evalListComprehension ::
  "'s World \<Rightarrow> ('s Context, val) act \<Rightarrow> bytes \<Rightarrow> binding \<Rightarrow> (binding \<Rightarrow> ('s Context, val) act) option
     \<Rightarrow> (binding \<Rightarrow> ('s Context, val) act) option \<Rightarrow> ('s Context, val) act" where
  "evalListComprehension W list variable b whr mp =
     bnd (iterList W list variable b
       (\<lambda>row item out.
          bnd (case whr of None \<Rightarrow> ret True | Some w \<Rightarrow> bnd (w row) (\<lambda>v. ret (truthy v))) (\<lambda>keep.
            if \<not> keep then ret (False, out)
            else bnd (case mp of None \<Rightarrow> ret item | Some m \<Rightarrow> m row) (\<lambda>item. ret (False, out @ [item])))) [])
       (\<lambda>r. ret (case r of None \<Rightarrow> VNull | Some out \<Rightarrow> VList out))"

definition quantifier_stop :: "string \<Rightarrow> nat \<Rightarrow> nat \<Rightarrow> bool" where
  "quantifier_stop kind trues falses =
     (if kind = ''any'' \<or> kind = ''none'' then trues > 0 else if kind = ''all'' then falses > 0 else trues > 1)"

definition quantifier_result :: "string \<Rightarrow> nat \<Rightarrow> nat \<Rightarrow> nat \<Rightarrow> val" where
  "quantifier_result kind trues falses unknowns =
     (if kind = ''any'' \<and> trues > 0 then VBool True
      else if kind = ''none'' \<and> trues > 0 then VBool False
      else if kind = ''all'' \<and> falses > 0 then VBool False
      else if kind \<notin> {''any'', ''none'', ''all''} then
        (if trues > 1 then VBool False else if unknowns = 0 then VBool (trues = 1) else VNull)
      else if unknowns > 0 then VNull
      else VBool (kind \<noteq> ''any''))"

definition evalQuantifier ::
  "'s World \<Rightarrow> string \<Rightarrow> ('s Context, val) act \<Rightarrow> bytes \<Rightarrow> binding \<Rightarrow> (binding \<Rightarrow> ('s Context, val) act)
     \<Rightarrow> ('s Context, val) act" where
  "evalQuantifier W kind list variable b whr =
     bnd (iterList W list variable b
       (\<lambda>row _ (trues, falses, unknowns).
          bnd (whr row) (\<lambda>v.
            let (trues, falses, unknowns) =
              (if v = VNull then (trues, falses, Suc unknowns)
               else if truthy v then (Suc trues, falses, unknowns)
               else (trues, Suc falses, unknowns))
            in ret (quantifier_stop kind trues falses, (trues, falses, unknowns)))) (0, 0, 0))
       (\<lambda>r. ret (case r of None \<Rightarrow> VNull | Some (trues, falses, unknowns) \<Rightarrow> quantifier_result kind trues falses unknowns))"

definition regexMatch :: "'s World \<Rightarrow> val \<Rightarrow> val \<Rightarrow> ('s Context, val) act" where
  "regexMatch W l r =
     (case (l, r) of
        (VStr s, VStr pattern) \<Rightarrow> bnd (ctx_regexp W pattern) (\<lambda>re. ret (VBool (re s)))
      | _ \<Rightarrow> ret VNull)"

text \<open>Positions are counted without overflow: a negative one is raised by the length of the list.\<close>

definition list_position :: "i64 \<Rightarrow> nat \<Rightarrow> int" where
  "list_position i n = (if sint i < 0 then sint i + int n else sint i)"

definition evalSubscript :: "'s World \<Rightarrow> ('s Context, val) act \<Rightarrow> ('s Context, val) act \<Rightarrow> ('s Context, val) act" where
  "evalSubscript W target index =
     bnd target (\<lambda>t. bnd index (\<lambda>ix.
       if t = VNull \<or> ix = VNull then ret VNull
       else case t of
         VList xs \<Rightarrow>
           (case normalize ix of
              VInt i \<Rightarrow>
                (let p = list_position i (length xs)
                 in ret (if p < 0 \<or> p \<ge> int (length xs) then VNull else xs ! nat p))
            | _ \<Rightarrow> throw (ErrExec ''list index must be an integer''))
       | VMap m \<Rightarrow>
           (case ix of VStr key \<Rightarrow> ret (map_value m key) | _ \<Rightarrow> throw (ErrExec ''map key must be a string''))
       | VNode _ _ props \<Rightarrow>
           (case ix of VStr key \<Rightarrow> propValue W props key | _ \<Rightarrow> throw (ErrExec ''map key must be a string''))
       | VEdge _ _ _ _ props \<Rightarrow>
           (case ix of VStr key \<Rightarrow> propValue W props key | _ \<Rightarrow> throw (ErrExec ''map key must be a string''))
       | _ \<Rightarrow> throw (ErrExec ''cannot index this value'')))"

text \<open>The bound of a slice: \<open>None\<close> when it is null.\<close>

definition slice_bound :: "('c, val) act option \<Rightarrow> nat \<Rightarrow> nat \<Rightarrow> ('c, nat option) act" where
  "slice_bound e open_bound n =
     (case e of
        None \<Rightarrow> ret (Some open_bound)
      | Some a \<Rightarrow>
          bnd a (\<lambda>v.
            case normalize v of
              VNull \<Rightarrow> ret None
            | VInt i \<Rightarrow> ret (Some (nat (min (max (list_position i n) 0) (int n))))
            | _ \<Rightarrow> throw (ErrExec ''slice bound must be an integer'')))"

definition evalSlice ::
  "('c, val) act \<Rightarrow> ('c, val) act option \<Rightarrow> ('c, val) act option \<Rightarrow> ('c, val) act" where
  "evalSlice target fromE toE =
     bnd target (\<lambda>t.
       case t of
         VNull \<Rightarrow> ret VNull
       | VList xs \<Rightarrow>
           bnd (slice_bound fromE 0 (length xs)) (\<lambda>f.
             case f of
               None \<Rightarrow> ret VNull
             | Some f \<Rightarrow>
                 bnd (slice_bound toE (length xs) (length xs)) (\<lambda>e.
                   case e of
                     None \<Rightarrow> ret VNull
                   | Some e \<Rightarrow> ret (VList (if f \<ge> e then [] else take (e - f) (drop f xs)))))
       | _ \<Rightarrow> throw (ErrExec ''cannot slice this value''))"

definition hasLabel :: "u32 list \<Rightarrow> u32 \<Rightarrow> bool" where
  "hasLabel labels l \<longleftrightarrow> l \<in> set labels"

fun has_labels :: "'s World \<Rightarrow> u32 list \<Rightarrow> bytes list \<Rightarrow> ('s Context, val) act" where
  "has_labels W labels [] = ret (VBool True)"
| "has_labels W labels (name # names) =
     bnd (lookupLabel W name) (\<lambda>(i, found).
       if \<not> found \<or> \<not> hasLabel labels i then ret (VBool False) else has_labels W labels names)"

definition evalLabels :: "'s World \<Rightarrow> ('s Context, val) act \<Rightarrow> bytes list \<Rightarrow> ('s Context, val) act" where
  "evalLabels W target names =
     bnd target (\<lambda>t. case t of VNode _ labels _ \<Rightarrow> has_labels W labels names | _ \<Rightarrow> ret (VBool False))"

definition evalUnary :: "string \<Rightarrow> ('c, val) act \<Rightarrow> ('c, val) act" where
  "evalUnary op e =
     bnd e (\<lambda>v.
       if op = ''NOT'' then
         (case v of VNull \<Rightarrow> ret VNull | VBool b \<Rightarrow> ret (VBool (\<not> b)) | _ \<Rightarrow> throw (ErrExec ''NOT requires a boolean''))
       else if op = ''-'' then
         (case v of
            VInt n \<Rightarrow> liftR (bindR (negateInt n) (\<lambda>m. Inr (VInt m)))
          | VFloat f \<Rightarrow> ret (VFloat (f_negate f))
          | _ \<Rightarrow> throw (ErrExec ''unary minus requires a number''))
       else if op = ''IS NULL'' then ret (VBool (v = VNull))
       else if op = ''IS NOT NULL'' then ret (VBool (v \<noteq> VNull))
       else throw (ErrExec ''unknown unary operator''))"

definition boolOp :: "('c, val) act \<Rightarrow> ('c, val) act \<Rightarrow> bool \<Rightarrow> ('c, val) act" where
  "boolOp left right isOr = bnd left (\<lambda>l. bnd right (\<lambda>r. ret (boolValue l r isOr)))"

definition evalBinary :: "'s World \<Rightarrow> string \<Rightarrow> ('s Context, val) act \<Rightarrow> ('s Context, val) act \<Rightarrow> ('s Context, val) act" where
  "evalBinary W op left right =
     (if op = ''AND'' then boolOp left right False
      else if op = ''OR'' then boolOp left right True
      else bnd left (\<lambda>l. bnd right (\<lambda>r.
        if op = ''='' then ret (equalityOp l r False)
        else if op = ''<>'' then ret (equalityOp l r True)
        else if op \<in> {''<'', ''<='', ''>'', ''>=''} then ret (compareOp op l r)
        else if op \<in> {''+'', ''-'', ''*'', ''/'', ''%''} then liftR (arithmetic op l r)
        else if op = ''=~'' then regexMatch W l r
        else if op = ''STARTS WITH'' then liftR (stringPredicate l r (\<lambda>s t. prefix t s))
        else if op = ''ENDS WITH'' then liftR (stringPredicate l r (\<lambda>s t. suffix t s))
        else if op = ''CONTAINS'' then liftR (stringPredicate l r (\<lambda>s t. sublist t s))
        else if op = ''IN'' then liftR (inList l r)
        else throw (ErrExec ''unknown binary operator''))))"

fun eval :: "'s World \<Rightarrow> Expr \<Rightarrow> binding \<Rightarrow> ('s Context, val) act" where
  "eval W (Literal v _) b = ret v"
| "eval W (Param name _) b =
     (\<lambda>c. (case Params c name of None \<Rightarrow> Inl (ErrExec ''parameter not provided'') | Some v \<Rightarrow> Inr (normalize v), c))"
| "eval W (Variable name _) b =
     (case b name of None \<Rightarrow> throw (ErrExec ''unbound variable'') | Some v \<Rightarrow> ret v)"
| "eval W (PropertyAccess e key _) b = evalProperty W (eval W e b) key"
| "eval W (ListComprehension x e whr mp _) b =
     evalListComprehension W (eval W e b) x b (map_option (\<lambda>w. eval W w) whr) (map_option (\<lambda>m. eval W m) mp)"
| "eval W (Quantifier kind x e whr _) b = evalQuantifier W kind (eval W e b) x b (eval W whr)"
| "eval W (Subscript e i _) b = evalSubscript W (eval W e b) (eval W i b)"
| "eval W (Slice e f t _) b = evalSlice (eval W e b) (map_option (\<lambda>x. eval W x b) f) (map_option (\<lambda>x. eval W x b) t)"
| "eval W (Unary op e _) b = evalUnary op (eval W e b)"
| "eval W (Binary op l r _) b = evalBinary W op (eval W l b) (eval W r b)"
| "eval W (LabelsPredicate e names _) b = evalLabels W (eval W e b) names"
| "eval W (ListLiteral es _) b = bnd (mapA (\<lambda>e. eval W e b) es) (\<lambda>vs. ret (VList vs))"
| "eval W (MapLiteral es _) b =
     bnd (mapA (\<lambda>(k, e). bnd (eval W e b) (\<lambda>v. ret (k, v))) es) (\<lambda>m. ret (VMap m))"
| "eval W (Case operand whens els _) b =
     evalCase (map_option (\<lambda>e. eval W e b) operand) (map (\<lambda>(cond, res). (eval W cond b, eval W res b)) whens)
       (map_option (\<lambda>e. eval W e b) els)"
| "eval W (FunctionCall name _ _ args _) b = evalFunctionCall W name (mapA (\<lambda>e. eval W e b) args)"

section \<open>Evaluation depends on the free variables only\<close>

lemma iterList_cong:
  assumes "\<And>item. fn (b(x \<mapsto> item)) item = fn' (b'(x \<mapsto> item)) item"
  shows "iterList W list x b fn acc = iterList W list x b' fn' acc"
  unfolding iterList_def assms ..

lemma evalListComprehension_cong:
  assumes "\<And>w item. w \<in> set_option whr \<Longrightarrow> w (b(x \<mapsto> item)) = w (b'(x \<mapsto> item))"
    and "\<And>m item. m \<in> set_option mp \<Longrightarrow> m (b(x \<mapsto> item)) = m (b'(x \<mapsto> item))"
  shows "evalListComprehension W list x b whr mp = evalListComprehension W list x b' whr mp"
proof -
  have "(case whr of None \<Rightarrow> ret True | Some w \<Rightarrow> bnd (w (b(x \<mapsto> item))) (\<lambda>v. ret (truthy v))) =
      (case whr of None \<Rightarrow> ret True | Some w \<Rightarrow> bnd (w (b'(x \<mapsto> item))) (\<lambda>v. ret (truthy v)))"
    "(case mp of None \<Rightarrow> ret item | Some m \<Rightarrow> m (b(x \<mapsto> item))) = (case mp of None \<Rightarrow> ret item | Some m \<Rightarrow> m (b'(x \<mapsto> item)))" for item
    using assms by (cases whr; simp) (cases mp; simp add: assms(2))
  then show ?thesis unfolding evalListComprehension_def
    by (intro arg_cong [where f = "\<lambda>a. bnd a f" for f] iterList_cong) (simp only:)
qed

lemma evalQuantifier_cong:
  assumes "\<And>item. whr (b(x \<mapsto> item)) = whr (b'(x \<mapsto> item))"
  shows "evalQuantifier W kind list x b whr = evalQuantifier W kind list x b' whr"
  unfolding evalQuantifier_def
  by (intro arg_cong [where f = "\<lambda>a. bnd a f" for f] iterList_cong) (simp add: assms)

lemma upd_agree: "\<forall>y \<in> S - {x}. b y = b' y \<Longrightarrow> \<forall>y \<in> S. (b(x \<mapsto> v)) y = (b'(x \<mapsto> v)) y"
  by auto

lemma eval_agree: "\<forall>x \<in> fv e. b x = b' x \<Longrightarrow> eval W e b = eval W e b'"
proof (induction W e b arbitrary: b' rule: eval.induct)
  case (4 W e key p b)
  then have "eval W e b = eval W e b'" by simp
  then show ?case by simp
next
  case (7 W e i p b)
  then have "eval W e b = eval W e b'" "eval W i b = eval W i b'" by simp_all
  then show ?case by simp
next
  case (9 W op e p b)
  then have "eval W e b = eval W e b'" by simp
  then show ?case by simp
next
  case (10 W op l r p b)
  then have "eval W l b = eval W l b'" "eval W r b = eval W r b'" by simp_all
  then show ?case by simp
next
  case (11 W e names p b)
  then have "eval W e b = eval W e b'" by simp
  then show ?case by simp
next
  case (5 W x e whr mp p b)
  have "eval W e b = eval W e b'" using 5 by simp
  moreover have "eval W w (b(x \<mapsto> v)) = eval W w (b'(x \<mapsto> v))" if "w \<in> set_option whr" for w v
    using 5 that by (intro 5(2)) auto
  moreover have "eval W w (b(x \<mapsto> v)) = eval W w (b'(x \<mapsto> v))" if "w \<in> set_option mp" for w v
    using 5 that by (intro 5(3)) auto
  ultimately show ?case by (auto simp: option.set_map intro!: evalListComprehension_cong)
next
  case (6 W kind x e whr p b)
  have "eval W e b = eval W e b'" using 6 by simp
  moreover have "eval W whr (b(x \<mapsto> v)) = eval W whr (b'(x \<mapsto> v))" for v using 6 by (intro 6(2)) auto
  ultimately show ?case by (auto intro!: evalQuantifier_cong)
next
  case (8 W e f t p b)
  then have "eval W e b = eval W e b'" "map_option (\<lambda>x. eval W x b) f = map_option (\<lambda>x. eval W x b') f"
    "map_option (\<lambda>x. eval W x b) t = map_option (\<lambda>x. eval W x b') t"
    by (auto intro!: option.map_cong0)
  then show ?case by simp
next
  case (12 W es p b)
  then show ?case by (auto intro!: mapA_cong arg_cong [where f = "\<lambda>a. bnd a f" for f])
next
  case (13 W es p b)
  have "eval W e b = eval W e b'" if "(k, e) \<in> set es" for k e using 13 that by fastforce
  then show ?case by (auto intro!: mapA_cong arg_cong [where f = "\<lambda>a. bnd a f" for f])
next
  case (14 W d ws els p b)
  have "map_option (\<lambda>x. eval W x b) d = map_option (\<lambda>x. eval W x b') d" "map_option (\<lambda>x. eval W x b) els = map_option (\<lambda>x. eval W x b') els"
    using 14 by (auto intro!: option.map_cong0)
  moreover have "eval W e b = eval W e b' \<and> eval W r b = eval W r b'" if "(e, r) \<in> set ws" for e r
  proof -
    have "\<forall>x \<in> fv e. b x = b' x" "\<forall>x \<in> fv r. b x = b' x" using 14(5) that by force+
    then show ?thesis using 14(2,3) [OF that refl] by simp
  qed
  then have "map (\<lambda>(cond, res). (eval W cond b, eval W res b)) ws = map (\<lambda>(cond, res). (eval W cond b', eval W res b')) ws"
    by auto
  ultimately show ?case by (simp only: eval.simps)
next
  case (15 W name d s args p b)
  have "mapA (\<lambda>e. eval W e b) args = mapA (\<lambda>e. eval W e b') args" using 15 by (auto intro!: mapA_cong)
  then show ?case by simp
qed auto

section \<open>Evaluation reads, and its caches cannot be observed\<close>

text \<open>
  The caches of a context are valid when they hold what a lookup or a compilation would give now.
  Two contexts are \<open>alike\<close> when they differ in their caches only, both valid. An action is \<open>reading\<close> when
  alike contexts give equal results and alike contexts, and the transaction is left as it was.
\<close>

definition caches_ok :: "'s World \<Rightarrow> 's Context \<Rightarrow> bool" where
  "caches_ok W c \<longleftrightarrow>
     (\<forall>name i. keyIDs c name = Some i \<longrightarrow> LookupKey (Store W) name (ctxTxn c) = Inr (i, True)) \<and>
     (\<forall>name i. labelIDs c name = Some i \<longrightarrow> LookupLabel (Store W) name (ctxTxn c) = Inr (i, True)) \<and>
     (\<forall>p re. regexps c p = Some re \<longrightarrow> regexp_Compile W (str ''^(?:'' @ p @ str '')$'') = Some re)"

definition uncached :: "'s Context \<Rightarrow> 's Context" where
  "uncached c = c\<lparr>keyIDs := Map.empty, labelIDs := Map.empty, regexps := Map.empty\<rparr>"

definition alike :: "'s World \<Rightarrow> 's Context \<Rightarrow> 's Context \<Rightarrow> bool" where
  "alike W c c' \<longleftrightarrow> caches_ok W c \<and> caches_ok W c' \<and> uncached c = uncached c'"

definition kept :: "'s Context \<Rightarrow> 's \<times> (bytes \<rightharpoonup> val) \<times> i64" where
  "kept c = (ctxTxn c, Params c, MaxRows c)"

lemma kept_update [simp]:
  "kept (c\<lparr>moment := n\<rparr>) = kept c" "kept (c\<lparr>now := t\<rparr>) = kept c" "kept (c\<lparr>keyIDs := ks\<rparr>) = kept c"
  "kept (c\<lparr>labelIDs := ls\<rparr>) = kept c" "kept (c\<lparr>regexps := rs\<rparr>) = kept c"
  by (simp_all add: kept_def)

definition reading :: "'s World \<Rightarrow> ('s Context, 'a) act \<Rightarrow> bool" where
  "reading W a \<longleftrightarrow>
     (\<forall>c. kept (snd (a c)) = kept c) \<and>
     (\<forall>c c'. alike W c c' \<longrightarrow> fst (a c) = fst (a c') \<and> alike W (snd (a c)) (snd (a c')))"

named_theorems reading_intros

lemma alike_fields:
  assumes "alike W c c'"
  shows "ctxTxn c = ctxTxn c'" "Params c = Params c'" "now c = now c'" "moment c = moment c'" "MaxRows c = MaxRows c'"
  using assms by (cases c; cases c'; simp add: alike_def uncached_def)+

lemma alike_update:
  assumes "alike W c c'"
  shows "alike W (c\<lparr>moment := n\<rparr>) (c'\<lparr>moment := n\<rparr>)" "alike W (c\<lparr>now := t\<rparr>) (c'\<lparr>now := t\<rparr>)"
  using assms by (cases c; cases c'; simp add: alike_def uncached_def caches_ok_def)+

lemma reading_ret [reading_intros]: "reading W (ret x)" "reading W (throw e)" "reading W (liftR r)"
  by (simp_all add: reading_def ret_def throw_def liftR_def alike_fields)

lemma readingI:
  assumes "\<And>c. kept (snd (a c)) = kept c" "\<And>c c'. alike W c c' \<Longrightarrow> fst (a c) = fst (a c') \<and> alike W (snd (a c)) (snd (a c'))"
  shows "reading W a"
  using assms by (simp add: reading_def)

lemma reading_kept: "reading W a \<Longrightarrow> kept (snd (a c)) = kept c"
  by (simp add: reading_def)

lemma reading_txn: "reading W a \<Longrightarrow> ctxTxn (snd (a c)) = ctxTxn c"
  using reading_kept by (fastforce simp: kept_def)

lemma reading_bnd [reading_intros]: "reading W a \<Longrightarrow> (\<And>x. reading W (f x)) \<Longrightarrow> reading W (bnd a f)"
proof (rule readingI)
  fix c
  assume "reading W a" "\<And>x. reading W (f x)"
  then show "kept (snd (bnd a f c)) = kept c"
    using reading_kept [of W a c] reading_kept [of W "f (projr (fst (a c)))" "snd (a c)"] by (auto simp: bnd_def split: prod.split sum.split)
next
  fix c c'
  assume "reading W a" and f: "\<And>x. reading W (f x)" and "alike W c c'"
  then have a: "fst (a c) = fst (a c')" "alike W (snd (a c)) (snd (a c'))" by (simp_all add: reading_def)
  show "fst (bnd a f c) = fst (bnd a f c') \<and> alike W (snd (bnd a f c)) (snd (bnd a f c'))"
  proof (cases "fst (a c)")
    case (Inl e)
    then show ?thesis using a by (cases "a c"; cases "a c'") (auto simp: bnd_def)
  next
    case (Inr x)
    then show ?thesis using a f [of x] by (cases "a c"; cases "a c'") (auto simp: bnd_def reading_def)
  qed
qed

lemma reading_seqA [reading_intros]: "reading W a \<Longrightarrow> reading W f \<Longrightarrow> reading W (seqA a f)"
  unfolding seqA_def by (rule reading_bnd)

lemma reading_query [reading_intros]: "reading W (query f)"
  by (simp add: reading_def query_def alike_fields)

lemma reading_observe [reading_intros]: "reading W (observe f)"
  by (simp add: reading_def observe_def alike_fields alike_update)

lemma reading_mapA [reading_intros]: "(\<And>x. x \<in> set xs \<Longrightarrow> reading W (f x)) \<Longrightarrow> reading W (mapA f xs)"
  by (induction xs) (auto intro!: reading_intros)

lemma reading_check [reading_intros]: "reading W (check W)"
  unfolding check_def by (intro reading_intros) (auto split: option.split intro: reading_intros)

lemma reading_timestamp [reading_intros]: "reading W (timestamp W)"
proof -
  have "reading W (bnd (observe (UnixMilli W)) (\<lambda>t c. (Inr t, c\<lparr>now := t\<rparr>)))"
    by (intro reading_intros) (simp add: reading_def alike_update)
  then show ?thesis unfolding reading_def timestamp_def by (auto simp: alike_fields split: if_splits)
qed

lemma alike_lookup:
  assumes "alike W c c'" "LookupKey (Store W) name (ctxTxn c) = Inr (i, True)"
  shows "alike W (c\<lparr>keyIDs := (keyIDs c)(name \<mapsto> i)\<rparr>) c'" "alike W c (c'\<lparr>keyIDs := (keyIDs c')(name \<mapsto> i)\<rparr>)"
    "alike W (c\<lparr>keyIDs := (keyIDs c)(name \<mapsto> i)\<rparr>) (c'\<lparr>keyIDs := (keyIDs c')(name \<mapsto> i)\<rparr>)"
  using assms by (cases c; cases c'; auto simp: alike_def uncached_def caches_ok_def)+

lemma reading_lookupKey [reading_intros]: "reading W (lookupKey W name)"
proof (rule readingI)
  show "kept (snd (lookupKey W name c)) = kept c" for c
    by (auto simp: lookupKey_def split: option.split sum.split prod.split)
next
  fix c c'
  assume a: "alike W c c'"
  have same: "ctxTxn c' = ctxTxn c" using alike_fields [OF a] by simp
  have valid: "LookupKey (Store W) name (ctxTxn c) = Inr (i, True)" if "keyIDs c name = Some i \<or> keyIDs c' name = Some i" for i
    using a that same by (auto simp: alike_def caches_ok_def)
  show "fst (lookupKey W name c) = fst (lookupKey W name c') \<and> alike W (snd (lookupKey W name c)) (snd (lookupKey W name c'))"
  proof (cases "\<exists>i. LookupKey (Store W) name (ctxTxn c) = Inr (i, True)")
    case True
    then obtain i where i: "LookupKey (Store W) name (ctxTxn c) = Inr (i, True)" ..
    have "keyIDs c name \<in> {None, Some i}" using valid [of "the (keyIDs c name)"] i by (cases "keyIDs c name") auto
    moreover have "keyIDs c' name \<in> {None, Some i}" using valid [of "the (keyIDs c' name)"] i by (cases "keyIDs c' name") auto
    ultimately show ?thesis using a alike_lookup [OF a i] by (auto simp: lookupKey_def same i)
  next
    case False
    then have "keyIDs c name = None" "keyIDs c' name = None"
      using valid [of "the (keyIDs c name)"] valid [of "the (keyIDs c' name)"] by (cases "keyIDs c name"; cases "keyIDs c' name"; simp)+
    then show ?thesis using a False by (auto simp: lookupKey_def same split: sum.split prod.split)
  qed
qed

lemma alike_lookup_label:
  assumes "alike W c c'" "LookupLabel (Store W) name (ctxTxn c) = Inr (i, True)"
  shows "alike W (c\<lparr>labelIDs := (labelIDs c)(name \<mapsto> i)\<rparr>) c'" "alike W c (c'\<lparr>labelIDs := (labelIDs c')(name \<mapsto> i)\<rparr>)"
    "alike W (c\<lparr>labelIDs := (labelIDs c)(name \<mapsto> i)\<rparr>) (c'\<lparr>labelIDs := (labelIDs c')(name \<mapsto> i)\<rparr>)"
  using assms by (cases c; cases c'; auto simp: alike_def uncached_def caches_ok_def)+

lemma reading_lookupLabel [reading_intros]: "reading W (lookupLabel W name)"
proof (rule readingI)
  show "kept (snd (lookupLabel W name c)) = kept c" for c
    by (auto simp: lookupLabel_def split: option.split sum.split prod.split)
next
  fix c c'
  assume a: "alike W c c'"
  have same: "ctxTxn c' = ctxTxn c" using alike_fields [OF a] by simp
  have valid: "LookupLabel (Store W) name (ctxTxn c) = Inr (i, True)" if "labelIDs c name = Some i \<or> labelIDs c' name = Some i" for i
    using a that same by (auto simp: alike_def caches_ok_def)
  show "fst (lookupLabel W name c) = fst (lookupLabel W name c') \<and> alike W (snd (lookupLabel W name c)) (snd (lookupLabel W name c'))"
  proof (cases "\<exists>i. LookupLabel (Store W) name (ctxTxn c) = Inr (i, True)")
    case True
    then obtain i where i: "LookupLabel (Store W) name (ctxTxn c) = Inr (i, True)" ..
    have "labelIDs c name \<in> {None, Some i}" using valid [of "the (labelIDs c name)"] i by (cases "labelIDs c name") auto
    moreover have "labelIDs c' name \<in> {None, Some i}" using valid [of "the (labelIDs c' name)"] i by (cases "labelIDs c' name") auto
    ultimately show ?thesis using a alike_lookup_label [OF a i] by (auto simp: lookupLabel_def same i)
  next
    case False
    then have "labelIDs c name = None" "labelIDs c' name = None"
      using valid [of "the (labelIDs c name)"] valid [of "the (labelIDs c' name)"] by (cases "labelIDs c name"; cases "labelIDs c' name"; simp)+
    then show ?thesis using a False by (auto simp: lookupLabel_def same split: sum.split prod.split)
  qed
qed

lemma alike_regexp:
  assumes "alike W c c'" "regexp_Compile W (str ''^(?:'' @ p @ str '')$'') = Some re"
  shows "alike W (c\<lparr>regexps := (regexps c)(p \<mapsto> re)\<rparr>) c'" "alike W c (c'\<lparr>regexps := (regexps c')(p \<mapsto> re)\<rparr>)"
    "alike W (c\<lparr>regexps := (regexps c)(p \<mapsto> re)\<rparr>) (c'\<lparr>regexps := (regexps c')(p \<mapsto> re)\<rparr>)"
  using assms by (cases c; cases c'; auto simp: alike_def uncached_def caches_ok_def)+

lemma reading_regexp [reading_intros]: "reading W (ctx_regexp W p)"
proof (rule readingI)
  show "kept (snd (ctx_regexp W p c)) = kept c" for c by (auto simp: ctx_regexp_def split: option.split)
next
  fix c c'
  assume a: "alike W c c'"
  let ?f = "regexp_Compile W (str ''^(?:'' @ p @ str '')$'')"
  have valid: "?f = Some re" if "regexps c p = Some re \<or> regexps c' p = Some re" for re
    using a that by (auto simp: alike_def caches_ok_def)
  show "fst (ctx_regexp W p c) = fst (ctx_regexp W p c') \<and> alike W (snd (ctx_regexp W p c)) (snd (ctx_regexp W p c'))"
  proof (cases ?f)
    case None
    then have "regexps c p = None" "regexps c' p = None"
      using valid [of "the (regexps c p)"] valid [of "the (regexps c' p)"] by (cases "regexps c p"; cases "regexps c' p"; simp)+
    then show ?thesis using a None by (simp add: ctx_regexp_def)
  next
    case (Some re)
    then have "regexps c p \<in> {None, Some re}" "regexps c' p \<in> {None, Some re}"
      using valid [of "the (regexps c p)"] valid [of "the (regexps c' p)"] by (cases "regexps c p"; cases "regexps c' p"; simp)+
    then show ?thesis using a alike_regexp [OF a Some] Some by (auto simp: ctx_regexp_def)
  qed
qed

lemma reading_if [reading_intros]: "reading W a \<Longrightarrow> reading W b \<Longrightarrow> reading W (if P then a else b)"
  by simp

lemma reading_option [reading_intros]:
  "reading W a \<Longrightarrow> (\<And>x. v = Some x \<Longrightarrow> reading W (f x)) \<Longrightarrow> reading W (case v of None \<Rightarrow> a | Some x \<Rightarrow> f x)"
  by (cases v) auto

lemma reading_prod [reading_intros]: "(\<And>x y. reading W (f x y)) \<Longrightarrow> reading W (case p of (x, y) \<Rightarrow> f x y)"
  by (cases p) auto

lemma reading_val [reading_intros]:
  assumes "reading W n" "\<And>x. reading W (b x)" "\<And>x. reading W (i x)" "\<And>x. reading W (g x)" "\<And>x. reading W (f x)" "\<And>x. reading W (s x)"
    "\<And>x. reading W (l x)" "\<And>x. reading W (m x)" "\<And>x y z. reading W (nd x y z)" "\<And>x y z u w. reading W (ed x y z u w)"
    "\<And>x. reading W (rs x)" "\<And>x y. reading W (p x y)"
  shows "reading W (case v of VNull \<Rightarrow> n | VBool x \<Rightarrow> b x | VInt x \<Rightarrow> i x | VGoInt x \<Rightarrow> g x | VFloat x \<Rightarrow> f x | VStr x \<Rightarrow> s x
     | VList x \<Rightarrow> l x | VMap x \<Rightarrow> m x | VNode x y z \<Rightarrow> nd x y z | VEdge x y z u w \<Rightarrow> ed x y z u w | VRels x \<Rightarrow> rs x | VPath x y \<Rightarrow> p x y)"
  using assms by (cases v) auto

lemma reading_props_map [reading_intros]: "reading W (props_map W props out)"
  by (induction props arbitrary: out) (auto intro!: reading_intros)

lemma reading_pure_fn [reading_intros]: "reading W (pure_fn f W args)"
  unfolding pure_fn_def by (rule reading_intros)

lemma reading_scalarFuncs: "scalarFuncs name = Some fn \<Longrightarrow> reading W (fn W args)"
  unfolding scalarFuncs_def
  by (drule map_of_SomeD)
    (auto simp: fnLabels_def fnType_def fnKeys_def keyNames_def fnProperties_def propsMap_def fnStartNode_def fnEndNode_def
      edgeEnd_def fnRand_def fnTimestamp_def intro!: reading_intros)

lemma reading_evalWhens:
  "list_all (\<lambda>(c, r). reading W c \<and> reading W r) ws \<Longrightarrow> reading W e \<Longrightarrow> reading W (evalWhens f ws e)"
  by (induction ws) (auto intro!: reading_intros)

lemma reading_iter_items: "(\<And>item acc. reading W (fn item acc)) \<Longrightarrow> reading W (iter_items W fn items acc)"
  by (induction items arbitrary: acc) (auto intro!: reading_intros)

lemma reading_iterList:
  "reading W list \<Longrightarrow> (\<And>row item acc. reading W (fn row item acc)) \<Longrightarrow> reading W (iterList W list x b fn acc)"
  unfolding iterList_def by (intro reading_intros reading_iter_items) auto

lemma reading_propValue [reading_intros]: "reading W (propValue W props key)"
  unfolding propValue_def by (intro reading_intros)

lemma reading_has_labels [reading_intros]: "reading W (has_labels W labels names)"
  by (induction names) (auto intro!: reading_intros)

lemma reading_slice_bound: "(\<And>a. a \<in> set_option e \<Longrightarrow> reading W a) \<Longrightarrow> reading W (slice_bound e n m)"
  unfolding slice_bound_def by (intro reading_intros) auto

lemma reading_regexMatch [reading_intros]: "reading W (regexMatch W l r)"
  unfolding regexMatch_def by (cases l; cases r) (auto intro!: reading_intros)

lemma reading_eval: "reading W (eval W e b)"
proof (induction W e b rule: eval.induct)
  case (2 W name p b)
  then show ?case by (auto simp: reading_def alike_fields)
next
  case (3 W name p b)
  then show ?case by (auto intro: reading_intros split: option.split)
next
  case (4 W e key p b)
  then show ?case by (auto simp: evalProperty_def intro!: reading_intros)
next
  case (5 W x e whr mp p b)
  have w: "reading W (w row)" if "map_option (eval W) whr = Some w" for w row using 5(2) that by auto
  have m: "reading W (m row)" if "map_option (eval W) mp = Some m" for m row using 5(3) that by auto
  show ?case unfolding eval.simps evalListComprehension_def by (intro reading_intros reading_iterList 5(1) w m)
next
  case (6 W kind x e whr p b)
  then show ?case by (auto simp: evalQuantifier_def Let_def intro!: reading_intros reading_iterList)
next
  case (7 W e i p b)
  then show ?case by (auto simp: evalSubscript_def Let_def intro!: reading_intros)
next
  case (8 W e f t p b)
  then show ?case by (auto simp: evalSlice_def option.set_map intro!: reading_intros reading_slice_bound)
next
  case (9 W op e p b)
  then show ?case by (auto simp: evalUnary_def intro!: reading_intros)
next
  case (10 W op l r p b)
  then show ?case by (auto simp: evalBinary_def boolOp_def intro!: reading_intros)
next
  case (11 W e names p b)
  then show ?case by (auto simp: evalLabels_def intro!: reading_intros)
next
  case (13 W es p b)
  then show ?case by (auto intro!: reading_intros)
next
  case (14 W d ws els p b)
  have "reading W (case map_option (\<lambda>e. eval W e b) els of None \<Rightarrow> ret VNull | Some e \<Rightarrow> e)"
    using 14(4) by (cases els) (auto intro: reading_intros)
  moreover have "list_all (\<lambda>(c, r). reading W c \<and> reading W r) (map (\<lambda>(cond, res). (eval W cond b, eval W res b)) ws)"
    using 14(2,3) by (auto simp: list_all_iff)
  ultimately have "reading W (evalWhens f (map (\<lambda>(cond, res). (eval W cond b, eval W res b)) ws)
      (case map_option (\<lambda>e. eval W e b) els of None \<Rightarrow> ret VNull | Some e \<Rightarrow> e))" for f
    by (intro reading_evalWhens)
  then show ?case using 14(1) by (cases d) (auto simp: evalCase_def Let_def intro!: reading_intros)
next
  case (15 W name d s args p b)
  then have "reading W (bnd (mapA (\<lambda>e. eval W e b) args) (\<lambda>vs. fn W vs))" if "scalarFuncs (ToLower W name) = Some fn" for fn
    using that by (intro reading_intros) (auto intro: reading_scalarFuncs)
  then show ?case unfolding eval.simps evalFunctionCall_def by (auto split: option.split intro: reading_ret)
qed (auto intro!: reading_intros)

text \<open>
  C19. The value of an expression depends on the row only through the expression's free variables: rows that
  agree on them give the same result, the same error and the same context. A comprehension or a quantifier binds its
  variable, so an outer variable of that name does not matter.
\<close>

theorem eval_free_variables:
  assumes "\<forall>x \<in> fv e. b x = b' x"
  shows "eval W e b c = eval W e b' c"
  using eval_agree [OF assms, of W] by simp

definition p0 :: Pos where
  "p0 = \<lparr>Offset = 0, Line = 1, Col = 1\<rparr>"

theorem eval_free_variables_witness:
  "fst (eval (undefined :: unit World) (Slice (Variable [120] p0) (Some (Variable [121] p0)) None p0)
     [[120] \<mapsto> VList [VInt 1, VInt 2], [121] \<mapsto> VInt 1, [122] \<mapsto> VInt 3] undefined) = Inr (VList [VInt 2])"
proof -
  let ?e = "Slice (Variable [120] p0) (Some (Variable [121] p0)) None p0"
  let ?b = "[[120] \<mapsto> VList [VInt 1, VInt 2], [121] \<mapsto> VInt 1] :: binding"
  have "fst (eval (undefined :: unit World) ?e ?b undefined) = Inr (VList [VInt 2])"
    by (simp add: evalSlice_def slice_bound_def ret_def bnd_def Values.normalize_def list_position_def)
  moreover have "\<forall>x \<in> fv ?e. ?b x = ([[120] \<mapsto> VList [VInt 1, VInt 2], [121] \<mapsto> VInt 1, [122] \<mapsto> VInt 3]) x" by simp
  ultimately show ?thesis by (simp only: eval_free_variables [symmetric])
qed

text \<open>
  C18. Evaluating an expression never writes to the transaction, and its caches cannot be observed: with valid caches
  it gives the value or the error that it gives with empty ones, and leaves the caches valid.
\<close>

theorem eval_caches_transparent:
  assumes "caches_ok W c"
  shows "fst (eval W e b c) = fst (eval W e b (uncached c)) \<and> ctxTxn (snd (eval W e b c)) = ctxTxn c \<and>
    caches_ok W (snd (eval W e b c))"
proof -
  have "alike W c (uncached c)" using assms by (simp add: alike_def uncached_def caches_ok_def)
  then show ?thesis using reading_eval [of W e b] reading_txn [OF reading_eval, of W e b c] unfolding reading_def alike_def by blast
qed

text \<open>A concrete world over a store: no cancellation, and a library that knows ASCII only.\<close>

definition plainWorld :: "'s Txn \<Rightarrow> 's World" where
  "plainWorld T =
     \<lparr>Store = T, unicode_ToUpper = id, unicode_ToLower = id, ParseFloat = (\<lambda>_. None), FormatFloat = (\<lambda>_. []), fmt_v = (\<lambda>_. []),
      fmt_g = (\<lambda>_. []), regexp_Compile = (\<lambda>_. None), float_overflow = (\<lambda>_. minInt64), Ctx_Err = (\<lambda>_. None), UnixMilli = (\<lambda>_. 1),
      rand_Float64 = (\<lambda>_. 0)\<rparr>"

definition startContext :: "'s \<Rightarrow> 's Context" where
  "startContext s =
     \<lparr>ctxTxn = s, Params = Map.empty, MaxRows = 0, keyIDs = Map.empty, labelIDs = Map.empty, regexps = Map.empty, now = 0, moment = 0\<rparr>"

theorem eval_caches_transparent_witness:
  "let W = plainWorld (boltTxn memBucket);
       c = startContext (mem_txn (fmupd (fwdKey tagKeyFwd [112]) (PutUint32 7) fmempty));
       e = PropertyAccess (Literal (VNode 1 [] [(7, VInt 42)]) p0) [112] p0
   in fst (eval W e Map.empty (c\<lparr>keyIDs := [[112] \<mapsto> 7]\<rparr>)) = Inr (VInt 42) \<and> fst (eval W e Map.empty c) = Inr (VInt 42)"
proof -
  let ?W = "plainWorld (boltTxn memBucket)" and ?s = "mem_txn (fmupd (fwdKey tagKeyFwd [112]) (PutUint32 7) fmempty)"
  let ?c = "startContext ?s" and ?e = "PropertyAccess (Literal (VNode 1 [] [(7, VInt 42)]) p0) [112] p0"
  have "LookupKey (boltTxn memBucket) [112] ?s = Inr (7, True)" by code_simp
  then have ok: "caches_ok ?W (?c\<lparr>keyIDs := [[112] \<mapsto> 7]\<rparr>)" by (simp add: caches_ok_def startContext_def plainWorld_def)
  have "fst (eval ?W ?e Map.empty (?c\<lparr>keyIDs := [[112] \<mapsto> 7]\<rparr>)) = Inr (VInt 42)"
    by (simp add: evalProperty_def propValue_def lookupKey_def bnd_def ret_def)
  with eval_caches_transparent [OF ok, of ?e Map.empty] show ?thesis by (simp add: uncached_def startContext_def Let_def)
qed

section \<open>Quantifiers\<close>

fun tally :: "string \<Rightarrow> (val \<Rightarrow> val) \<Rightarrow> val list \<Rightarrow> nat \<times> nat \<times> nat \<Rightarrow> nat \<times> nat \<times> nat" where
  "tally kind f [] acc = acc"
| "tally kind f (item # items) (t, n, u) =
     (let (t, n, u) = (if f item = VNull then (t, n, Suc u) else if truthy (f item) then (Suc t, n, u) else (t, Suc n, u))
      in if quantifier_stop kind t n then (t, n, u) else tally kind f items (t, n, u))"

lemma iter_tally:
  assumes "Ctx_Err W = (\<lambda>_. None)" "\<And>item c. item \<in> set items \<Longrightarrow> fst (p item c) = Inr (f item)"
  shows "fst (iter_items W (\<lambda>item (t, n, u). bnd (p item) (\<lambda>v.
            let (t, n, u) = (if v = VNull then (t, n, Suc u) else if truthy v then (Suc t, n, u) else (t, Suc n, u))
            in ret (quantifier_stop kind t n, (t, n, u)))) items acc c) = Inr (tally kind f items acc)"
  using assms(2)
proof (induction items arbitrary: acc c)
  case Nil
  then show ?case by (simp add: ret_def)
next
  case (Cons item items)
  obtain t n u where acc: "acc = (t, n, u)" by (cases acc)
  have chk: "check W c = (Inr (), c\<lparr>moment := Suc (moment c)\<rparr>)" by (simp add: check_def observe_def bnd_def ret_def assms(1))
  obtain c' where p: "p item (c\<lparr>moment := Suc (moment c)\<rparr>) = (Inr (f item), c')"
    using Cons.prems [of item "c\<lparr>moment := Suc (moment c)\<rparr>"] by (cases "p item (c\<lparr>moment := Suc (moment c)\<rparr>)") auto
  show ?case using Cons by (simp add: acc seqA_def bnd_def chk p ret_def Let_def)
qed

lemma tally_any:
  assumes "\<And>item. item \<in> set items \<Longrightarrow> f item \<in> {VNull, VBool True, VBool False}"
  shows "(case tally ''any'' f items (0, n, u) of (t, n, u) \<Rightarrow> quantifier_result ''any'' t n u) =
    (let r = foldr (\<lambda>item acc. boolValue (f item) acc True) items (VBool False)
     in if r = VBool True then VBool True else if u > 0 \<or> r = VNull then VNull else VBool False)"
  using assms
proof (induction items arbitrary: n u)
  case Nil
  then show ?case by (simp add: quantifier_result_def)
next
  case (Cons item items)
  have IH: "(case tally ''any'' f items (0, n, u) of (t, n, u) \<Rightarrow> quantifier_result ''any'' t n u) =
    (let r = foldr (\<lambda>item acc. boolValue (f item) acc True) items (VBool False)
     in if r = VBool True then VBool True else if u > 0 \<or> r = VNull then VNull else VBool False)" for n u using Cons by simp
  have r: "foldr (\<lambda>item acc. boolValue (f item) acc True) items (VBool False) \<in> {VNull, VBool True, VBool False}"
    by (cases items) (auto simp: boolValue_def)
  consider "f item = VNull" | "f item = VBool True" | "f item = VBool False" using Cons.prems [of item] by auto
  then show ?case using r IH
    by cases (auto simp: quantifier_stop_def quantifier_result_def truthy_def boolValue_def Let_def)
qed

lemma tally_all:
  assumes "\<And>item. item \<in> set items \<Longrightarrow> f item \<in> {VNull, VBool True, VBool False}"
  shows "(case tally ''all'' f items (t, 0, u) of (t, n, u) \<Rightarrow> quantifier_result ''all'' t n u) =
    (let r = foldr (\<lambda>item acc. boolValue (f item) acc False) items (VBool True)
     in if r = VBool False then VBool False else if u > 0 \<or> r = VNull then VNull else VBool True)"
  using assms
proof (induction items arbitrary: t u)
  case Nil
  then show ?case by (simp add: quantifier_result_def)
next
  case (Cons item items)
  have IH: "(case tally ''all'' f items (t, 0, u) of (t, n, u) \<Rightarrow> quantifier_result ''all'' t n u) =
    (let r = foldr (\<lambda>item acc. boolValue (f item) acc False) items (VBool True)
     in if r = VBool False then VBool False else if u > 0 \<or> r = VNull then VNull else VBool True)" for t u using Cons by simp
  have r: "foldr (\<lambda>item acc. boolValue (f item) acc False) items (VBool True) \<in> {VNull, VBool True, VBool False}"
    by (cases items) (auto simp: boolValue_def)
  consider "f item = VNull" | "f item = VBool True" | "f item = VBool False" using Cons.prems [of item] by auto
  then show ?case using r IH
    by cases (auto simp: quantifier_stop_def quantifier_result_def truthy_def boolValue_def Let_def)
qed

lemma quantifier_tally:
  assumes "Ctx_Err W = (\<lambda>_. None)" "fst (eval W e b c) = Inr (VList items)"
    "\<And>item c. item \<in> set items \<Longrightarrow> fst (eval W p (b(x \<mapsto> item)) c) = Inr (f item)"
  shows "fst (eval W (Quantifier kind x e p pos) b c) =
    Inr (case tally kind f items (0, 0, 0) of (t, n, u) \<Rightarrow> quantifier_result kind t n u)"
proof -
  let ?fn = "\<lambda>item (t, n, u). bnd (eval W p (b(x \<mapsto> item))) (\<lambda>v.
      let (t, n, u) = (if v = VNull then (t, n, Suc u) else if truthy v then (Suc t, n, u) else (t, Suc n, u))
      in ret (quantifier_stop kind t n, (t, n, u)))"
  obtain c' where c': "eval W e b c = (Inr (VList items), c')" using assms(2) by (cases "eval W e b c") auto
  have "fst (iter_items W ?fn items (0, 0, 0) c') = Inr (tally kind f items (0, 0, 0))"
    by (rule iter_tally [OF assms(1)]) (rule assms(3))
  then obtain c'' where "iter_items W ?fn items (0, 0, 0) c' = (Inr (tally kind f items (0, 0, 0)), c'')"
    by (cases "iter_items W ?fn items (0, 0, 0) c'") auto
  then show ?thesis by (simp add: evalQuantifier_def iterList_def bnd_def c' ret_def)
qed

text \<open>
  C20. The quantifiers are the connectives of the three-valued logic: when the predicate is true, false or null for
  each element, \<^verbatim>\<open>any\<close> gives the disjunction and \<^verbatim>\<open>all\<close> the conjunction of its values, nulls included, although both
  stop at the first element that decides.
\<close>

theorem quantifier_kleene:
  assumes "Ctx_Err W = (\<lambda>_. None)" and "fst (eval W e b c) = Inr (VList items)"
    and "\<forall>item \<in> set items. f item \<in> {VNull, VBool True, VBool False} \<and> (\<forall>c. fst (eval W p (b(x \<mapsto> item)) c) = Inr (f item))"
  shows "fst (eval W (Quantifier ''any'' x e p pos) b c) =
      Inr (foldr (\<lambda>item acc. boolValue (f item) acc True) items (VBool False)) \<and>
    fst (eval W (Quantifier ''all'' x e p pos) b c) =
      Inr (foldr (\<lambda>item acc. boolValue (f item) acc False) items (VBool True))"
proof -
  have "foldr (\<lambda>item acc. boolValue (f item) acc True) items (VBool False) \<in> {VNull, VBool True, VBool False}"
    "foldr (\<lambda>item acc. boolValue (f item) acc False) items (VBool True) \<in> {VNull, VBool True, VBool False}"
    by (cases items; auto simp: boolValue_def)+
  then show ?thesis
    using quantifier_tally [OF assms(1,2), of p x f] tally_any [of items f 0 0] tally_all [of items f 0 0] assms(3)
    by (auto simp: Let_def)
qed

theorem quantifier_kleene_witness:
  "let W = plainWorld (boltTxn memBucket); c = startContext (mem_txn fmempty);
       e = Literal (VList [VInt 1, VNull]) p0; p = Binary ''='' (Variable [120] p0) (Literal (VInt 1) p0) p0
   in fst (eval W (Quantifier ''any'' [120] e p p0) Map.empty c) = Inr (VBool True) \<and>
      fst (eval W (Quantifier ''all'' [120] e p p0) Map.empty c) = Inr VNull"
proof -
  let ?W = "plainWorld (boltTxn memBucket)" and ?c = "startContext (mem_txn fmempty)"
  let ?e = "Literal (VList [VInt 1, VNull]) p0" and ?p = "Binary ''='' (Variable [120] p0) (Literal (VInt 1) p0) p0"
  let ?f = "\<lambda>v. equalityOp v (VInt 1) False"
  have f: "?f (VInt 1) = VBool True" "?f VNull = VNull" by code_simp+
  have p: "fst (eval ?W ?p [[120] \<mapsto> v] c) = Inr (?f v)" for v c
    by (simp add: evalBinary_def bnd_def ret_def)
  have "Ctx_Err ?W = (\<lambda>_. None)" "fst (eval ?W ?e Map.empty ?c) = Inr (VList [VInt 1, VNull])"
    "\<forall>item \<in> set [VInt 1, VNull]. ?f item \<in> {VNull, VBool True, VBool False} \<and>
       (\<forall>c. fst (eval ?W ?p [[120] \<mapsto> item] c) = Inr (?f item))"
    using p f by (simp_all add: plainWorld_def ret_def)
  from quantifier_kleene [OF this, of p0] show ?thesis by (simp add: f boolValue_def truthy_def Let_def)
qed

end
