(* ===== verification/Graph_Inv.thy ===== *)
theory Graph_Inv
  imports Graph_Model
begin

text \<open>
  The invariant of the graph layer (\<^verbatim>\<open>crud.go\<close>, Invariant #1): every index table holds exactly the
  entries that the node and edge records call for. It is stated against arbitrary sets of
  entries, so that it also describes the moments between two writes of one operation.
\<close>

section \<open>Rows\<close>

text \<open>A property map: distinct keys, and values in stored form that are not null.\<close>

definition ok_props :: "props \<Rightarrow> bool" where
  "ok_props ps \<longleftrightarrow> distinct (map fst ps) \<and> (\<forall>(k, v) \<in> set ps. wf_val v \<and> v \<noteq> VNull \<and> normalize v = v)"

definition ok_node :: "NodeRecord \<Rightarrow> bool" where
  "ok_node r \<longleftrightarrow> distinct (Labels r) \<and> ok_props (Props r)"

definition ok_edge :: "EdgeRecord \<Rightarrow> bool" where
  "ok_edge r \<longleftrightarrow> ok_props (EProps r)"

text \<open>Values as the record codec returns them.\<close>

definition canonical :: "props \<Rightarrow> bool" where
  "canonical ps \<longleftrightarrow> (\<forall>(k, v) \<in> set ps. canon v = v)"

text \<open>What a row of the database looks like, by the first byte of its key.\<close>

definition wf_key :: "bytes \<Rightarrow> bytes \<Rightarrow> bool" where
  "wf_key k v \<longleftrightarrow> k \<noteq> [] \<and>
     (hd k = 0x6E \<longrightarrow> (\<exists>n r. k = NodeKey n \<and> DecodeNode v = Inr r \<and> ok_node r \<and> canonical (Props r))) \<and>
     (hd k = 0x65 \<longrightarrow> (\<exists>e r. k = EdgeKey e \<and> DecodeEdge v = Inr r \<and> ok_edge r \<and> canonical (EProps r))) \<and>
     (hd k = 0x6F \<longrightarrow> (\<exists>s t d e. k = OutKey s t d e)) \<and>
     (hd k = 0x69 \<longrightarrow> (\<exists>d t s e. k = InKey d t s e)) \<and>
     (hd k = 0x6C \<longrightarrow> (\<exists>l n. k = LabelKey l n)) \<and>
     (hd k = 0x70 \<longrightarrow> (\<exists>l p x n. k = p_key l p x n \<and> IsIndexable x)) \<and>
     (hd k = 0x75 \<longrightarrow> (\<exists>l p c. k = u_key l p c \<and> IsIndexable c) \<and> length v = 8) \<and>
     (hd k = 0x72 \<longrightarrow> (\<exists>t p x e. k = r_key t p x e \<and> IsIndexable x)) \<and>
     (hd k = 0x58 \<longrightarrow> (\<exists>l p. k = indexKey l p)) \<and>
     (hd k = 0x55 \<longrightarrow> (\<exists>l p. k = constraintKey l p) \<and> v \<noteq> []) \<and>
     (hd k = 0x59 \<longrightarrow> (\<exists>t p. k = relIndexKey t p)) \<and>
     (hd k = 0x63 \<longrightarrow> length v = 8)"

definition rows_ok :: "(bytes \<rightharpoonup> bytes) \<Rightarrow> bool" where
  "rows_ok m \<longleftrightarrow> (\<forall>k v. m k = Some v \<longrightarrow> wf_key k v)"

lemma wf_key_simps [simp]:
  "wf_key (NodeKey n) v \<longleftrightarrow> (\<exists>r. DecodeNode v = Inr r \<and> ok_node r \<and> canonical (Props r))"
  "wf_key (EdgeKey e) v \<longleftrightarrow> (\<exists>r. DecodeEdge v = Inr r \<and> ok_edge r \<and> canonical (EProps r))"
  "wf_key (OutKey s t d e) v" "wf_key (InKey d t s e) v" "wf_key (LabelKey l n) v"
  "IsIndexable x \<Longrightarrow> wf_key (p_key l p x n) v"
  "IsIndexable x \<Longrightarrow> wf_key (u_key l p x) v \<longleftrightarrow> length v = 8"
  "IsIndexable x \<Longrightarrow> wf_key (r_key t p x e) v"
  "wf_key (indexKey l p) v" "wf_key (constraintKey l p) v \<longleftrightarrow> v \<noteq> []" "wf_key (relIndexKey t p) v"
  "wf_key (counterKey k) v \<longleftrightarrow> length v = 8" "wf_key (revKey k i) v" "wf_key formatKey v"
  by (auto simp: wf_key_def)

lemma wf_key_fwd [simp]: "t \<in> {0x4C, 0x54, 0x4B} \<Longrightarrow> wf_key (fwdKey t n) v"
  by (auto simp: wf_key_def)

lemma rows_ok_upd [intro]: "rows_ok m \<Longrightarrow> wf_key k v \<Longrightarrow> rows_ok (m(k \<mapsto> v))"
  by (simp add: rows_ok_def)

lemma rows_ok_del [intro]: "rows_ok m \<Longrightarrow> rows_ok (m(k := None))"
  by (simp add: rows_ok_def)

section \<open>Frames\<close>

text \<open>Two contents that differ at most in the tables named by \<open>H\<close>.\<close>

definition only_in :: "byte set \<Rightarrow> (bytes \<rightharpoonup> bytes) \<Rightarrow> (bytes \<rightharpoonup> bytes) \<Rightarrow> bool" where
  "only_in H m m' \<longleftrightarrow> (\<forall>k. hd k \<notin> H \<longrightarrow> m' k = m k)"

lemma only_in_refl [simp]: "only_in H m m"
  by (simp add: only_in_def)

lemma only_in_trans [trans]: "only_in H m m' \<Longrightarrow> only_in H m' m'' \<Longrightarrow> only_in H m m''"
  by (simp add: only_in_def)

lemma only_in_mono: "only_in H m m' \<Longrightarrow> H \<subseteq> H' \<Longrightarrow> only_in H' m m'"
  by (auto simp: only_in_def)

lemma only_in_upd: "hd k \<in> H \<Longrightarrow> only_in H m (m(k := x))"
  by (auto simp: only_in_def)

lemma only_inD: "only_in H m m' \<Longrightarrow> hd k \<notin> H \<Longrightarrow> m' k = m k"
  by (simp add: only_in_def)

section \<open>The graph that the records hold\<close>

definition nodes :: "(bytes \<rightharpoonup> bytes) \<Rightarrow> u64 \<rightharpoonup> NodeRecord" where
  "nodes m n =
     (case m (NodeKey n) of
        None \<Rightarrow> None
      | Some v \<Rightarrow> (case DecodeNode v of Inl _ \<Rightarrow> None | Inr r \<Rightarrow> Some r))"

definition edges :: "(bytes \<rightharpoonup> bytes) \<Rightarrow> u64 \<rightharpoonup> EdgeRecord" where
  "edges m e =
     (case m (EdgeKey e) of
        None \<Rightarrow> None
      | Some v \<Rightarrow> (case DecodeEdge v of Inl _ \<Rightarrow> None | Inr r \<Rightarrow> Some r))"

definition prop_entries :: "props \<Rightarrow> (u32 \<times> val) set" where
  "prop_entries ps = {(k, v). map_of ps k = Some v \<and> IsIndexable v}"

definition node_labels :: "(bytes \<rightharpoonup> bytes) \<Rightarrow> u64 \<Rightarrow> u32 set" where
  "node_labels m n = (case nodes m n of None \<Rightarrow> {} | Some r \<Rightarrow> set (Labels r))"

definition node_entries :: "(bytes \<rightharpoonup> bytes) \<Rightarrow> u64 \<Rightarrow> (u32 \<times> u32 \<times> val) set" where
  "node_entries m n = (case nodes m n of None \<Rightarrow> {} | Some r \<Rightarrow> set (Labels r) \<times> prop_entries (Props r))"

definition adjacency :: "(bytes \<rightharpoonup> bytes) \<Rightarrow> (u64 \<times> u32 \<times> u64 \<times> u64) set" where
  "adjacency m = {(s, t, d, e). \<exists>r. edges m e = Some r \<and> s = Src r \<and> t = EType r \<and> d = Dst r}"

definition edge_entries :: "(bytes \<rightharpoonup> bytes) \<Rightarrow> u64 \<Rightarrow> (u32 \<times> u32 \<times> val) set" where
  "edge_entries m e = (case edges m e of None \<Rightarrow> {} | Some r \<Rightarrow> {EType r} \<times> prop_entries (EProps r))"

section \<open>The index tables\<close>

text \<open>Each table against the entries it should hold: \<open>lab\<close> and \<open>ent\<close> for nodes, \<open>adj\<close> and \<open>ren\<close> for
  edges. A \<open>u\<close> row names the node that holds a value under a unique constraint.\<close>

definition l_ok :: "(bytes \<rightharpoonup> bytes) \<Rightarrow> (u64 \<Rightarrow> u32 set) \<Rightarrow> bool" where
  "l_ok m lab \<longleftrightarrow> (\<forall>l n. m (LabelKey l n) \<noteq> None \<longleftrightarrow> l \<in> lab n)"

definition p_ok :: "(bytes \<rightharpoonup> bytes) \<Rightarrow> (u64 \<Rightarrow> (u32 \<times> u32 \<times> val) set) \<Rightarrow> bool" where
  "p_ok m ent \<longleftrightarrow> (\<forall>l k v n. IsIndexable v \<longrightarrow>
     (m (p_key l k v n) \<noteq> None \<longleftrightarrow> m (indexKey l k) \<noteq> None \<and> (l, k, v) \<in> ent n))"

definition holds_value :: "(u64 \<Rightarrow> (u32 \<times> u32 \<times> val) set) \<Rightarrow> u32 \<Rightarrow> u32 \<Rightarrow> val \<Rightarrow> u64 \<Rightarrow> bool" where
  "holds_value ent l k c n \<longleftrightarrow> (\<exists>v. (l, k, v) \<in> ent n \<and> IsIndexable v \<and> uniqueValue v = Some c)"

definition u_ok :: "(bytes \<rightharpoonup> bytes) \<Rightarrow> (u64 \<Rightarrow> (u32 \<times> u32 \<times> val) set) \<Rightarrow> bool" where
  "u_ok m ent \<longleftrightarrow> (\<forall>l k c n. IsIndexable c \<longrightarrow>
     (m (u_key l k c) = Some (PutUint64 n) \<longleftrightarrow> m (constraintKey l k) \<noteq> None \<and> holds_value ent l k c n))"

definition c_ok :: "(bytes \<rightharpoonup> bytes) \<Rightarrow> bool" where
  "c_ok m \<longleftrightarrow> (\<forall>l k. m (constraintKey l k) \<noteq> None \<longrightarrow> m (indexKey l k) \<noteq> None)"

definition a_ok :: "(bytes \<rightharpoonup> bytes) \<Rightarrow> (u64 \<times> u32 \<times> u64 \<times> u64) set \<Rightarrow> bool" where
  "a_ok m adj \<longleftrightarrow> (\<forall>s t d e.
     (m (OutKey s t d e) \<noteq> None \<longleftrightarrow> (s, t, d, e) \<in> adj) \<and> (m (InKey d t s e) \<noteq> None \<longleftrightarrow> (s, t, d, e) \<in> adj))"

definition r_ok :: "(bytes \<rightharpoonup> bytes) \<Rightarrow> (u64 \<Rightarrow> (u32 \<times> u32 \<times> val) set) \<Rightarrow> bool" where
  "r_ok m ren \<longleftrightarrow> (\<forall>t k v e. IsIndexable v \<longrightarrow>
     (m (r_key t k v e) \<noteq> None \<longleftrightarrow> m (relIndexKey t k) \<noteq> None \<and> (t, k, v) \<in> ren e))"

definition tables_ok where
  "tables_ok m lab ent adj ren \<longleftrightarrow>
     rows_ok m \<and> l_ok m lab \<and> p_ok m ent \<and> u_ok m ent \<and> c_ok m \<and> a_ok m adj \<and> r_ok m ren"

text \<open>What concerns the records alone: the endpoints of an edge exist, identifiers are not zero and
  not beyond their counter, the labels, types and keys of a record have names, and the
  dictionaries are bijections.\<close>

definition known_node :: "(bytes \<rightharpoonup> bytes) \<Rightarrow> NodeRecord \<Rightarrow> bool" where
  "known_node m r \<longleftrightarrow> (\<forall>l \<in> set (Labels r). m (revKey kindLabel l) \<noteq> None) \<and>
     (\<forall>k \<in> fst ` set (Props r). m (revKey kindKey k) \<noteq> None)"

definition known_edge :: "(bytes \<rightharpoonup> bytes) \<Rightarrow> EdgeRecord \<Rightarrow> bool" where
  "known_edge m r \<longleftrightarrow> m (revKey kindType (EType r)) \<noteq> None \<and>
     (\<forall>k \<in> fst ` set (EProps r). m (revKey kindKey k) \<noteq> None)"

definition records_ok :: "(bytes \<rightharpoonup> bytes) \<Rightarrow> bool" where
  "records_ok m \<longleftrightarrow>
     (\<forall>e r. edges m e = Some r \<longrightarrow> nodes m (Src r) \<noteq> None \<and> nodes m (Dst r) \<noteq> None) \<and>
     (\<forall>n. nodes m n \<noteq> None \<longrightarrow> n \<noteq> 0 \<and> n \<le> counter m kindNode) \<and>
     (\<forall>e. edges m e \<noteq> None \<longrightarrow> e \<noteq> 0 \<and> e \<le> counter m kindEdge) \<and>
     (\<forall>n r. nodes m n = Some r \<longrightarrow> known_node m r) \<and> (\<forall>e r. edges m e = Some r \<longrightarrow> known_edge m r) \<and>
     dicts_ok m"

definition consistent :: "(bytes \<rightharpoonup> bytes) \<Rightarrow> bool" where
  "consistent m \<longleftrightarrow>
     tables_ok m (node_labels m) (node_entries m) (adjacency m) (edge_entries m) \<and> records_ok m"

section \<open>Frame lemmas\<close>

lemma only_in_chain: "only_in A m m1 \<Longrightarrow> only_in B m1 m2 \<Longrightarrow> only_in (A \<union> B) m m2"
  by (simp add: only_in_def)

lemma frame_tables:
  assumes "only_in H m m'"
  shows "0x6C \<notin> H \<Longrightarrow> l_ok m' lab \<longleftrightarrow> l_ok m lab"
    "0x70 \<notin> H \<Longrightarrow> 0x58 \<notin> H \<Longrightarrow> p_ok m' ent \<longleftrightarrow> p_ok m ent"
    "0x75 \<notin> H \<Longrightarrow> 0x55 \<notin> H \<Longrightarrow> u_ok m' ent \<longleftrightarrow> u_ok m ent"
    "0x55 \<notin> H \<Longrightarrow> 0x58 \<notin> H \<Longrightarrow> c_ok m' \<longleftrightarrow> c_ok m"
    "0x6F \<notin> H \<Longrightarrow> 0x69 \<notin> H \<Longrightarrow> a_ok m' adj \<longleftrightarrow> a_ok m adj"
    "0x72 \<notin> H \<Longrightarrow> 0x59 \<notin> H \<Longrightarrow> r_ok m' ren \<longleftrightarrow> r_ok m ren"
  using only_inD [OF assms]
  by (simp_all add: l_ok_def p_ok_def u_ok_def c_ok_def a_ok_def r_ok_def)

lemma frame_records:
  assumes "only_in H m m'"
  shows "0x6E \<notin> H \<Longrightarrow> nodes m' = nodes m"
    "0x65 \<notin> H \<Longrightarrow> edges m' = edges m"
    "0x63 \<notin> H \<Longrightarrow> counter m' kind = counter m kind"
  using only_inD [OF assms] by (simp_all add: nodes_def edges_def counter_def fun_eq_iff)

lemma frame_dicts:
  assumes "only_in H m m'" "H \<inter> {0x4C, 0x54, 0x4B, 0x52, 0x63} = {}"
  shows "dicts_ok m' \<longleftrightarrow> dicts_ok m"
proof -
  have "m' (counterKey k) = m (counterKey k)" "m' (revKey k i) = m (revKey k i)" for k i
    using only_inD [OF assms(1)] assms(2) by auto
  moreover have "t \<in> {0x4C, 0x54, 0x4B} \<Longrightarrow> m' (fwdKey t n) = m (fwdKey t n)" for t n
    using only_inD [OF assms(1)] assms(2) by auto
  ultimately show ?thesis by (simp add: dicts_ok_def dict_ok_def counter_def counter_ok_def)
qed

section \<open>One entry at a time\<close>

definition add_entry :: "(u64 \<Rightarrow> 'a set) \<Rightarrow> u64 \<Rightarrow> 'a \<Rightarrow> u64 \<Rightarrow> 'a set" where
  "add_entry ent n x = ent(n := insert x (ent n))"

definition del_entry :: "(u64 \<Rightarrow> 'a set) \<Rightarrow> u64 \<Rightarrow> 'a \<Rightarrow> u64 \<Rightarrow> 'a set" where
  "del_entry ent n x = ent(n := ent n - {x})"

lemma mem_add_entry [simp]: "y \<in> add_entry ent n x n' \<longleftrightarrow> y \<in> ent n' \<or> n' = n \<and> y = x"
  by (auto simp: add_entry_def)

lemma mem_del_entry [simp]: "y \<in> del_entry ent n x n' \<longleftrightarrow> y \<in> ent n' \<and> \<not> (n' = n \<and> y = x)"
  by (auto simp: del_entry_def)

lemma l_ok_add: "l_ok m lab \<Longrightarrow> l_ok (m(LabelKey l n \<mapsto> x)) (add_entry lab n l)"
  by (auto simp: l_ok_def)

lemma l_ok_del: "l_ok m lab \<Longrightarrow> l_ok (m(LabelKey l n := None)) (del_entry lab n l)"
  by (auto simp: l_ok_def)

lemma p_ok_add:
  "p_ok m ent \<Longrightarrow> m (indexKey l k) \<noteq> None \<Longrightarrow> IsIndexable v \<Longrightarrow> p_ok (m(p_key l k v n \<mapsto> x)) (add_entry ent n (l, k, v))"
  by (auto simp: p_ok_def key_simps)

lemma p_ok_add_none:
  "p_ok m ent \<Longrightarrow> m (indexKey l k) = None \<or> \<not> IsIndexable v \<Longrightarrow> p_ok m (add_entry ent n (l, k, v))"
  by (auto simp: p_ok_def)

lemma p_ok_del:
  "p_ok m ent \<Longrightarrow> IsIndexable v \<Longrightarrow> p_ok (m(p_key l k v n := None)) (del_entry ent n (l, k, v))"
  by (auto simp: p_ok_def key_simps)

lemma p_ok_del_none:
  "p_ok m ent \<Longrightarrow> m (indexKey l k) = None \<or> \<not> IsIndexable v \<Longrightarrow> p_ok m (del_entry ent n (l, k, v))"
  by (auto simp: p_ok_def)

lemma holds_value_add:
  "holds_value (add_entry ent n (l, k, v)) l' k' c n' \<longleftrightarrow>
     holds_value ent l' k' c n' \<or> n' = n \<and> l' = l \<and> k' = k \<and> IsIndexable v \<and> uniqueValue v = Some c"
  by (auto simp: holds_value_def)

lemma u_ok_add_none:
  assumes "u_ok m ent"
    and "m (constraintKey l k) = None \<or> \<not> IsIndexable v \<or> uniqueValue v = None \<or>
      (\<exists>c. uniqueValue v = Some c \<and> m (u_key l k c) = Some (PutUint64 n) \<and> IsIndexable c)"
  shows "u_ok m (add_entry ent n (l, k, v))"
  unfolding u_ok_def holds_value_add
proof (intro allI impI)
  fix l' k' c n'
  assume "IsIndexable c"
  then have u: "m (u_key l' k' c) = Some (PutUint64 n') \<longleftrightarrow> m (constraintKey l' k') \<noteq> None \<and> holds_value ent l' k' c n'"
    using assms(1) by (simp add: u_ok_def)
  then show "m (u_key l' k' c) = Some (PutUint64 n') \<longleftrightarrow> m (constraintKey l' k') \<noteq> None \<and>
      (holds_value ent l' k' c n' \<or> n' = n \<and> l' = l \<and> k' = k \<and> IsIndexable v \<and> uniqueValue v = Some c)"
    using assms(2) by auto
qed

lemma u_ok_claim:
  assumes "u_ok m ent" "m (constraintKey l k) \<noteq> None" "IsIndexable v" "uniqueValue v = Some c" "IsIndexable c"
    "m (u_key l k c) = None"
  shows "u_ok (m(u_key l k c \<mapsto> PutUint64 n)) (add_entry ent n (l, k, v))"
  unfolding u_ok_def holds_value_add
proof (intro allI impI)
  fix l' k' c' n'
  assume c': "IsIndexable c'"
  then have "m (u_key l' k' c') = Some (PutUint64 n') \<longleftrightarrow> m (constraintKey l' k') \<noteq> None \<and> holds_value ent l' k' c' n'"
    using assms(1) by (simp add: u_ok_def)
  then show "(m(u_key l k c \<mapsto> PutUint64 n)) (u_key l' k' c') = Some (PutUint64 n') \<longleftrightarrow>
      (m(u_key l k c \<mapsto> PutUint64 n)) (constraintKey l' k') \<noteq> None \<and>
      (holds_value ent l' k' c' n' \<or> n' = n \<and> l' = l \<and> k' = k \<and> IsIndexable v \<and> uniqueValue v = Some c')"
    using assms c' by (auto simp: key_simps)
qed

text \<open>Removing an entry releases its value if the node holds no other value for that key.\<close>

lemma holds_value_del:
  assumes "\<And>v'. (l, k, v') \<in> ent n \<Longrightarrow> IsIndexable v' \<Longrightarrow> v' = v"
  shows "holds_value (del_entry ent n (l, k, v)) l' k' c n' \<longleftrightarrow> holds_value ent l' k' c n' \<and> \<not> (n' = n \<and> l' = l \<and> k' = k)"
  using assms by (auto simp: holds_value_def)

lemma u_ok_del_none:
  assumes "u_ok m ent" "\<And>v'. (l, k, v') \<in> ent n \<Longrightarrow> IsIndexable v' \<Longrightarrow> v' = v"
    and "m (constraintKey l k) = None \<or> \<not> IsIndexable v \<or> uniqueValue v = None \<or>
      (\<exists>c. uniqueValue v = Some c \<and> m (u_key l k c) \<noteq> Some (PutUint64 n) \<and> IsIndexable c)"
  shows "u_ok m (del_entry ent n (l, k, v))"
  unfolding u_ok_def
proof (intro allI impI)
  fix l' k' c n'
  assume "IsIndexable c"
  then have "m (u_key l' k' c) = Some (PutUint64 n') \<longleftrightarrow> m (constraintKey l' k') \<noteq> None \<and> holds_value ent l' k' c n'"
    using assms(1) by (simp add: u_ok_def)
  moreover have "holds_value ent l k c n \<Longrightarrow> uniqueValue v = Some c \<and> IsIndexable v"
    using assms(2) by (auto simp: holds_value_def)
  moreover have "holds_value (del_entry ent n (l, k, v)) l' k' c n' \<longleftrightarrow> holds_value ent l' k' c n' \<and> \<not> (n' = n \<and> l' = l \<and> k' = k)"
    by (rule holds_value_del) (rule assms(2))
  ultimately show "m (u_key l' k' c) = Some (PutUint64 n') \<longleftrightarrow> m (constraintKey l' k') \<noteq> None \<and>
      holds_value (del_entry ent n (l, k, v)) l' k' c n'"
    using assms(3) by auto
qed

lemma u_ok_release:
  assumes "u_ok m ent" "\<And>v'. (l, k, v') \<in> ent n \<Longrightarrow> IsIndexable v' \<Longrightarrow> v' = v"
    and "uniqueValue v = Some c" "IsIndexable c" "m (u_key l k c) = Some (PutUint64 n)"
  shows "u_ok (m(u_key l k c := None)) (del_entry ent n (l, k, v))"
  unfolding u_ok_def
proof (intro allI impI)
  fix l' k' c' n'
  assume c': "IsIndexable c'"
  have eq: "m (u_key l' k' c') = Some (PutUint64 n') \<longleftrightarrow> m (constraintKey l' k') \<noteq> None \<and> holds_value ent l' k' c' n'"
    using assms(1) c' by (simp add: u_ok_def)
  have n: "holds_value ent l k c' n \<Longrightarrow> c' = c"
    using assms(2,3) by (auto simp: holds_value_def)
  have w: "m (constraintKey l k) \<noteq> None \<Longrightarrow> holds_value ent l k c n'' \<Longrightarrow> n'' = n" for n''
    using assms(1,4,5) unfolding u_ok_def by (metis Put_inject(2) option.inject)
  have "holds_value (del_entry ent n (l, k, v)) l' k' c' n' \<longleftrightarrow> holds_value ent l' k' c' n' \<and> \<not> (n' = n \<and> l' = l \<and> k' = k)"
    by (rule holds_value_del) (rule assms(2))
  then show "(m(u_key l k c := None)) (u_key l' k' c') = Some (PutUint64 n') \<longleftrightarrow>
      (m(u_key l k c := None)) (constraintKey l' k') \<noteq> None \<and> holds_value (del_entry ent n (l, k, v)) l' k' c' n'"
    using assms(4) c' eq n w [of n'] by (auto simp: key_simps)
qed

definition entries_ok :: "(bytes \<rightharpoonup> bytes) \<Rightarrow> (u64 \<Rightarrow> (u32 \<times> u32 \<times> val) set) \<Rightarrow> bool" where
  "entries_ok m ent \<longleftrightarrow> rows_ok m \<and> p_ok m ent \<and> u_ok m ent \<and> c_ok m"

lemma uniqueValue_indexable: "IsIndexable v \<Longrightarrow> uniqueValue v = Some c \<Longrightarrow> IsIndexable c"
  by (auto simp: uniqueValue_def IsIndexable_def split: val.splits if_splits)

section \<open>The operations on index entries\<close>

context txn_store
begin

lemma bind_lookup: "bindR (lookup T s k) f = Inr x \<Longrightarrow> usable s \<Longrightarrow> f (content s k) = Inr x"
  by (auto simp: bindR_Inr_iff dest: lookup_content)

lemma HasIndex_content: "HasIndex T l k s = Inr b \<Longrightarrow> usable s \<Longrightarrow> content s (indexKey l k) \<noteq> None \<longleftrightarrow> b"
  by (auto simp: HasIndex_def dest!: bind_lookup)

lemma HasRelIndex_content: "HasRelIndex T t k s = Inr b \<Longrightarrow> usable s \<Longrightarrow> content s (relIndexKey t k) \<noteq> None \<longleftrightarrow> b"
  by (auto simp: HasRelIndex_def dest!: bind_lookup)

lemma GetConstraint_content:
  "GetConstraint T l k s = Inr r \<Longrightarrow> usable s \<Longrightarrow> content s (constraintKey l k) = None \<longleftrightarrow> r = None"
  unfolding GetConstraint_def by (drule (1) bind_lookup) (auto simp: bindR_Inr_iff split: option.splits)

lemma HasUnique_content: "HasUnique T l k s = Inr b \<Longrightarrow> usable s \<Longrightarrow> content s (constraintKey l k) \<noteq> None \<longleftrightarrow> b"
  by (auto simp: HasUnique_def bindR_Inr_iff simp del: not_None_eq dest!: GetConstraint_content)

lemma valueOwner_content:
  "valueOwner T uk s = Inr r \<Longrightarrow> usable s \<Longrightarrow> content s uk = map_option PutUint64 r"
  by (auto simp: valueOwner_def Put_Uint split: option.splits if_splits dest!: bind_lookup)

lemma GetNode_content:
  "GetNode T n s = Inr nd \<Longrightarrow> usable s \<Longrightarrow> nodes (content s) n = Some (NRec nd) \<and> NID nd = n"
  unfolding GetNode_def by (drule (1) bind_lookup) (auto simp: bindR_Inr_iff nodes_def split: option.splits)

lemma GetEdge_content:
  "GetEdge T e s = Inr ed \<Longrightarrow> usable s \<Longrightarrow> edges (content s) e = Some (ERec ed) \<and> EID ed = e"
  unfolding GetEdge_def by (drule (1) bind_lookup) (auto simp: bindR_Inr_iff edges_def split: option.splits)

lemma claimValue_ok:
  assumes "runs (claimValue T l k v n) s x s'" "usable s" "IsIndexable v"
    and "rows_ok (content s)" "u_ok (content s) ent" "content s (constraintKey l k) \<noteq> None"
  shows "usable s' \<and> only_in {0x75} (content s) (content s') \<and> rows_ok (content s') \<and> u_ok (content s') (add_entry ent n (l, k, v))"
proof (cases "uniqueValue v")
  case None
  with assms show ?thesis using u_ok_add_none by (simp add: claimValue_def)
next
  case (Some c)
  have c: "IsIndexable c" using uniqueValue_indexable assms(3) Some .
  from assms(1) Some c obtain w where w: "valueOwner T (u_key l k c) s = Inr w"
    and r: "runs (case w of Some w' \<Rightarrow> if w' \<noteq> n then violation T l k else ret () | None \<Rightarrow> TSet T (u_key l k c) (PutUint64 n)) s x s'"
    by (auto simp: claimValue_def runs_simps UniqueKey_eq)
  have m: "content s (u_key l k c) = map_option PutUint64 w" using valueOwner_content [OF w assms(2)] .
  show ?thesis
  proof (cases w)
    case None
    then have t: "usable s' \<and> content s' = (content s)(u_key l k c \<mapsto> PutUint64 n)"
      using r runs_TSet assms(2) by simp
    with None m Some c assms show ?thesis
      using u_ok_claim [OF assms(5,6,3) Some c] by (auto intro!: only_in_upd)
  next
    case (Some w')
    with r have "w' = n" "s' = s" by (auto simp: violation_def runs_simps split: if_splits)
    with Some m \<open>uniqueValue v = Some c\<close> c assms show ?thesis
      using u_ok_add_none [OF assms(5), of l k v n] by auto
  qed
qed

lemma putPropEntry_ok:
  assumes "runs (putPropEntry T l k v n) s x s'" "usable s" "entries_ok (content s) ent"
  shows "usable s' \<and> only_in {0x70, 0x75} (content s) (content s') \<and> entries_ok (content s') (add_entry ent n (l, k, v))"
proof -
  have m: "rows_ok (content s)" "p_ok (content s) ent" "u_ok (content s) ent" "c_ok (content s)"
    using assms(3) by (simp_all add: entries_ok_def)
  show ?thesis
  proof (cases "IsIndexable v \<and> content s (indexKey l k) \<noteq> None")
    case False
    then have "s' = s" using assms(1,2) by (auto simp: putPropEntry_def runs_simps dest!: HasIndex_content split: if_splits)
    moreover have "content s (constraintKey l k) = None \<or> \<not> IsIndexable v" using False m(4) unfolding c_ok_def by blast
    ultimately show ?thesis
      using False m assms(2) p_ok_add_none [OF m(2), of l k v n] u_ok_add_none [OF m(3), of l k v n]
      by (auto simp: entries_ok_def)
  next
    case True
    with assms(1,2) obtain s1 b where s1: "runs (TSet T (p_key l k v n) []) s () s1"
      and b: "HasUnique T l k s1 = Inr b" and r: "runs (if \<not> b then ret () else claimValue T l k v n) s1 x s'"
      by (auto simp: putPropEntry_def runs_simps PropKey_eq dest!: HasIndex_content)
    have t: "usable s1" "content s1 = (content s)(p_key l k v n \<mapsto> [])" using runs_TSet [OF s1 assms(2)] by auto
    have o: "only_in {0x70} (content s) (content s1)" unfolding t(2) by (rule only_in_upd) simp
    have m1: "rows_ok (content s1)" "p_ok (content s1) (add_entry ent n (l, k, v))" "u_ok (content s1) ent" "c_ok (content s1)"
      using m True frame_tables(3,4) [OF o] p_ok_add [OF m(2)] by (auto simp: t(2))
    show ?thesis
    proof (cases b)
      case False
      then have "content s1 (constraintKey l k) = None" using HasUnique_content [OF b t(1)] by simp
      then show ?thesis
        using False r m1 t(1) u_ok_add_none [OF m1(3)] only_in_mono [OF o, of "{0x70, 0x75}"] by (auto simp: entries_ok_def)
    next
      case b: True
      then have c: "content s1 (constraintKey l k) \<noteq> None" using HasUnique_content [OF \<open>HasUnique T l k s1 = Inr b\<close> t(1)] by simp
      have "runs (claimValue T l k v n) s1 x s'" using r b by simp
      note q = claimValue_ok [OF this t(1) conjunct1 [OF True] m1(1,3) c]
      then have o2: "only_in {0x75} (content s1) (content s')" by simp
      have "p_ok (content s') (add_entry ent n (l, k, v))" "c_ok (content s')"
        using frame_tables(2,4) [OF o2] m1 by auto
      moreover have "only_in {0x70, 0x75} (content s) (content s')"
        using only_in_chain [OF o o2] by (simp add: insert_commute)
      ultimately show ?thesis using q by (simp add: entries_ok_def)
    qed
  qed
qed

lemma delPropEntry_ok:
  assumes "runs (delPropEntry T l k v n) s x s'" "usable s" "entries_ok (content s) ent"
    and one: "\<And>v'. (l, k, v') \<in> ent n \<Longrightarrow> IsIndexable v' \<Longrightarrow> v' = v"
  shows "usable s' \<and> only_in {0x70, 0x75} (content s) (content s') \<and> entries_ok (content s') (del_entry ent n (l, k, v))"
proof -
  have m: "rows_ok (content s)" "p_ok (content s) ent" "u_ok (content s) ent" "c_ok (content s)"
    using assms(3) by (simp_all add: entries_ok_def)
  note none = u_ok_del_none [where l = l and k = k and v = v and n = n and ent = ent, OF _ one]
  show ?thesis
  proof (cases "IsIndexable v \<and> content s (indexKey l k) \<noteq> None")
    case False
    then have "s' = s" using assms(1,2) by (auto simp: delPropEntry_def runs_simps dest!: HasIndex_content split: if_splits)
    moreover have "content s (constraintKey l k) = None \<or> \<not> IsIndexable v" using False m(4) unfolding c_ok_def by blast
    ultimately show ?thesis
      using False m assms(2) p_ok_del_none [OF m(2), of l k v n] none [OF m(3)]
      by (auto simp: entries_ok_def)
  next
    case True
    with assms(1,2) obtain s1 b where s1: "runs (TDelete T (p_key l k v n)) s () s1"
      and b: "HasUnique T l k s1 = Inr b"
      and r: "b \<Longrightarrow> runs (case uniqueValue v of None \<Rightarrow> ret () | Some c \<Rightarrow>
         bnd (liftR (UniqueKey l k c)) (\<lambda>uk. bnd (reads (valueOwner T uk)) (\<lambda>w.
           if w \<noteq> Some n then ret () else TDelete T uk))) s1 x s'" and nb: "\<not> b \<Longrightarrow> s' = s1"
      by (auto simp: delPropEntry_def runs_simps PropKey_eq dest!: HasIndex_content split: if_splits)
    have t: "usable s1" "content s1 = (content s)(p_key l k v n := None)" using runs_TDelete [OF s1 assms(2)] by auto
    have o: "only_in {0x70} (content s) (content s1)" unfolding t(2) by (rule only_in_upd) simp
    have m1: "rows_ok (content s1)" "p_ok (content s1) (del_entry ent n (l, k, v))" "u_ok (content s1) ent" "c_ok (content s1)"
      using m True frame_tables(3,4) [OF o] p_ok_del [OF m(2)] by (auto simp: t(2))
    show ?thesis
    proof (cases "b \<and> uniqueValue v \<noteq> None")
      case False
      have "content s1 (constraintKey l k) = None \<or> uniqueValue v = None" using HasUnique_content [OF b t(1)] False by auto
      moreover have "s' = s1" using False r nb by (cases b) auto
      ultimately show ?thesis
        using m1 t(1) none [OF m1(3)] only_in_mono [OF o, of "{0x70, 0x75}"] by (auto simp: entries_ok_def)
    next
      case bc: True
      then obtain c where c: "uniqueValue v = Some c" by blast
      have ic: "IsIndexable c" using uniqueValue_indexable True c by blast
      from r bc c ic obtain w where w: "valueOwner T (u_key l k c) s1 = Inr w"
        and r2: "runs (if w \<noteq> Some n then ret () else TDelete T (u_key l k c)) s1 x s'"
        by (auto simp: runs_simps UniqueKey_eq)
      have cu: "content s1 (u_key l k c) = map_option PutUint64 w" using valueOwner_content [OF w t(1)] .
      show ?thesis
      proof (cases "w = Some n")
        case False
        then have "content s1 (u_key l k c) \<noteq> Some (PutUint64 n)" using cu by auto
        moreover have "s' = s1" using False r2 by simp
        ultimately show ?thesis
          using m1 t(1) none [OF m1(3)] only_in_mono [OF o, of "{0x70, 0x75}"] c ic by (auto simp: entries_ok_def)
      next
        case True
        then have t2: "usable s'" "content s' = (content s1)(u_key l k c := None)" using r2 runs_TDelete t(1) by auto
        have o2: "only_in {0x75} (content s1) (content s')" unfolding t2(2) by (rule only_in_upd) simp
        have "u_ok (content s') (del_entry ent n (l, k, v))"
          unfolding t2(2) using u_ok_release [OF m1(3) one c ic] cu True by simp
        moreover have "p_ok (content s') (del_entry ent n (l, k, v))" "c_ok (content s')" "rows_ok (content s')"
          using frame_tables(2,4) [OF o2] m1 by (auto simp: t2(2))
        moreover have "only_in {0x70, 0x75} (content s) (content s')"
          using only_in_chain [OF o o2] by (simp add: insert_commute)
        ultimately show ?thesis using t2(1) by (simp add: entries_ok_def)
      qed
    qed
  qed
qed

end

section \<open>Loops over entries\<close>

definition add_entries :: "(u64 \<Rightarrow> 'a set) \<Rightarrow> u64 \<Rightarrow> 'a set \<Rightarrow> u64 \<Rightarrow> 'a set" where
  "add_entries ent n X = ent(n := ent n \<union> X)"

definition del_entries :: "(u64 \<Rightarrow> 'a set) \<Rightarrow> u64 \<Rightarrow> 'a set \<Rightarrow> u64 \<Rightarrow> 'a set" where
  "del_entries ent n X = ent(n := ent n - X)"

lemma mem_entries [simp]:
  "y \<in> add_entries ent n X n' \<longleftrightarrow> y \<in> ent n' \<or> n' = n \<and> y \<in> X"
  "y \<in> del_entries ent n X n' \<longleftrightarrow> y \<in> ent n' \<and> \<not> (n' = n \<and> y \<in> X)"
  by (auto simp: add_entries_def del_entries_def)

lemma entries_empty [simp]: "add_entries ent n {} = ent" "del_entries ent n {} = ent"
  by (auto simp: add_entries_def del_entries_def)

lemma add_entry_entries: "add_entry (add_entries ent n X) n x = add_entries ent n (insert x X)"
  by (auto simp: fun_eq_iff add_entry_def add_entries_def)

lemma del_entry_entries: "del_entry (del_entries ent n X) n x = del_entries ent n (insert x X)"
  by (auto simp: fun_eq_iff del_entry_def del_entries_def)

lemma add_entries_entries: "add_entries (add_entries ent n X) n Y = add_entries ent n (X \<union> Y)"
  by (auto simp: fun_eq_iff add_entries_def)

lemma del_entries_entries: "del_entries (del_entries ent n X) n Y = del_entries ent n (X \<union> Y)"
  by (auto simp: fun_eq_iff del_entries_def)

lemma each_prefix:
  assumes "runs (each f xs) s u s'" "P [] s"
    and "\<And>ys x zs t t'. xs = ys @ x # zs \<Longrightarrow> P ys t \<Longrightarrow> runs (f x) t () t' \<Longrightarrow> P (ys @ [x]) t'"
  shows "P xs s'"
proof -
  have "P (us @ ws) s'" if "runs (each f ws) t u s'" "P us t" "xs = us @ ws" for us ws t
    using that
  proof (induction ws arbitrary: us t)
    case (Cons w ws)
    then obtain t1 where t1: "runs (f w) t () t1" "runs (each f ws) t1 u s'" by (auto simp: runs_seqA)
    then have "P (us @ [w]) t1" using assms(3) Cons.prems by blast
    then show ?case using Cons.IH [OF t1(2), of "us @ [w]"] Cons.prems(3) by simp
  qed simp
  with assms(1,2) show ?thesis by (metis append_Nil)
qed

text \<open>The label rows and the property entries of several labels.\<close>

definition label_tables where
  "label_tables m lab ent \<longleftrightarrow> l_ok m lab \<and> entries_ok m ent"

context txn_store
begin

lemma put_props_ok:
  assumes "runs (each (\<lambda>(k, v). putPropEntry T l k v n) ps) s u s'" "usable s" "entries_ok (content s) ent"
  shows "usable s' \<and> only_in {0x70, 0x75} (content s) (content s') \<and>
    entries_ok (content s') (add_entries ent n ({l} \<times> set ps))"
  using assms(1)
proof (rule each_prefix)
  fix ys x zs t t'
  assume h: "usable t \<and> only_in {0x70, 0x75} (content s) (content t) \<and>
      entries_ok (content t) (add_entries ent n ({l} \<times> set ys))"
    and r: "runs (case x of (k, v) \<Rightarrow> putPropEntry T l k v n) t () t'"
  obtain k v where x: "x = (k, v)" by force
  have "usable t' \<and> only_in {0x70, 0x75} (content t) (content t') \<and>
      entries_ok (content t') (add_entry (add_entries ent n ({l} \<times> set ys)) n (l, k, v))"
    by (rule putPropEntry_ok) (use r h x in auto)
  then show "usable t' \<and> only_in {0x70, 0x75} (content s) (content t') \<and>
      entries_ok (content t') (add_entries ent n ({l} \<times> set (ys @ [x])))"
    using h by (auto simp: x add_entry_entries intro: only_in_trans)
qed (use assms in simp)

lemma del_props_ok:
  assumes "runs (each (\<lambda>(k, v). delPropEntry T l k v n) ps) s u s'" "usable s" "entries_ok (content s) ent"
    and one: "\<And>k v v'. (k, v) \<in> set ps \<Longrightarrow> (l, k, v') \<in> ent n \<Longrightarrow> IsIndexable v' \<Longrightarrow> v' = v"
  shows "usable s' \<and> only_in {0x70, 0x75} (content s) (content s') \<and>
    entries_ok (content s') (del_entries ent n ({l} \<times> set ps))"
  using assms(1)
proof (rule each_prefix)
  fix ys x zs t t'
  assume h: "usable t \<and> only_in {0x70, 0x75} (content s) (content t) \<and>
      entries_ok (content t) (del_entries ent n ({l} \<times> set ys))"
    and r: "runs (case x of (k, v) \<Rightarrow> delPropEntry T l k v n) t () t'" and ps: "ps = ys @ x # zs"
  obtain k v where x: "x = (k, v)" by force
  have "usable t' \<and> only_in {0x70, 0x75} (content t) (content t') \<and>
      entries_ok (content t') (del_entry (del_entries ent n ({l} \<times> set ys)) n (l, k, v))"
    by (rule delPropEntry_ok) (use r h x one ps in auto)
  then show "usable t' \<and> only_in {0x70, 0x75} (content s) (content t') \<and>
      entries_ok (content t') (del_entries ent n ({l} \<times> set (ys @ [x])))"
    using h by (auto simp: x del_entry_entries intro: only_in_trans)
qed (use assms in simp)

lemma put_labels_ok:
  assumes "runs (each (\<lambda>l. seqA (TSet T (LabelKey l n) []) (each (\<lambda>(k, v). putPropEntry T l k v n) ps)) ls) s u s'"
    "usable s" "label_tables (content s) lab ent"
  shows "usable s' \<and> only_in {0x6C, 0x70, 0x75} (content s) (content s') \<and>
    label_tables (content s') (add_entries lab n (set ls)) (add_entries ent n (set ls \<times> set ps))"
  using assms(1)
proof (rule each_prefix)
  fix ys l zs t t'
  assume h: "usable t \<and> only_in {0x6C, 0x70, 0x75} (content s) (content t) \<and>
      label_tables (content t) (add_entries lab n (set ys)) (add_entries ent n (set ys \<times> set ps))"
    and r: "runs (seqA (TSet T (LabelKey l n) []) (each (\<lambda>(k, v). putPropEntry T l k v n) ps)) t () t'"
  obtain t1 where t1: "runs (TSet T (LabelKey l n) []) t () t1" and r2: "runs (each (\<lambda>(k, v). putPropEntry T l k v n) ps) t1 () t'"
    using r by (auto simp: runs_seqA)
  have c: "usable t1" "content t1 = (content t)(LabelKey l n \<mapsto> [])" using runs_TSet [OF t1] h by auto
  have o: "only_in {0x6C} (content t) (content t1)" unfolding c(2) by (rule only_in_upd) simp
  have l1: "l_ok (content t1) (add_entries lab n (insert l (set ys)))"
    using h l_ok_add [of "content t" "add_entries lab n (set ys)" l n] by (simp add: c(2) label_tables_def add_entry_entries)
  have "entries_ok (content t1) (add_entries ent n (set ys \<times> set ps))"
    using h frame_tables(2,3,4) [OF o] by (auto simp: label_tables_def entries_ok_def c(2))
  note q = put_props_ok [OF r2 c(1) this]
  have o2: "only_in {0x6C, 0x70, 0x75} (content t) (content t')" using only_in_chain [OF o] q by fastforce
  have "l_ok (content t') (add_entries lab n (insert l (set ys)))" using frame_tables(1) [of "{0x70, 0x75}"] q l1 by auto
  moreover have "set ys \<times> set ps \<union> {l} \<times> set ps = insert l (set ys) \<times> set ps" by auto
  ultimately show "usable t' \<and> only_in {0x6C, 0x70, 0x75} (content s) (content t') \<and>
      label_tables (content t') (add_entries lab n (set (ys @ [l]))) (add_entries ent n (set (ys @ [l]) \<times> set ps))"
    using h q only_in_trans [OF _ o2] by (simp add: label_tables_def add_entries_entries)
qed (use assms in simp)

lemma del_labels_ok:
  assumes "runs (each (\<lambda>l. seqA (TDelete T (LabelKey l n)) (each (\<lambda>(k, v). delPropEntry T l k v n) ps)) ls) s u s'"
    "usable s" "label_tables (content s) lab ent"
    and one: "\<And>l k v v'. l \<in> set ls \<Longrightarrow> (k, v) \<in> set ps \<Longrightarrow> (l, k, v') \<in> ent n \<Longrightarrow> IsIndexable v' \<Longrightarrow> v' = v"
  shows "usable s' \<and> only_in {0x6C, 0x70, 0x75} (content s) (content s') \<and>
    label_tables (content s') (del_entries lab n (set ls)) (del_entries ent n (set ls \<times> set ps))"
  using assms(1)
proof (rule each_prefix)
  fix ys l zs t t'
  assume h: "usable t \<and> only_in {0x6C, 0x70, 0x75} (content s) (content t) \<and>
      label_tables (content t) (del_entries lab n (set ys)) (del_entries ent n (set ys \<times> set ps))"
    and r: "runs (seqA (TDelete T (LabelKey l n)) (each (\<lambda>(k, v). delPropEntry T l k v n) ps)) t () t'"
    and ls: "ls = ys @ l # zs"
  obtain t1 where t1: "runs (TDelete T (LabelKey l n)) t () t1" and r2: "runs (each (\<lambda>(k, v). delPropEntry T l k v n) ps) t1 () t'"
    using r by (auto simp: runs_seqA)
  have c: "usable t1" "content t1 = (content t)(LabelKey l n := None)" using runs_TDelete [OF t1] h by auto
  have o: "only_in {0x6C} (content t) (content t1)" unfolding c(2) by (rule only_in_upd) simp
  have l1: "l_ok (content t1) (del_entries lab n (insert l (set ys)))"
    using h l_ok_del [of "content t" "del_entries lab n (set ys)" l n] by (simp add: c(2) label_tables_def del_entry_entries)
  have e1: "entries_ok (content t1) (del_entries ent n (set ys \<times> set ps))"
    using h frame_tables(2,3,4) [OF o] by (auto simp: label_tables_def entries_ok_def c(2))
  have q: "usable t' \<and> only_in {0x70, 0x75} (content t1) (content t') \<and>
      entries_ok (content t') (del_entries (del_entries ent n (set ys \<times> set ps)) n ({l} \<times> set ps))"
    by (rule del_props_ok [OF r2 c(1) e1]) (use one ls in auto)
  have o2: "only_in {0x6C, 0x70, 0x75} (content t) (content t')" using only_in_chain [OF o] q by fastforce
  have "l_ok (content t') (del_entries lab n (insert l (set ys)))" using frame_tables(1) [of "{0x70, 0x75}"] q l1 by auto
  moreover have "set ys \<times> set ps \<union> {l} \<times> set ps = insert l (set ys) \<times> set ps" by auto
  ultimately show "usable t' \<and> only_in {0x6C, 0x70, 0x75} (content s) (content t') \<and>
      label_tables (content t') (del_entries lab n (set (ys @ [l]))) (del_entries ent n (set (ys @ [l]) \<times> set ps))"
    using h q only_in_trans [OF _ o2] by (simp add: label_tables_def del_entries_entries)
qed (use assms in simp)

end

end
