(* ===== verification/Graph_Abs.thy ===== *)
theory Graph_Abs
  imports Graph_Inv
begin

text \<open>
  The graph a content stands for, and what a mutation must do for the invariant to survive. A
  mutation first touches the dictionaries only (\<open>quiet\<close>), then the index rows and the record of one
  node or edge (\<open>node_step\<close>, \<open>edge_step\<close>).
\<close>

section \<open>Stored records\<close>

lemma distinct_u32_length: "distinct (xs :: u32 list) \<Longrightarrow> length xs < 2 ^ 63"
  using distinct_card [of xs] card_mono [of "UNIV :: u32 set" "set xs"] by (simp add: card_word)

lemma ok_props_wf: "ok_props ps \<Longrightarrow> wf_props ps"
  using distinct_u32_length [of "map fst ps"] by (auto simp: ok_props_def wf_props_def)

lemma ok_node_wf: "ok_node r \<Longrightarrow> wf_node r"
  using distinct_u32_length [of "Labels r"] by (simp add: ok_node_def wf_node_def ok_props_wf)

lemma canon_value:
  assumes "normalize v = v"
  shows "normalize (canon v) = canon v" "canon v = VNull \<longleftrightarrow> v = VNull"
    "IsIndexable (canon v) \<longleftrightarrow> IsIndexable v" "IsIndexable v \<Longrightarrow> canon v = v"
  using assms by (cases v; simp add: Values.normalize_def IsIndexable_def)
    (cases v; use assms in \<open>simp add: Values.normalize_def IsIndexable_def\<close>)+

lemma ok_props_distinct: "ok_props ps \<Longrightarrow> distinct (map fst ps)"
  by (simp add: ok_props_def)

lemma ok_props_value: "ok_props ps \<Longrightarrow> map_of ps k = Some v \<Longrightarrow> wf_val v \<and> v \<noteq> VNull \<and> normalize v = v"
  by (auto simp: ok_props_def dest: map_of_SomeD)

lemma ok_props_canon: "ok_props ps \<Longrightarrow> ok_props (canon_props ps)"
  unfolding ok_props_def canon_props_def distinct_sort_key_fst map_fst_canon
  by (auto simp: canon_value)

lemma prop_entries_canon:
  assumes "ok_props ps"
  shows "prop_entries (canon_props ps) = prop_entries ps"
proof -
  have "map_of (canon_props ps) k = Some v \<and> IsIndexable v \<longleftrightarrow> map_of ps k = Some v \<and> IsIndexable v" for k v
  proof (cases "map_of ps k")
    case (Some w)
    then have "normalize w = w" using ok_props_value [OF assms] by simp
    from canon_value(3,4) [OF this] Some show ?thesis
      by (auto simp: map_of_canon_props [OF ok_props_distinct [OF assms]] simp del: map_of_eq_Some_iff)
  qed (simp add: map_of_canon_props [OF ok_props_distinct [OF assms]])
  then show ?thesis by (simp add: prop_entries_def)
qed

lemma ok_node_canon: "ok_node r \<Longrightarrow> ok_node (canon_node r)"
  by (simp add: ok_node_def canon_node_def ok_props_canon)

lemma ok_edge_canon: "ok_edge r \<Longrightarrow> ok_edge (canon_edge r)"
  by (simp add: ok_edge_def canon_edge_def ok_props_canon)

lemma EncodeNode_ok:
  assumes "EncodeNode r = Inr v" "ok_node r"
  shows "DecodeNode v = Inr (canon_node r)"
  using node_roundtrip [OF ok_node_wf, of r "[]"] assms by simp

lemma EncodeEdge_ok:
  assumes "EncodeEdge r = Inr v" "ok_edge r"
  shows "DecodeEdge v = Inr (canon_edge r)"
  using edge_roundtrip [of r "[]"] assms ok_props_wf by (simp add: ok_edge_def)

lemma ball_subset: "A \<subseteq> B \<Longrightarrow> \<forall>x \<in> B. P x \<Longrightarrow> \<forall>x \<in> A. P x"
  by auto

lemma ok_props_update:
  assumes "ok_props ps" "wf_val v" "v \<noteq> VNull" "normalize v = v"
  shows "ok_props (AList.update k v ps)"
proof -
  have "set (AList.update k v ps) \<subseteq> insert (k, v) (set ps)"
    by (induction ps) auto
  moreover have "\<forall>(k, v) \<in> insert (k, v) (set ps). wf_val v \<and> v \<noteq> VNull \<and> normalize v = v"
    using assms by (auto simp: ok_props_def)
  ultimately have "\<forall>(k, v) \<in> set (AList.update k v ps). wf_val v \<and> v \<noteq> VNull \<and> normalize v = v" by (rule ball_subset)
  then show ?thesis using assms unfolding ok_props_def by (simp add: distinct_update)
qed

lemma ok_props_delete: "ok_props ps \<Longrightarrow> ok_props (AList.delete k ps)"
  using distinct_delete [of ps k] by (simp add: ok_props_def) (auto simp: AList.delete_eq)

lemma nodes_upd:
  "DecodeNode v = Inr r \<Longrightarrow> nodes (m(NodeKey n \<mapsto> v)) = (nodes m)(n \<mapsto> r)"
  by (auto simp: nodes_def fun_eq_iff)

lemma nodes_del: "nodes (m(NodeKey n := None)) = (nodes m)(n := None)"
  by (auto simp: nodes_def fun_eq_iff)

lemma edges_upd:
  "DecodeEdge v = Inr r \<Longrightarrow> edges (m(EdgeKey n \<mapsto> v)) = (edges m)(n \<mapsto> r)"
  by (auto simp: edges_def fun_eq_iff)

lemma edges_del: "edges (m(EdgeKey n := None)) = (edges m)(n := None)"
  by (auto simp: edges_def fun_eq_iff)

lemma nodes_ok: "rows_ok m \<Longrightarrow> nodes m n = Some r \<Longrightarrow> ok_node r \<and> canonical (Props r)"
  by (fastforce simp: rows_ok_def nodes_def split: option.splits sum.splits dest: spec [of _ "NodeKey n"])

lemma edges_ok: "rows_ok m \<Longrightarrow> edges m e = Some r \<Longrightarrow> ok_edge r \<and> canonical (EProps r)"
  by (fastforce simp: rows_ok_def edges_def split: option.splits sum.splits dest: spec [of _ "EdgeKey e"])

lemma canon_VMap: "canon (VMap es) = VMap (map (\<lambda>(k, v). (k, canon v)) (sort_key fst es))"
proof -
  have "fst \<circ> (\<lambda>(k, v). (k, canon v)) = (fst :: bytes \<times> val \<Rightarrow> bytes)" by auto
  then show ?thesis by (simp only: canon.simps sort_key_map)
qed

lemma canon_idem [simp]: "canon (canon v) = canon v"
proof (induction v rule: canon.induct)
  case (3 es)
  have f: "fst \<circ> (\<lambda>(k, v). (k, canon v)) = (fst :: bytes \<times> val \<Rightarrow> bytes)" by auto
  have "(\<lambda>(k, v). (k, canon v)) (case kv of (k, v) \<Rightarrow> (k, canon v)) = (case kv of (k, v) \<Rightarrow> (k, canon v))" if "kv \<in> set es" for kv
    using 3 that by (cases kv) auto
  then show ?case unfolding canon_VMap sort_key_map f by (simp add: sort_key_id_if_sorted del: canon.simps)
qed simp_all

lemma canonical_canon: "canonical (canon_props ps)"
  by (auto simp: canonical_def canon_props_def)

lemma map_option_canon:
  assumes "canonical ps" "map_of ps k = Some v"
  shows "canon v = v"
  using assms by (auto simp: canonical_def dest!: map_of_SomeD)

section \<open>The abstract graph\<close>

text \<open>Labels, types and property keys by name; property maps as functions.\<close>

record anode =
  ALabels :: "bytes set"
  AProps :: "bytes \<rightharpoonup> val"

record aedge =
  AType :: "bytes option"
  ASrc :: u64
  ADst :: u64
  AEProps :: "bytes \<rightharpoonup> val"

record agraph =
  ANodes :: "u64 \<rightharpoonup> anode"
  AEdges :: "u64 \<rightharpoonup> aedge"

definition label_names :: "(bytes \<rightharpoonup> bytes) \<Rightarrow> u32 list \<Rightarrow> bytes set" where
  "label_names m ls = {name. \<exists>l \<in> set ls. m (fwdKey tagLabelFwd name) = Some (PutUint32 l)}"

definition named :: "(bytes \<rightharpoonup> bytes) \<Rightarrow> props \<Rightarrow> bytes \<rightharpoonup> val" where
  "named m ps name =
     (case m (fwdKey tagKeyFwd name) of None \<Rightarrow> None | Some v \<Rightarrow> map_of ps (Uint32 v))"

definition abs_node :: "(bytes \<rightharpoonup> bytes) \<Rightarrow> NodeRecord \<Rightarrow> anode" where
  "abs_node m r = \<lparr>ALabels = label_names m (Labels r), AProps = named m (Props r)\<rparr>"

definition abs_edge :: "(bytes \<rightharpoonup> bytes) \<Rightarrow> EdgeRecord \<Rightarrow> aedge" where
  "abs_edge m r = \<lparr>AType = m (revKey kindType (EType r)), ASrc = Src r, ADst = Dst r, AEProps = named m (EProps r)\<rparr>"

definition graph_of :: "(bytes \<rightharpoonup> bytes) \<Rightarrow> agraph" where
  "graph_of m = \<lparr>ANodes = (\<lambda>n. map_option (abs_node m) (nodes m n)), AEdges = (\<lambda>e. map_option (abs_edge m) (edges m e))\<rparr>"

section \<open>Interning\<close>

text \<open>Names keep their identifiers, and identifiers their names.\<close>

definition dict_le :: "(bytes \<rightharpoonup> bytes) \<Rightarrow> (bytes \<rightharpoonup> bytes) \<Rightarrow> bool" where
  "dict_le m m' \<longleftrightarrow>
     (\<forall>tag kind name v. is_dict tag kind \<longrightarrow> m (fwdKey tag name) = Some v \<longrightarrow> m' (fwdKey tag name) = Some v) \<and>
     (\<forall>tag kind i name. is_dict tag kind \<longrightarrow> m (revKey kind i) = Some name \<longrightarrow> m' (revKey kind i) = Some name)"

text \<open>Two contents that differ only in the dictionaries, which have grown, and in the counters.\<close>

definition quiet :: "(bytes \<rightharpoonup> bytes) \<Rightarrow> (bytes \<rightharpoonup> bytes) \<Rightarrow> bool" where
  "quiet m m' \<longleftrightarrow> only_in {0x4C, 0x54, 0x4B, 0x52, 0x63} m m' \<and> dict_le m m' \<and>
     counter m kindNode \<le> counter m' kindNode \<and> counter m kindEdge \<le> counter m' kindEdge \<and>
     (rows_ok m \<longrightarrow> rows_ok m') \<and> dicts_ok m \<and> dicts_ok m'"

lemma dict_le_refl: "dict_le m m"
  by (simp add: dict_le_def)

lemma quiet_refl: "dicts_ok m \<Longrightarrow> quiet m m"
  by (simp add: quiet_def dict_le_refl)

lemma quiet_trans [trans]: "quiet m m' \<Longrightarrow> quiet m' m'' \<Longrightarrow> quiet m m''"
  unfolding quiet_def dict_le_def by (auto intro: only_in_trans order_trans)

text \<open>Interning leaves the counters of nodes and edges alone.\<close>

definition interns :: "(bytes \<rightharpoonup> bytes) \<Rightarrow> (bytes \<rightharpoonup> bytes) \<Rightarrow> bool" where
  "interns m m' \<longleftrightarrow> quiet m m' \<and> counter m' kindNode = counter m kindNode \<and> counter m' kindEdge = counter m kindEdge"

lemma interns_refl: "dicts_ok m \<Longrightarrow> interns m m"
  by (simp add: interns_def quiet_refl)

lemma interns_trans [trans]: "interns m m' \<Longrightarrow> interns m' m'' \<Longrightarrow> interns m m''"
  by (auto simp: interns_def intro: quiet_trans)

lemma internsD:
  assumes "interns m m'"
  shows "quiet m m'" "dicts_ok m'" "dict_le m m'" "counter m' kindNode = counter m kindNode" "counter m' kindEdge = counter m kindEdge"
  using assms by (simp_all add: interns_def quiet_def)

lemma quiet_records:
  assumes "quiet m m'"
  shows "nodes m' = nodes m" "edges m' = edges m"
proof -
  have "only_in {0x4C, 0x54, 0x4B, 0x52, 0x63} m m'" using assms by (simp add: quiet_def)
  from frame_records [OF this] show "nodes m' = nodes m" "edges m' = edges m" by simp_all
qed

lemma quiet_tables:
  assumes "quiet m m'" "tables_ok m lab ent adj ren"
  shows "tables_ok m' lab ent adj ren"
proof -
  have "only_in {0x4C, 0x54, 0x4B, 0x52, 0x63} m m'" using assms by (simp add: quiet_def)
  from frame_tables [OF this] assms show ?thesis by (simp add: quiet_def tables_ok_def)
qed

lemma dict_le_known:
  assumes "dict_le m m'"
  shows "known_node m r \<Longrightarrow> known_node m' r" "known_edge m e \<Longrightarrow> known_edge m' e"
proof -
  have "is_dict tagLabelFwd kindLabel" "is_dict tagTypeFwd kindType" "is_dict tagKeyFwd kindKey"
    by (simp_all add: is_dict_def)
  then have "kind \<in> {kindLabel, kindType, kindKey} \<Longrightarrow> m (revKey kind i) \<noteq> None \<Longrightarrow> m' (revKey kind i) \<noteq> None" for kind i
    using assms unfolding dict_le_def by blast
  then show "known_node m r \<Longrightarrow> known_node m' r" "known_edge m e \<Longrightarrow> known_edge m' e"
    by (simp_all add: known_node_def known_edge_def)
qed

lemma quiet_consistent:
  assumes "quiet m m'" "consistent m"
  shows "consistent m'"
proof -
  note r = quiet_records [OF assms(1)]
  have "node_labels m' = node_labels m" "node_entries m' = node_entries m" "adjacency m' = adjacency m"
    "edge_entries m' = edge_entries m"
    by (simp_all add: r node_labels_def node_entries_def adjacency_def edge_entries_def fun_eq_iff)
  moreover have "records_ok m'"
  proof -
    have q: "dict_le m m'" "dicts_ok m'" "counter m kindNode \<le> counter m' kindNode" "counter m kindEdge \<le> counter m' kindEdge"
      using assms(1) by (simp_all add: quiet_def)
    have "records_ok m" using assms(2) by (simp add: consistent_def)
    then show ?thesis unfolding records_ok_def r
      using q(2) dict_le_known [OF q(1)] order_trans [OF _ q(3)] order_trans [OF _ q(4)] by simp
  qed
  ultimately show ?thesis
    using assms quiet_tables [OF assms(1)] by (simp add: consistent_def)
qed

text \<open>The dictionaries read in either direction.\<close>

lemma dicts_okD: "dicts_ok m \<Longrightarrow> is_dict tag kind \<Longrightarrow> dict_ok m tag kind"
  by (auto simp: dicts_ok_def is_dict_def)

lemma dict_names [simp]: "is_dict tagLabelFwd kindLabel" "is_dict tagTypeFwd kindType" "is_dict tagKeyFwd kindKey"
  by (simp_all add: is_dict_def)

lemma dict_iff:
  assumes "dicts_ok m" "is_dict tag kind"
  shows "m (fwdKey tag name) = Some (PutUint32 i) \<longleftrightarrow> m (revKey kind i) = Some name"
  using dicts_okD [OF assms] dict_ok_fwd(3) unfolding dict_ok_def by blast

lemma named_iff:
  assumes "dicts_ok m"
  shows "named m ps name = Some v \<longleftrightarrow> (\<exists>i. m (revKey kindKey i) = Some name \<and> map_of ps i = Some v)"
proof -
  have "named m ps name = Some v \<longleftrightarrow> (\<exists>i. m (fwdKey tagKeyFwd name) = Some (PutUint32 i) \<and> map_of ps i = Some v)"
    using dict_ok_value [OF dicts_okD [OF assms dict_names(3)], of name]
    by (auto simp: named_def split: option.splits)
  then show ?thesis unfolding dict_iff [OF assms dict_names(3)] .
qed

lemma label_names_iff:
  assumes "dicts_ok m"
  shows "name \<in> label_names m ls \<longleftrightarrow> (\<exists>l \<in> set ls. m (revKey kindLabel l) = Some name)"
  unfolding label_names_def using dict_iff [OF assms dict_names(1)] by simp

lemma quiet_rev:
  assumes "quiet m m'" "is_dict tag kind" "m (revKey kind i) \<noteq> None"
  shows "m' (revKey kind i) = m (revKey kind i)"
  using assms unfolding quiet_def dict_le_def by fastforce

lemma option_eqI: "(\<And>v. x = Some v \<longleftrightarrow> y = Some v) \<Longrightarrow> x = y"
  by (cases x; cases y) auto

lemma quiet_named:
  assumes q: "quiet m m'" and k: "\<forall>k \<in> fst ` set ps. m (revKey kindKey k) \<noteq> None"
  shows "named m' ps = named m ps"
proof (rule ext, rule option_eqI)
  fix name v
  have d: "dicts_ok m" "dicts_ok m'" using q by (simp_all add: quiet_def)
  have "map_of ps i = Some v \<Longrightarrow> m' (revKey kindKey i) = m (revKey kindKey i)" for i
    using quiet_rev [OF q dict_names(3)] k map_of_SomeD [of ps i v] by force
  then show "named m' ps name = Some v \<longleftrightarrow> named m ps name = Some v"
    unfolding named_iff [OF d(1)] named_iff [OF d(2)] by metis
qed

lemma quiet_abs_node:
  assumes q: "quiet m m'" and r: "known_node m r"
  shows "abs_node m' r = abs_node m r"
proof -
  have d: "dicts_ok m" "dicts_ok m'" using q by (simp_all add: quiet_def)
  have "l \<in> set (Labels r) \<Longrightarrow> m' (revKey kindLabel l) = m (revKey kindLabel l)" for l
    using quiet_rev [OF q dict_names(1)] r by (simp add: known_node_def)
  then have "label_names m' (Labels r) = label_names m (Labels r)"
    unfolding set_eq_iff label_names_iff [OF d(1)] label_names_iff [OF d(2)] by simp
  then show ?thesis using quiet_named [OF q, of "Props r"] r by (simp add: abs_node_def known_node_def)
qed

lemma quiet_abs_edge:
  assumes q: "quiet m m'" and r: "known_edge m r"
  shows "abs_edge m' r = abs_edge m r"
  using quiet_named [OF q, of "EProps r"] quiet_rev [OF q dict_names(2)] r by (simp add: abs_edge_def known_edge_def)

lemma quiet_abs:
  assumes "quiet m m'" "records_ok m"
  shows "graph_of m' = graph_of m"
proof -
  have "map_option (abs_node m') (nodes m n) = map_option (abs_node m) (nodes m n)" for n
    using assms(2) quiet_abs_node [OF assms(1)] by (cases "nodes m n") (auto simp: records_ok_def)
  moreover have "map_option (abs_edge m') (edges m e) = map_option (abs_edge m) (edges m e)" for e
    using assms(2) quiet_abs_edge [OF assms(1)] by (cases "edges m e") (auto simp: records_ok_def)
  ultimately show ?thesis by (simp add: graph_of_def quiet_records [OF assms(1)])
qed

section \<open>Steps\<close>

definition labels_of :: "NodeRecord option \<Rightarrow> u32 set" where
  "labels_of r = (case r of None \<Rightarrow> {} | Some r \<Rightarrow> set (Labels r))"

definition entries_of_node :: "NodeRecord option \<Rightarrow> (u32 \<times> u32 \<times> val) set" where
  "entries_of_node r = (case r of None \<Rightarrow> {} | Some r \<Rightarrow> set (Labels r) \<times> prop_entries (Props r))"

lemma node_sets: "node_labels m n = labels_of (nodes m n)" "node_entries m n = entries_of_node (nodes m n)"
  by (simp_all add: node_labels_def node_entries_def labels_of_def entries_of_node_def)

lemma abs_same:
  assumes "only_in H m m'" "H \<inter> {0x4C, 0x54, 0x4B, 0x52} = {}"
  shows "abs_node m' = abs_node m" "abs_edge m' = abs_edge m" "known_node m' = known_node m" "known_edge m' = known_edge m"
proof -
  have "m' (revKey k i) = m (revKey k i)" for k i
    using only_inD [OF assms(1)] assms(2) by auto
  moreover have "t \<in> {0x4C, 0x54, 0x4B} \<Longrightarrow> m' (fwdKey t n) = m (fwdKey t n)" for t n
    using only_inD [OF assms(1)] assms(2) by auto
  ultimately show "abs_node m' = abs_node m" "abs_edge m' = abs_edge m" "known_node m' = known_node m" "known_edge m' = known_edge m"
    by (auto simp: fun_eq_iff abs_node_def abs_edge_def label_names_def named_def known_node_def known_edge_def)
qed

text \<open>A mutation of one node: its record becomes \<open>r\<close> and its index rows are those of \<open>r\<close>.\<close>

lemma node_step:
  assumes c: "consistent m" and o: "only_in {0x6C, 0x70, 0x75, 0x6E} m m'"
    and n: "nodes m' = (nodes m)(n := r)"
    and t: "label_tables m' ((node_labels m)(n := labels_of r)) ((node_entries m)(n := entries_of_node r))"
    and some: "\<And>r'. r = Some r' \<Longrightarrow> n \<noteq> 0 \<and> n \<le> counter m kindNode \<and> known_node m r'"
    and none: "\<And>e re. r = None \<Longrightarrow> edges m e = Some re \<Longrightarrow> Src re \<noteq> n \<and> Dst re \<noteq> n"
  shows "consistent m' \<and> graph_of m' = (graph_of m)\<lparr>ANodes := (ANodes (graph_of m))(n := map_option (abs_node m) r)\<rparr>"
proof -
  note e = frame_records(2,3) [OF o, simplified]
  note a = abs_same [OF o, simplified]
  have "node_labels m' = (node_labels m)(n := labels_of r)" "node_entries m' = (node_entries m)(n := entries_of_node r)"
    by (simp_all add: fun_eq_iff node_sets n)
  moreover have "adjacency m' = adjacency m" "edge_entries m' = edge_entries m"
    by (simp_all add: e adjacency_def edge_entries_def fun_eq_iff)
  moreover have "a_ok m' (adjacency m)" "r_ok m' (edge_entries m)"
    using frame_tables(5,6) [OF o] c by (simp_all add: consistent_def tables_ok_def)
  moreover have "dicts_ok m'" using frame_dicts [OF o] c by (simp add: consistent_def records_ok_def)
  moreover have "records_ok m" using c by (simp add: consistent_def)
  ultimately have "consistent m'"
    using t some none unfolding consistent_def tables_ok_def label_tables_def entries_ok_def records_ok_def n e a
    by (cases r) (auto simp del: catalog_kinds)
  then show ?thesis by (simp add: graph_of_def n e a fun_eq_iff)
qed

text \<open>A mutation of one edge.\<close>

definition adj_of :: "u64 \<Rightarrow> EdgeRecord option \<Rightarrow> (u64 \<times> u32 \<times> u64 \<times> u64) set" where
  "adj_of e r = (case r of None \<Rightarrow> {} | Some r \<Rightarrow> {(Src r, EType r, Dst r, e)})"

definition entries_of_edge :: "EdgeRecord option \<Rightarrow> (u32 \<times> u32 \<times> val) set" where
  "entries_of_edge r = (case r of None \<Rightarrow> {} | Some r \<Rightarrow> {EType r} \<times> prop_entries (EProps r))"

lemma adjacency_upd:
  assumes "edges m' = (edges m)(e := r)"
  shows "adjacency m' = (adjacency m - adj_of e (edges m e)) \<union> adj_of e r"
  by (auto simp: adjacency_def adj_of_def assms split: option.splits if_splits)

lemma edge_step:
  assumes c: "consistent m" and o: "only_in {0x6F, 0x69, 0x72, 0x65} m m'"
    and e: "edges m' = (edges m)(e := r)" and rows: "rows_ok m'"
    and t: "a_ok m' ((adjacency m - adj_of e (edges m e)) \<union> adj_of e r)" "r_ok m' ((edge_entries m)(e := entries_of_edge r))"
    and some: "\<And>r'. r = Some r' \<Longrightarrow> e \<noteq> 0 \<and> e \<le> counter m kindEdge \<and> known_edge m r' \<and>
      nodes m (Src r') \<noteq> None \<and> nodes m (Dst r') \<noteq> None"
  shows "consistent m' \<and> graph_of m' = (graph_of m)\<lparr>AEdges := (AEdges (graph_of m))(e := map_option (abs_edge m) r)\<rparr>"
proof -
  note n = frame_records(1,3) [OF o, simplified]
  note a = abs_same [OF o, simplified]
  have "edge_entries m' = (edge_entries m)(e := entries_of_edge r)"
    by (simp add: fun_eq_iff edge_entries_def entries_of_edge_def e)
  moreover have "node_labels m' = node_labels m" "node_entries m' = node_entries m"
    by (simp_all add: n node_sets fun_eq_iff)
  moreover have "l_ok m' (node_labels m)" "p_ok m' (node_entries m)" "u_ok m' (node_entries m)" "c_ok m'"
    using frame_tables(1-4) [OF o] c by (simp_all add: consistent_def tables_ok_def)
  moreover have "dicts_ok m'" using frame_dicts [OF o] c by (simp add: consistent_def records_ok_def)
  moreover have "records_ok m" using c by (simp add: consistent_def)
  ultimately have "consistent m'"
    using rows t some unfolding adjacency_upd [OF e, symmetric] consistent_def tables_ok_def records_ok_def n e a
    by (cases r) (auto simp del: catalog_kinds)
  then show ?thesis by (simp add: graph_of_def n e a fun_eq_iff)
qed

text \<open>Only entries that can be indexed count.\<close>

lemma entries_ok_cong:
  assumes "entries_ok m ent" "\<And>n l k v. IsIndexable v \<Longrightarrow> (l, k, v) \<in> ent n \<longleftrightarrow> (l, k, v) \<in> ent' n"
  shows "entries_ok m ent'"
proof -
  have "holds_value ent = holds_value ent'" unfolding fun_eq_iff holds_value_def using assms(2) by metis
  then show ?thesis using assms by (simp add: entries_ok_def p_ok_def u_ok_def)
qed

lemma entries_of_node_iff:
  "(l, k, v) \<in> entries_of_node (Some r) \<longleftrightarrow> l \<in> set (Labels r) \<and> map_of (Props r) k = Some v \<and> IsIndexable v"
  by (auto simp: entries_of_node_def prop_entries_def)

section \<open>Interning in a transaction\<close>

lemma quiet_counter:
  assumes "dicts_ok m" "kind \<in> {kindNode, kindEdge}" "counter m kind \<noteq> - 1"
  shows "quiet m (m(counterKey kind \<mapsto> PutUint64 (counter m kind + 1)))"
proof -
  have "counter m kind \<le> counter m kind + 1" using succ_word [OF assms(3)] by (auto intro: less_imp_le)
  moreover have "only_in {0x4C, 0x54, 0x4B, 0x52, 0x63} m (m(counterKey kind \<mapsto> PutUint64 (counter m kind + 1)))"
    by (rule only_in_upd) simp
  moreover have "dicts_ok (m(counterKey kind \<mapsto> PutUint64 (counter m kind + 1)))"
    using assms(1,2) by (auto simp: dicts_ok_def dict_ok_def counter_ok_def key_simps)
  ultimately show ?thesis
    using assms(1,2) by (auto simp: quiet_def dict_le_def is_dict_def key_simps)
qed

context txn_store
begin

lemma internDict_interns:
  assumes r: "runs (internDict T tag kind name) s i s'" and u: "usable s" and d: "dicts_ok (content s)" "is_dict tag kind"
  shows "usable s' \<and> interns (content s) (content s') \<and> content s' (fwdKey tag name) = Some (PutUint32 i)"
proof -
  let ?m = "content s" and ?m' = "content s'"
  have i: "usable s'" "interned ?m tag kind name i ?m'" using internDict_interned [OF r u d] by simp_all
  then have d': "dicts_ok ?m'" and f: "?m' (fwdKey tag name) = Some (PutUint32 i)" by (simp_all add: interned_def)
  have t: "tag \<in> {0x4C, 0x54, 0x4B}" "kind \<notin> {kindNode, kindEdge}" using d(2) by (auto simp: is_dict_def)
  have o: "only_in {tag, 0x52, 0x63} ?m ?m'" using i(2) by (simp add: interned_def only_in_def)
  have c: "?m = ?m' \<or> ?m' = ?m(counterKey kind \<mapsto> PutUint64 (counter ?m kind + 1), fwdKey tag name \<mapsto> PutUint32 i, revKey kind i \<mapsto> name)"
    using runs_internDict [OF r u] by blast
  have cn: "counter ?m' kind' = counter ?m kind'" if "kind' \<in> {kindNode, kindEdge}" for kind'
    using c t that by (elim disjE) (auto simp: counter_other)
  have rows: "rows_ok ?m \<longrightarrow> rows_ok ?m'"
    using c t by (elim disjE) (auto intro!: rows_ok_upd)
  have fw: "?m' (fwdKey tag' nm) = Some v" if th: "is_dict tag' kind'" "?m (fwdKey tag' nm) = Some v" for tag' kind' nm v
  proof -
    obtain j where j: "v = PutUint32 j" using dict_ok_value [OF dicts_okD [OF d(1) th(1)] th(2)] by blast
    show ?thesis
    proof (cases "tag' = tag")
      case True
      with i(2) that(2) d(2) j show ?thesis unfolding interned_def by blast
    next
      case False
      then have "hd (fwdKey tag' nm) \<notin> {tag, 0x52, 0x63}" using that(1) by (auto simp: is_dict_def)
      with o that(2) show ?thesis by (simp only: only_in_def) simp
    qed
  qed
  have rv: "?m' (revKey kind' j) = Some nm" if "is_dict tag' kind'" "?m (revKey kind' j) = Some nm" for tag' kind' nm j
    using fw [OF that(1)] that dict_iff [OF d(1) that(1)] dict_iff [OF d' that(1)] by blast
  have "dict_le ?m ?m'" unfolding dict_le_def using fw rv by blast
  with i(1) d(1) d' f cn rows only_in_mono [OF o, of "{0x4C, 0x54, 0x4B, 0x52, 0x63}"] t(1) show ?thesis
    by (auto simp: interns_def quiet_def simp del: catalog_kinds)
qed

end

end
