(* ===== verification/Graph_Crud.thy ===== *)
theory Graph_Crud
  imports Graph_Abs
begin

text \<open>
  \<^verbatim>\<open>crud.go\<close>: every mutation of a node keeps the index tables in step with the records
  (Invariant #1), and changes the graph as its specification \<open>a_...\<close> says. The lemmas hold over
  any transaction that satisfies the contract \<open>txn_store\<close>.
\<close>

section \<open>Interning the arguments\<close>

context txn_store
begin

lemma intern_labels_ok:
  assumes "runs (intern_labels T names ids) s ids' s'" "usable s" "dicts_ok (content s)" "distinct ids"
  shows "usable s' \<and> interns (content s) (content s') \<and> distinct ids' \<and>
    (\<forall>l. l \<in> set ids' \<longleftrightarrow> l \<in> set ids \<or> (\<exists>name \<in> set names. content s' (fwdKey tagLabelFwd name) = Some (PutUint32 l))) \<and>
    (\<forall>name \<in> set names. content s' (fwdKey tagLabelFwd name) \<noteq> None)"
  using assms
proof (induction names arbitrary: ids s)
  case Nil
  then show ?case by (auto intro: interns_refl)
next
  case (Cons name names)
  then obtain i t where i: "runs (InternLabel T name) s i t"
    and r: "runs (intern_labels T names (if i \<in> set ids then ids else ids @ [i])) t ids' s'"
    by (auto simp: runs_simps split: if_splits)
  note q = internDict_interns [OF i [unfolded InternLabel_def] Cons.prems(2,3) dict_names(1)]
  then have d: "dicts_ok (content t)" using internsD by blast
  have "distinct (if i \<in> set ids then ids else ids @ [i])" using Cons.prems(4) by simp
  note h = Cons.IH [OF r conjunct1 [OF q] d this]
  have n: "content s' (fwdKey tagLabelFwd name) = Some (PutUint32 i)"
    using q h dict_names(1) using internsD(3) unfolding dict_le_def by blast
  show ?case
    using h q n interns_trans [of "content s" "content t" "content s'"] by (auto split: if_splits)
qed

lemma add_labels_ok:
  assumes "runs (add_labels T names existing added) s added' s'" "usable s" "dicts_ok (content s)"
    "distinct added" "set added \<subseteq> set existing"
  shows "usable s' \<and> interns (content s) (content s') \<and> distinct added' \<and>
    (\<forall>l. l \<in> set added' \<longleftrightarrow> l \<in> set added \<or>
       l \<notin> set existing \<and> (\<exists>name \<in> set names. content s' (fwdKey tagLabelFwd name) = Some (PutUint32 l))) \<and>
    (\<forall>name \<in> set names. content s' (fwdKey tagLabelFwd name) \<noteq> None)"
  using assms
proof (induction names arbitrary: existing added s)
  case Nil
  then show ?case by (auto intro: interns_refl)
next
  case (Cons name names)
  from Cons.prems(1) obtain i t where i: "runs (InternLabel T name) s i t"
    and r: "runs (add_labels T names (if i \<in> set existing then existing else i # existing)
      (if i \<in> set existing then added else added @ [i])) t added' s'"
    by (auto simp: runs_simps split: if_splits)
  note q = internDict_interns [OF i [unfolded InternLabel_def] Cons.prems(2,3) dict_names(1)]
  then have d: "dicts_ok (content t)" using internsD by blast
  have "usable s' \<and> interns (content t) (content s') \<and> distinct added' \<and>
    (\<forall>l. l \<in> set added' \<longleftrightarrow> l \<in> set (if i \<in> set existing then added else added @ [i]) \<or>
       l \<notin> set (if i \<in> set existing then existing else i # existing) \<and>
       (\<exists>name \<in> set names. content s' (fwdKey tagLabelFwd name) = Some (PutUint32 l))) \<and>
    (\<forall>name \<in> set names. content s' (fwdKey tagLabelFwd name) \<noteq> None)"
    by (rule Cons.IH [OF r conjunct1 [OF q] d]) (use Cons.prems(4,5) in auto)
  note h = this
  have n: "content s' (fwdKey tagLabelFwd name) = Some (PutUint32 i)"
    using q h dict_names(1) using internsD(3) unfolding dict_le_def by blast
  show ?case
    using h q n interns_trans [of "content s" "content t" "content s'"] Cons.prems(5) by (auto split: if_splits)
qed

end

section \<open>Property maps by name\<close>

definition known_keys :: "(bytes \<rightharpoonup> bytes) \<Rightarrow> props \<Rightarrow> bool" where
  "known_keys m ps \<longleftrightarrow> (\<forall>k \<in> fst ` set ps. m (revKey kindKey k) \<noteq> None)"

text \<open>A property map before nulls are dropped.\<close>

definition pre_props :: "props \<Rightarrow> bool" where
  "pre_props ps \<longleftrightarrow> distinct (map fst ps) \<and> (\<forall>(k, v) \<in> set ps. wf_val v \<and> normalize v = v)"

lemma ok_props_pre: "ok_props ps \<longleftrightarrow> pre_props ps \<and> (\<forall>(k, v) \<in> set ps. v \<noteq> VNull)"
  by (auto simp: ok_props_def pre_props_def)

lemma normalize_wf [simp]: "wf_val (normalize v) \<longleftrightarrow> wf_val v" "normalize (normalize v) = normalize v"
    "normalize v = VNull \<longleftrightarrow> v = VNull" "canon (normalize v) = canon v"
  by (cases v; simp add: Values.normalize_def)+

lemma set_update: "set (AList.update k v ps) \<subseteq> insert (k, v) (set ps)"
  by (induction ps) auto

lemma pre_props_update:
  assumes "pre_props ps" "wf_val v" "normalize v = v"
  shows "pre_props (AList.update k v ps)"
proof -
  have "\<forall>(k, v) \<in> insert (k, v) (set ps). wf_val v \<and> normalize v = v"
    using assms by (auto simp: pre_props_def)
  then have "\<forall>(k, v) \<in> set (AList.update k v ps). wf_val v \<and> normalize v = v"
    by (rule ball_subset [OF set_update])
  then show ?thesis using assms unfolding pre_props_def by (simp add: distinct_update)
qed

lemma known_keys_update: "known_keys m ps \<Longrightarrow> m (revKey kindKey i) \<noteq> None \<Longrightarrow> known_keys m (AList.update i v ps)"
  by (auto simp: known_keys_def dom_update)

lemma named_update:
  assumes "dicts_ok m" "m (fwdKey tagKeyFwd k) = Some (PutUint32 i)"
  shows "named m (AList.update i v ps) = (named m ps)(k \<mapsto> v)"
proof
  fix name
  have "name \<noteq> k \<Longrightarrow> m (fwdKey tagKeyFwd name) \<noteq> Some (PutUint32 i)"
    using assms dict_iff [OF assms(1) dict_names(3)] by auto
  then show "named m (AList.update i v ps) name = ((named m ps)(k \<mapsto> v)) name"
    using assms(2) dict_ok_value [OF dicts_okD [OF assms(1) dict_names(3)], of name]
    by (auto simp: named_def update_conv' split: option.splits)
qed

lemma named_delete:
  assumes "dicts_ok m" "m (fwdKey tagKeyFwd k) = Some (PutUint32 i)"
  shows "named m (AList.delete i ps) = (named m ps)(k := None)"
proof
  fix name
  have "name \<noteq> k \<Longrightarrow> m (fwdKey tagKeyFwd name) \<noteq> Some (PutUint32 i)"
    using assms dict_iff [OF assms(1) dict_names(3)] by auto
  then show "named m (AList.delete i ps) name = ((named m ps)(k := None)) name"
    using assms(2) dict_ok_value [OF dicts_okD [OF assms(1) dict_names(3)], of name]
    by (auto simp: named_def delete_conv' split: option.splits)
qed

lemma named_Nil [simp]: "named m [] = Map.empty"
  by (auto simp: named_def split: option.splits)

lemma map_of_filter_distinct:
  "distinct (map fst ps) \<Longrightarrow>
     map_of (filter (\<lambda>(k, v). P v) ps) k = (case map_of ps k of Some v \<Rightarrow> if P v then Some v else None | None \<Rightarrow> None)"
  by (induction ps) (auto simp: map_of_eq_None_iff split: option.splits)

lemma intern_props_desired: "intern_props T ps out = intern_desired T (filter (\<lambda>(k, v). v \<noteq> VNull) ps) out"
  by (induction T ps out rule: intern_props.induct) (simp_all add: fun_eq_iff bnd_def split: prod.splits sum.splits)

context txn_store
begin

lemma intern_desired_ok:
  assumes "runs (intern_desired T ps des) s des' s'" "usable s" "dicts_ok (content s)" "distinct (map fst ps)"
    "\<forall>(k, v) \<in> set ps. wf_val v" "pre_props des" "known_keys (content s) des"
  shows "usable s' \<and> interns (content s) (content s') \<and> pre_props des' \<and> known_keys (content s') des' \<and>
    named (content s') des' = named (content s) des ++ (\<lambda>k. map_option normalize (map_of ps k))"
  using assms
proof (induction ps arbitrary: des s)
  case Nil
  then show ?case by (auto intro: interns_refl simp: fun_eq_iff map_add_def split: option.splits)
next
  case (Cons p ps)
  obtain k v where p: "p = (k, v)" by force
  from Cons.prems(1) p obtain i t where i: "runs (InternKey T k) s i t"
    and r: "runs (intern_desired T ps (AList.update i (normalize v) des)) t des' s'"
    by (auto simp: runs_simps)
  note q = internDict_interns [OF i [unfolded InternKey_def] Cons.prems(2,3) dict_names(3)]
  then have d: "dicts_ok (content t)" and qi: "interns (content s) (content t)" and ut: "usable t"
    and f: "content t (fwdKey tagKeyFwd k) = Some (PutUint32 i)" using internsD(2) by blast+
  have qt: "quiet (content s) (content t)" using internsD(1) [OF qi] .
  have rv: "content t (revKey kindKey i) \<noteq> None" using dict_iff [OF d dict_names(3)] f by simp
  have kn: "known_keys (content t) des"
    using Cons.prems(7) quiet_rev [OF qt dict_names(3)] by (simp add: known_keys_def)
  have "usable s' \<and> interns (content t) (content s') \<and> pre_props des' \<and> known_keys (content s') des' \<and>
      named (content s') des' = named (content t) (AList.update i (normalize v) des) ++ (\<lambda>k. map_option normalize (map_of ps k))"
    by (rule Cons.IH [OF r ut d])
      (use Cons.prems(4-6) p kn rv in \<open>auto intro!: pre_props_update known_keys_update simp del: catalog_kinds\<close>)
  note h = this
  have "named (content t) (AList.update i (normalize v) des) = (named (content s) des)(k \<mapsto> normalize v)"
    using named_update [OF d f] quiet_named [OF qt] Cons.prems(7) by (simp add: known_keys_def)
  moreover have "map_of ps k = None" using Cons.prems(4) by (simp add: p map_of_eq_None_iff)
  then have "(M(k \<mapsto> w)) ++ (\<lambda>k. map_option normalize (map_of ps k)) = M ++ (\<lambda>k'. map_option normalize (map_of (p # ps) k'))"
    if "w = normalize v" for w and M :: "bytes \<rightharpoonup> val"
    using that by (auto simp: p fun_eq_iff map_add_def split: option.splits)
  ultimately show ?case using h interns_trans [OF qi] by simp
qed

lemma internProps_ok:
  assumes "runs (internProps T ps) s out s'" "usable s" "dicts_ok (content s)" "distinct (map fst ps)"
    "\<forall>(k, v) \<in> set ps. wf_val v"
  shows "usable s' \<and> interns (content s) (content s') \<and> ok_props out \<and> known_keys (content s') out \<and>
    named (content s') out = (\<lambda>k. case map_of ps k of Some v \<Rightarrow> if v = VNull then None else Some (normalize v) | None \<Rightarrow> None)"
proof -
  let ?ps = "filter (\<lambda>(k, v). v \<noteq> VNull) ps"
  have r: "runs (intern_desired T ?ps []) s out s'"
    using assms(1) by (simp add: internProps_def intern_props_desired)
  have "distinct (map fst ?ps)" using assms(4) by (rule distinct_map_filter)
  moreover have "\<forall>(k, v) \<in> set ?ps. wf_val v" using assms(5) by auto
  ultimately have h: "usable s' \<and> interns (content s) (content s') \<and> pre_props out \<and> known_keys (content s') out \<and>
      named (content s') out = named (content s) [] ++ (\<lambda>k. map_option normalize (map_of ?ps k))"
    by (rule intern_desired_ok [OF r assms(2,3)]) (simp_all add: pre_props_def known_keys_def)
  have m: "map_of ?ps k = (case map_of ps k of Some v \<Rightarrow> if v = VNull then None else Some v | None \<Rightarrow> None)" for k
    using map_of_filter_distinct [OF assms(4), of "\<lambda>v. v \<noteq> VNull" k] by (auto split: option.splits)
  then have nm: "named (content s') out = (\<lambda>k. case map_of ps k of Some v \<Rightarrow> if v = VNull then None else Some (normalize v) | None \<Rightarrow> None)"
    using h by (auto simp: fun_eq_iff split: option.splits)
  have "v \<noteq> VNull" if th: "(i, v) \<in> set out" for i v
  proof -
    have "map_of out i = Some v" using h that by (simp add: pre_props_def)
    moreover obtain name where "content s' (revKey kindKey i) = Some name"
      using h th unfolding known_keys_def by force
    moreover have "dicts_ok (content s')" using h using internsD by blast
    ultimately have "named (content s') out name = Some v" using named_iff by blast
    then show ?thesis unfolding nm by (auto split: option.splits if_splits)
  qed
  with h nm show ?thesis by (auto simp: ok_props_pre)
qed

end

section \<open>Node records\<close>

lemma canon_node_entries [simp]:
  "ok_props (Props r) \<Longrightarrow> entries_of_node (Some (canon_node r)) = entries_of_node (Some r)"
  by (simp add: canon_node_def entries_of_node_def prop_entries_canon)

lemma keys_canon_props [simp]: "fst ` set (canon_props ps) = fst ` set ps"
  by (force simp: canon_props_def)

lemma canon_node_same [simp]:
  "labels_of (Some (canon_node r)) = labels_of (Some r)"
  "label_names m (Labels (canon_node r)) = label_names m (Labels r)"
  "known_node m (canon_node r) \<longleftrightarrow> known_node m r"
  by (simp_all add: labels_of_def canon_node_def label_names_def known_node_def del: catalog_kinds)

lemma named_canon: "distinct (map fst ps) \<Longrightarrow> named m (canon_props ps) = (\<lambda>k. map_option canon (named m ps k))"
  by (auto simp: named_def map_of_canon_props split: option.splits)

lemma abs_canon_node:
  "ok_node r \<Longrightarrow> abs_node m (canon_node r) = \<lparr>ALabels = label_names m (Labels r), AProps = (\<lambda>k. map_option canon (named m (Props r) k))\<rparr>"
  by (simp add: abs_node_def) (simp add: canon_node_def ok_node_def ok_props_distinct named_canon)

lemma label_names_intern:
  assumes "dicts_ok m" "\<forall>l. l \<in> set ids \<longleftrightarrow> l \<in> set ids0 \<or> (\<exists>name \<in> set names. m (fwdKey tagLabelFwd name) = Some (PutUint32 l))"
    "\<forall>name \<in> set names. m (fwdKey tagLabelFwd name) \<noteq> None"
  shows "label_names m ids = label_names m ids0 \<union> set names"
proof -
  have "\<exists>l. m (fwdKey tagLabelFwd name) = Some (PutUint32 l)" if "name \<in> set names" for name
    using assms(3) that dict_ok_value [OF dicts_okD [OF assms(1) dict_names(1)], of name] by auto
  moreover have "name = name'" if "m (fwdKey tagLabelFwd name) = Some (PutUint32 l)" "m (fwdKey tagLabelFwd name') = Some (PutUint32 l)" for name name' l
    using that dict_iff [OF assms(1) dict_names(1)] by simp
  ultimately show ?thesis unfolding label_names_def set_eq_iff mem_Collect_eq Un_iff using assms(2) by blast
qed

context txn_store
begin

lemma putNodeRecord_ok:
  assumes "runs (putNodeRecord T n r) s u s'" "usable s" "ok_node r"
  shows "usable s' \<and> only_in {0x6E} (content s) (content s') \<and> (rows_ok (content s) \<longrightarrow> rows_ok (content s')) \<and>
    nodes (content s') = (nodes (content s))(n \<mapsto> canon_node r)"
proof -
  obtain v where v: "EncodeNode r = Inr v" and t: "runs (TSet T (NodeKey n) v) s u s'"
    using assms(1) by (auto simp: putNodeRecord_def runs_simps)
  have d: "DecodeNode v = Inr (canon_node r)" by (rule EncodeNode_ok [OF v assms(3)])
  have c: "usable s'" "content s' = (content s)(NodeKey n \<mapsto> v)" using runs_TSet [OF t assms(2)] by auto
  have "rows_ok (content s) \<longrightarrow> rows_ok (content s')"
    unfolding c(2) using d ok_node_canon [OF assms(3)] canonical_canon by (auto intro!: rows_ok_upd simp: canon_node_def)
  with c d show ?thesis by (simp add: nodes_upd only_in_upd)
qed

end

lemma consistentD:
  assumes "consistent m"
  shows "rows_ok m" "label_tables m (node_labels m) (node_entries m)" "dicts_ok m" "records_ok m"
  using assms by (simp_all add: consistent_def tables_ok_def label_tables_def entries_ok_def records_ok_def)

lemma label_tables_cong:
  assumes "label_tables m lab ent" "\<And>n. lab n = lab' n"
    "\<And>n l k v. IsIndexable v \<Longrightarrow> (l, k, v) \<in> ent n \<longleftrightarrow> (l, k, v) \<in> ent' n"
  shows "label_tables m lab' ent'"
proof -
  have "lab = lab'" using assms(2) by auto
  with assms(1) entries_ok_cong [OF _ assms(3)] show ?thesis by (auto simp: label_tables_def)
qed

lemma label_tables_frame:
  assumes "label_tables m lab ent" "only_in H m m'" "H \<inter> {0x6C, 0x70, 0x75, 0x58, 0x55} = {}" "rows_ok m'"
  shows "label_tables m' lab ent"
  using assms(1,3,4) frame_tables(1-4) [OF assms(2)] by (auto simp: label_tables_def entries_ok_def)

section \<open>CreateNode\<close>

text \<open>How a value of the caller is stored: null is no property, the rest in the form the codec returns.\<close>

definition stored :: "(bytes \<times> val) list \<Rightarrow> bytes \<rightharpoonup> val" where
  "stored ps k = (case map_of ps k of Some v \<Rightarrow> if v = VNull then None else Some (canon v) | None \<Rightarrow> None)"

definition wf_args :: "(bytes \<times> val) list \<Rightarrow> bool" where
  "wf_args ps \<longleftrightarrow> distinct (map fst ps) \<and> (\<forall>(k, v) \<in> set ps. wf_val v)"

definition a_CreateNode :: "agraph \<Rightarrow> u64 \<Rightarrow> bytes list \<Rightarrow> (bytes \<times> val) list \<Rightarrow> agraph" where
  "a_CreateNode G i labels props =
     G\<lparr>ANodes := (ANodes G)(i \<mapsto> \<lparr>ALabels = set labels, AProps = stored props\<rparr>)\<rparr>"

text \<open>The tables after the index rows of a new node have been written.\<close>

lemma new_node_tables:
  assumes "label_tables m (add_entries (node_labels m0) n (set (Labels r))) (add_entries (node_entries m0) n (set (Labels r) \<times> set (Props r)))"
    "nodes m0 n = None" "ok_props (Props r)"
  shows "label_tables m ((node_labels m0)(n := labels_of (Some r))) ((node_entries m0)(n := entries_of_node (Some r)))"
  by (rule label_tables_cong [OF assms(1)])
    (use assms(2,3) in \<open>auto simp: add_entries_def node_sets labels_of_def entries_of_node_def prop_entries_def ok_props_def\<close>)

context txn_store
begin

text \<open>A fresh identifier.\<close>

lemma next_id_ok:
  assumes "runs (nextCounter T kind) s i s'" "usable s" "kind \<in> {kindNode, kindEdge}" "dicts_ok (content s)" "counter (content s) kind \<noteq> - 1"
  shows "usable s' \<and> quiet (content s) (content s') \<and> i \<noteq> 0 \<and> i = counter (content s') kind \<and> counter (content s) kind < i \<and>
    i = counter (content s) kind + 1 \<and> (\<forall>kind'. kind' \<noteq> kind \<longrightarrow> counter (content s') kind' = counter (content s) kind')"
proof -
  have n: "usable s'" "content s' = (content s)(counterKey kind \<mapsto> PutUint64 (counter (content s) kind + 1))" "i = counter (content s) kind + 1"
    using runs_nextCounter [OF assms(1,2)] by auto
  have "quiet (content s) (content s')" unfolding n(2) by (rule quiet_counter [OF assms(4,3,5)])
  with n succ_word [OF assms(5)] show ?thesis by simp
qed

lemma CreateNode_intern:
  assumes "runs (intern_labels T labels []) s ids s1" "runs (internProps T props) s1 p s2" "usable s" "dicts_ok (content s)" "wf_args props"
  shows "usable s2 \<and> interns (content s) (content s2) \<and> ok_node \<lparr>Labels = ids, Props = p\<rparr> \<and>
    known_node (content s2) \<lparr>Labels = ids, Props = p\<rparr> \<and>
    label_names (content s2) ids = set labels \<and> (\<lambda>k. map_option canon (named (content s2) p k)) = stored props"
proof -
  note a = intern_labels_ok [OF assms(1,3,4) distinct.simps(1) [THEN iffD2, OF TrueI]]
  then have q1: "interns (content s) (content s1)" and u1: "usable s1" and d1: "dicts_ok (content s1)"
    and n1: "\<forall>name \<in> set labels. content s1 (fwdKey tagLabelFwd name) \<noteq> None" using internsD(2) by blast+
  have b: "usable s2" "interns (content s1) (content s2)" "ok_props p" "known_keys (content s2) p"
    and nm: "named (content s2) p = (\<lambda>k. case map_of props k of Some v \<Rightarrow> if v = VNull then None else Some (normalize v) | None \<Rightarrow> None)"
    using internProps_ok [OF assms(2) u1 d1] assms(5) by (simp_all add: wf_args_def)
  have l1: "\<forall>l \<in> set ids. content s1 (revKey kindLabel l) \<noteq> None"
    using a dict_iff [OF d1 dict_names(1)] by auto
  have l2: "\<forall>l \<in> set ids. content s2 (revKey kindLabel l) \<noteq> None"
    using l1 quiet_rev [OF internsD(1) [OF b(2)] dict_names(1)] by simp
  have "label_names (content s1) ids = label_names (content s1) [] \<union> set labels"
    by (rule label_names_intern [OF d1]) (use a in auto)
  moreover have "label_names (content s2) ids = label_names (content s1) ids"
    using quiet_abs_node [OF internsD(1) [OF b(2)], of "\<lparr>Labels = ids, Props = []\<rparr>"] l1 by (simp add: known_node_def abs_node_def)
  moreover have "label_names (content s1) [] = {}" by (simp add: label_names_def)
  ultimately have "label_names (content s2) ids = set labels" by simp
  moreover have "(\<lambda>k. map_option canon (named (content s2) p k)) = stored props"
    by (auto simp: nm stored_def fun_eq_iff split: option.splits)
  ultimately show ?thesis
    using a b l2 interns_trans [OF q1 b(2)] by (simp add: ok_node_def known_node_def known_keys_def)
qed

lemma CreateNode_ok:
  assumes "runs (CreateNode T labels props) s i s'" "usable s" "consistent (content s)"
    "counter (content s) kindNode \<noteq> - 1" "wf_args props"
  shows "usable s' \<and> consistent (content s') \<and> nodes (content s) i = None \<and>
    graph_of (content s') = a_CreateNode (graph_of (content s)) i labels props \<and>
    counter (content s') kindNode = counter (content s) kindNode + 1 \<and> counter (content s') kindEdge = counter (content s) kindEdge"
proof -
  from assms(1) obtain ids s1 p s2 s3 s4 where r: "runs (intern_labels T labels []) s ids s1" "runs (internProps T props) s1 p s2"
    "runs (NextNodeID T) s2 i s3" "runs (putNodeRecord T i \<lparr>Labels = ids, Props = p\<rparr>) s3 () s4"
    "runs (putNodeIndexes T i \<lparr>Labels = ids, Props = p\<rparr>) s4 () s'"
    by (auto simp: CreateNode_def runs_simps Let_def)
  let ?r = "\<lparr>Labels = ids, Props = p\<rparr>"
  note c = consistentD [OF assms(3)]
  have a: "usable s2" "interns (content s) (content s2)" "ok_node ?r" "known_node (content s2) ?r" "label_names (content s2) ids = set labels"
    "(\<lambda>k. map_option canon (named (content s2) p k)) = stored props"
    using CreateNode_intern [OF r(1,2) assms(2) c(3) assms(5)] by simp_all
  have n: "usable s3" "quiet (content s2) (content s3)" and i: "i \<noteq> 0" "i \<le> counter (content s3) kindNode" "counter (content s) kindNode < i"
    and cn: "counter (content s3) kindNode = counter (content s) kindNode + 1" "counter (content s3) kindEdge = counter (content s) kindEdge"
    using next_id_ok [OF r(3) [unfolded NextNodeID_def] a(1) _ internsD(2) [OF a(2)]] assms(4) internsD(4,5) [OF a(2)] by auto
  then have q: "quiet (content s) (content s3)" "quiet (content s2) (content s3)" using quiet_trans [OF internsD(1) [OF a(2)]] by auto
  have c3: "consistent (content s3)" "graph_of (content s3) = graph_of (content s)"
    using quiet_consistent [OF q(1) assms(3)] quiet_abs [OF q(1) c(4)] by auto
  have new: "nodes (content s) i = None"
    using c(4) i(3) unfolding records_ok_def by (meson leD not_None_eq)
  then have new3: "nodes (content s3) i = None" by (simp add: quiet_records [OF q(1)])
  have p: "usable s4" "only_in {0x6E} (content s3) (content s4)" "rows_ok (content s4)"
    "nodes (content s4) = (nodes (content s3))(i \<mapsto> canon_node ?r)"
    using putNodeRecord_ok [OF r(4) n(1) a(3)] consistentD(1) [OF c3(1)] by auto
  have "label_tables (content s4) (node_labels (content s3)) (node_entries (content s3))"
    by (rule label_tables_frame [OF consistentD(2) [OF c3(1)] p(2)]) (use p(3) in auto)
  note x = put_labels_ok [OF r(5) [unfolded putNodeIndexes_def] p(1) this]
  have o: "only_in {0x6C, 0x70, 0x75, 0x6E} (content s3) (content s')"
    using only_in_chain [OF p(2)] x by (fastforce simp: insert_commute)
  have k: "known_node (content s3) ?r" "abs_node (content s3) (canon_node ?r) = \<lparr>ALabels = set labels, AProps = stored props\<rparr>"
    using dict_le_known(1) [of "content s2" "content s3" ?r] q(2) a quiet_abs_node [OF q(2), of "canon_node ?r"]
    by (simp_all add: quiet_def abs_canon_node)
  have "nodes (content s') = (nodes (content s3))(i \<mapsto> canon_node ?r)"
    using frame_records(1) [of "{0x6C, 0x70, 0x75}" "content s4" "content s'"] x p(4) by simp
  moreover have "label_tables (content s') ((node_labels (content s3))(i := labels_of (Some (canon_node ?r))))
      ((node_entries (content s3))(i := entries_of_node (Some (canon_node ?r))))"
    using new_node_tables [of "content s'" "content s3" i ?r] x new3 a(3) by (simp add: ok_node_def)
  ultimately show ?thesis
    using node_step [OF c3(1) o, of i "Some (canon_node ?r)"] i k new c3(2) x frame_records(3) [OF o] cn
    by (simp add: a_CreateNode_def)
qed

end

section \<open>Operations on a node that exists\<close>

definition a_update_node :: "agraph \<Rightarrow> u64 \<Rightarrow> (anode \<Rightarrow> anode) \<Rightarrow> agraph" where
  "a_update_node G n f = G\<lparr>ANodes := (ANodes G)(n := map_option f (ANodes G n))\<rparr>"

definition a_SetProperty :: "agraph \<Rightarrow> u64 \<Rightarrow> bytes \<Rightarrow> val \<Rightarrow> agraph" where
  "a_SetProperty G n key v = a_update_node G n (\<lambda>a. a\<lparr>AProps := (AProps a)(key := (if v = VNull then None else Some (canon v)))\<rparr>)"

definition a_RemoveProperty :: "agraph \<Rightarrow> u64 \<Rightarrow> bytes \<Rightarrow> agraph" where
  "a_RemoveProperty G n key = a_update_node G n (\<lambda>a. a\<lparr>AProps := (AProps a)(key := None)\<rparr>)"

definition a_AddLabels :: "agraph \<Rightarrow> u64 \<Rightarrow> bytes list \<Rightarrow> agraph" where
  "a_AddLabels G n labels = a_update_node G n (\<lambda>a. a\<lparr>ALabels := ALabels a \<union> set labels\<rparr>)"

definition a_RemoveLabels :: "agraph \<Rightarrow> u64 \<Rightarrow> bytes list \<Rightarrow> agraph" where
  "a_RemoveLabels G n labels = a_update_node G n (\<lambda>a. a\<lparr>ALabels := ALabels a - set labels\<rparr>)"

definition a_SetNodeProperties :: "agraph \<Rightarrow> u64 \<Rightarrow> (bytes \<times> val) list \<Rightarrow> bool \<Rightarrow> agraph" where
  "a_SetNodeProperties G n props replace =
     a_update_node G n (\<lambda>a. a\<lparr>AProps := (\<lambda>k. if map_of props k = None then (if replace then None else AProps a k) else stored props k)\<rparr>)"

definition a_DeleteNode :: "agraph \<Rightarrow> u64 \<Rightarrow> agraph" where
  "a_DeleteNode G n = G\<lparr>ANodes := (ANodes G)(n := None)\<rparr>"

text \<open>Stored records are in the form the codec returns.\<close>

lemma node_facts:
  assumes "consistent m" "nodes m n = Some r"
  shows "ok_node r" "canonical (Props r)" "known_node m r" "n \<noteq> 0" "n \<le> counter m kindNode"
    "node_labels m n = set (Labels r)" "node_entries m n = set (Labels r) \<times> prop_entries (Props r)"
proof -
  show "ok_node r" "canonical (Props r)" using nodes_ok [OF consistentD(1) [OF assms(1)] assms(2)] by auto
  have "records_ok m" using consistentD(4) [OF assms(1)] .
  then show "known_node m r" "n \<noteq> 0" "n \<le> counter m kindNode" using assms(2) unfolding records_ok_def by blast+
qed (simp_all add: node_labels_def node_entries_def assms(2))

context txn_store
begin

lemma node_write:
  assumes c: "consistent (content s)" and n: "nodes (content s) n = Some r"
    and o: "only_in {0x6C, 0x70, 0x75} (content s) (content s1)"
    and t: "label_tables (content s1) ((node_labels (content s))(n := labels_of (Some r')))
      ((node_entries (content s))(n := entries_of_node (Some r')))"
    and u: "usable s1" and ok: "ok_node r'" "known_node (content s) r'" and run: "runs (putNodeRecord T n r') s1 u s'"
  shows "usable s' \<and> consistent (content s') \<and> graph_of (content s') = (graph_of (content s))\<lparr>ANodes :=
    (ANodes (graph_of (content s)))(n \<mapsto> \<lparr>ALabels = label_names (content s) (Labels r'),
      AProps = (\<lambda>k. map_option canon (named (content s) (Props r') k))\<rparr>)\<rparr>"
proof -
  have "rows_ok (content s1)" using t by (simp add: label_tables_def entries_ok_def)
  then have p: "usable s'" "only_in {0x6E} (content s1) (content s')" "rows_ok (content s')"
    "nodes (content s') = (nodes (content s1))(n \<mapsto> canon_node r')"
    using putNodeRecord_ok [OF run u ok(1)] by auto
  have o': "only_in {0x6C, 0x70, 0x75, 0x6E} (content s) (content s')"
    using only_in_chain [OF o p(2)] by (simp add: insert_commute)
  have "nodes (content s1) = nodes (content s)" using frame_records(1) [OF o] by simp
  with p(4) have nd: "nodes (content s') = (nodes (content s))(n \<mapsto> canon_node r')" by simp
  have "label_tables (content s') ((node_labels (content s))(n := labels_of (Some r')))
      ((node_entries (content s))(n := entries_of_node (Some r')))"
    by (rule label_tables_frame [OF t p(2)]) (use p(3) in auto)
  then have "label_tables (content s') ((node_labels (content s))(n := labels_of (Some (canon_node r'))))
      ((node_entries (content s))(n := entries_of_node (Some (canon_node r'))))"
    using ok(1) by (simp add: ok_node_def)
  from node_step [OF c o' nd this] node_facts [OF c n] ok p(1) show ?thesis
    by (simp add: abs_canon_node)
qed

lemma del_key_loop:
  assumes "runs (each (\<lambda>l. delPropEntry T l k v n) ls) s u s'" "usable s" "entries_ok (content s) ent"
    and one: "\<And>l v'. l \<in> set ls \<Longrightarrow> (l, k, v') \<in> ent n \<Longrightarrow> IsIndexable v' \<Longrightarrow> v' = v"
  shows "usable s' \<and> only_in {0x70, 0x75} (content s) (content s') \<and>
    entries_ok (content s') (del_entries ent n (set ls \<times> {(k, v)}))"
  using assms(1)
proof (rule each_prefix)
  fix ys l zs t t'
  assume h: "usable t \<and> only_in {0x70, 0x75} (content s) (content t) \<and>
      entries_ok (content t) (del_entries ent n (set ys \<times> {(k, v)}))"
    and r: "runs (delPropEntry T l k v n) t () t'" and ls: "ls = ys @ l # zs"
  have "usable t' \<and> only_in {0x70, 0x75} (content t) (content t') \<and>
      entries_ok (content t') (del_entry (del_entries ent n (set ys \<times> {(k, v)})) n (l, k, v))"
    by (rule delPropEntry_ok [OF r]) (use h one ls in auto)
  moreover have "del_entry (del_entries ent n (set ys \<times> {(k, v)})) n (l, k, v) = del_entries ent n (set (ys @ [l]) \<times> {(k, v)})"
    by (auto simp: fun_eq_iff del_entry_def del_entries_def)
  ultimately show "usable t' \<and> only_in {0x70, 0x75} (content s) (content t') \<and>
      entries_ok (content t') (del_entries ent n (set (ys @ [l]) \<times> {(k, v)}))"
    using h only_in_trans [of "{0x70, 0x75}" "content s" "content t" "content t'"] by simp
qed (use assms in simp)

lemma put_key_loop:
  assumes "runs (each (\<lambda>l. putPropEntry T l k v n) ls) s u s'" "usable s" "entries_ok (content s) ent"
  shows "usable s' \<and> only_in {0x70, 0x75} (content s) (content s') \<and>
    entries_ok (content s') (add_entries ent n (set ls \<times> {(k, v)}))"
  using assms(1)
proof (rule each_prefix)
  fix ys l zs t t'
  assume h: "usable t \<and> only_in {0x70, 0x75} (content s) (content t) \<and>
      entries_ok (content t) (add_entries ent n (set ys \<times> {(k, v)}))"
    and r: "runs (putPropEntry T l k v n) t () t'"
  have "usable t' \<and> only_in {0x70, 0x75} (content t) (content t') \<and>
      entries_ok (content t') (add_entry (add_entries ent n (set ys \<times> {(k, v)})) n (l, k, v))"
    by (rule putPropEntry_ok [OF r]) (use h in auto)
  moreover have "add_entry (add_entries ent n (set ys \<times> {(k, v)})) n (l, k, v) = add_entries ent n (set (ys @ [l]) \<times> {(k, v)})"
    by (auto simp: fun_eq_iff add_entry_def add_entries_def)
  ultimately show "usable t' \<and> only_in {0x70, 0x75} (content s) (content t') \<and>
      entries_ok (content t') (add_entries ent n (set (ys @ [l]) \<times> {(k, v)}))"
    using h only_in_trans [of "{0x70, 0x75}" "content s" "content t" "content t'"] by simp
qed (use assms in simp)

end

lemma label_tables_entries:
  assumes "label_tables m lab ent" "only_in {0x70, 0x75} m m'" "entries_ok m' ent'"
  shows "label_tables m' lab ent'"
  using assms frame_tables(1) [OF assms(2)] by (simp add: label_tables_def)

end
