(* ===== verification/Graph_Nodes.thy ===== *)
theory Graph_Nodes
  imports Graph_Crud
begin

text \<open>
  \<^verbatim>\<open>crud.go\<close>, the mutations of a node that exists: each keeps the invariant and changes the abstract
  graph as its specification says.
\<close>

section \<open>SetProperty and RemoveProperty\<close>

lemma a_update_node_graph:
  "nodes m n = Some r \<Longrightarrow>
     a_update_node (graph_of m) n f = (graph_of m)\<lparr>ANodes := (ANodes (graph_of m))(n \<mapsto> f (abs_node m r))\<rparr>"
  by (simp add: a_update_node_def graph_of_def)

lemma named_canonical: "canonical ps \<Longrightarrow> map_option canon (named m ps k) = named m ps k"
  by (auto simp: named_def dest: map_option_canon split: option.splits intro!: option.map_ident_strong)

lemma intern_consistent:
  assumes "interns m m'" "consistent m"
  shows "consistent m'" "graph_of m' = graph_of m" "nodes m' = nodes m" "edges m' = edges m"
  using quiet_consistent [OF internsD(1) [OF assms(1)] assms(2)] quiet_abs [OF internsD(1) [OF assms(1)] consistentD(4) [OF assms(2)]]
    quiet_records [OF internsD(1) [OF assms(1)]] by auto

context txn_store
begin

lemma lookupDict_content:
  "lookupDict T tag name s = Inr (i, found) \<Longrightarrow> usable s \<Longrightarrow>
     if found then content s (fwdKey tag name) = Some (PutUint32 i) else content s (fwdKey tag name) = None"
  unfolding lookupDict_def
  by (drule (1) bind_lookup) (auto simp: decodeU32_def Put_Uint bindR_Inr_iff split: option.splits if_splits)

text \<open>The record of a node is replaced by \<open>r'\<close> once its index rows are those of \<open>r'\<close>.\<close>

lemma node_rewrite:
  assumes c: "consistent (content s)" and n: "nodes (content s) n = Some r"
    and run: "runs (putNodeRecord T n r') s1 u s'" and u: "usable s1" and o: "only_in {0x6C, 0x70, 0x75} (content s) (content s1)"
    and t: "label_tables (content s1) ((node_labels (content s))(n := set (Labels r'))) ((node_entries (content s))(n := E))"
    and E: "\<And>l k v. IsIndexable v \<Longrightarrow> (l, k, v) \<in> E \<longleftrightarrow> l \<in> set (Labels r') \<and> map_of (Props r') k = Some v"
    and ok: "ok_node r'" "known_node (content s) r'"
    and f: "label_names (content s) (Labels r') = ALabels (f (abs_node (content s) r))"
      "\<And>k. map_option canon (named (content s) (Props r') k) = AProps (f (abs_node (content s) r)) k"
  shows "usable s' \<and> consistent (content s') \<and> graph_of (content s') = a_update_node (graph_of (content s)) n f"
proof -
  have "label_tables (content s1) ((node_labels (content s))(n := labels_of (Some r'))) ((node_entries (content s))(n := entries_of_node (Some r')))"
    by (rule label_tables_cong [OF t]) (use E in \<open>auto simp: labels_of_def entries_of_node_iff\<close>)
  note w = node_write [OF c n o this u ok run]
  have "\<lparr>ALabels = label_names (content s) (Labels r'), AProps = (\<lambda>k. map_option canon (named (content s) (Props r') k))\<rparr> = f (abs_node (content s) r)"
    using f by auto
  with w show ?thesis unfolding a_update_node_graph [OF n] by simp
qed

lemma set_prop_loop:
  assumes "runs (each (\<lambda>l. seqA (case old of Some w \<Rightarrow> delPropEntry T l k w n | None \<Rightarrow> ret ()) (putPropEntry T l k v n)) ls) s u s'"
    "usable s" "entries_ok (content s) ent" "distinct ls"
    and one: "\<And>l v'. l \<in> set ls \<Longrightarrow> (l, k, v') \<in> ent n \<Longrightarrow> IsIndexable v' \<Longrightarrow> old = Some v'"
  shows "usable s' \<and> only_in {0x70, 0x75} (content s) (content s') \<and>
    entries_ok (content s') (ent(n := (ent n - set ls \<times> {k} \<times> set_option old) \<union> set ls \<times> {(k, v)}))"
  using assms(1)
proof (rule each_prefix)
  fix ys l zs t t'
  let ?e = "\<lambda>ys. ent(n := (ent n - set ys \<times> {k} \<times> set_option old) \<union> set ys \<times> {(k, v)})"
  assume h: "usable t \<and> only_in {0x70, 0x75} (content s) (content t) \<and> entries_ok (content t) (?e ys)"
    and r: "runs (seqA (case old of Some w \<Rightarrow> delPropEntry T l k w n | None \<Rightarrow> ret ()) (putPropEntry T l k v n)) t () t'"
    and ls: "ls = ys @ l # zs"
  from r obtain t1 where d: "runs (case old of Some w \<Rightarrow> delPropEntry T l k w n | None \<Rightarrow> ret ()) t () t1"
    and p: "runs (putPropEntry T l k v n) t1 () t'" by (auto simp: runs_seqA)
  have l: "l \<notin> set ys" using assms(4) ls by simp
  have d1: "usable t1 \<and> only_in {0x70, 0x75} (content t) (content t1) \<and>
      entries_ok (content t1) (del_entries (?e ys) n ({l} \<times> {k} \<times> set_option old))"
  proof (cases old)
    case None
    with d h show ?thesis by simp
  next
    case (Some w)
    have "usable t1 \<and> only_in {0x70, 0x75} (content t) (content t1) \<and> entries_ok (content t1) (del_entry (?e ys) n (l, k, w))"
    proof (rule delPropEntry_ok)
      fix v'
      assume "(l, k, v') \<in> ?e ys n" "IsIndexable v'"
      then show "v' = w" using one [of l v'] l ls Some by simp
    qed (use d h Some in auto)
    moreover have "del_entry (?e ys) n (l, k, w) = del_entries (?e ys) n ({l} \<times> {k} \<times> set_option old)"
      by (simp add: Some del_entry_def del_entries_def)
    ultimately show ?thesis by simp
  qed
  then have "usable t' \<and> only_in {0x70, 0x75} (content t1) (content t') \<and>
      entries_ok (content t') (add_entry (del_entries (?e ys) n ({l} \<times> {k} \<times> set_option old)) n (l, k, v))"
    using putPropEntry_ok [OF p] by blast
  moreover have "add_entry (del_entries (?e ys) n ({l} \<times> {k} \<times> set_option old)) n (l, k, v) = ?e (ys @ [l])"
    using l by (auto simp: fun_eq_iff add_entry_def del_entries_def)
  ultimately show "usable t' \<and> only_in {0x70, 0x75} (content s) (content t') \<and> entries_ok (content t') (?e (ys @ [l]))"
    using h d1 only_in_trans [of "{0x70, 0x75}" "content s" "content t" "content t1"]
      only_in_trans [of "{0x70, 0x75}" "content s" "content t1" "content t'"] by simp
qed (use assms in simp)

lemma SetProperty_runs:
  assumes "runs (SetProperty T n key value) s u s'" "usable s" "consistent (content s)"
  obtains r k s1 s2 where "nodes (content s) n = Some r" "interns (content s) (content s1)"
    "content s1 (fwdKey tagKeyFwd key) = Some (PutUint32 k)" "usable s2" "only_in {0x70, 0x75} (content s1) (content s2)"
    "entries_ok (content s2) ((node_entries (content s1))
       (n := (node_entries (content s1) n - set (Labels r) \<times> {k} \<times> set_option (map_of (Props r) k)) \<union> set (Labels r) \<times> {(k, normalize value)}))"
    "runs (putNodeRecord T n (r\<lparr>Props := if value = VNull then AList.delete k (Props r) else AList.update k (normalize value) (Props r)\<rparr>)) s2 u s'"
proof -
  from assms(1) obtain nd k s1 s2 where nd: "GetNode T n s = Inr nd" and k: "runs (InternKey T key) s k s1"
    and loop: "runs (each (\<lambda>l. seqA (case map_of (Props (NRec nd)) k of Some w \<Rightarrow> delPropEntry T l k w n | None \<Rightarrow> ret ())
        (putPropEntry T l k (normalize value) n)) (Labels (NRec nd))) s1 () s2"
    and put: "runs (putNodeRecord T n ((NRec nd)\<lparr>Props := if normalize value = VNull then AList.delete k (Props (NRec nd))
        else AList.update k (normalize value) (Props (NRec nd))\<rparr>)) s2 u s'"
    unfolding SetProperty_def Let_def runs_bnd runs_seqA runs_reads by blast
  note i = internDict_interns [OF k [unfolded InternKey_def] assms(2) consistentD(3) [OF assms(3)] dict_names(3)]
  note c = intern_consistent [OF conjunct1 [OF conjunct2 [OF i]] assms(3)]
  have n: "nodes (content s) n = Some (NRec nd)" "nodes (content s1) n = Some (NRec nd)"
    using GetNode_content [OF nd assms(2)] c(3) by simp_all
  note nf = node_facts [OF c(1) n(2)]
  have e: "entries_ok (content s1) (node_entries (content s1))" using consistentD(2) [OF c(1)] by (simp add: label_tables_def)
  have d: "distinct (Labels (NRec nd))" using nf(1) by (simp add: ok_node_def)
  have w: "usable s2 \<and> only_in {0x70, 0x75} (content s1) (content s2) \<and>
    entries_ok (content s2) ((node_entries (content s1))(n := (node_entries (content s1) n -
       set (Labels (NRec nd)) \<times> {k} \<times> set_option (map_of (Props (NRec nd)) k)) \<union> set (Labels (NRec nd)) \<times> {(k, normalize value)}))"
    using set_prop_loop [OF loop _ e d] i nf(7) by (auto simp: prop_entries_def)
  show thesis by (rule that [OF n(1), of s1 k s2]) (use i w put in auto)
qed

lemma SetProperty_ok:
  assumes "runs (SetProperty T n key value) s u s'" "usable s" "consistent (content s)" "wf_val value" "value \<noteq> VNull"
  shows "usable s' \<and> consistent (content s') \<and> graph_of (content s') = a_SetProperty (graph_of (content s)) n key value"
  using assms(1-3)
proof (rule SetProperty_runs)
  fix r :: NodeRecord and k s1 s2
  define r' where "r' = r\<lparr>Props := AList.update k (normalize value) (Props r)\<rparr>"
  let ?E = "(node_entries (content s1) n - set (Labels r) \<times> {k} \<times> set_option (map_of (Props r) k)) \<union> set (Labels r) \<times> {(k, normalize value)}"
  assume h: "nodes (content s) n = Some r" "interns (content s) (content s1)" "content s1 (fwdKey tagKeyFwd key) = Some (PutUint32 k)"
    "usable s2" "only_in {0x70, 0x75} (content s1) (content s2)" "entries_ok (content s2) ((node_entries (content s1))(n := ?E))"
    "runs (putNodeRecord T n (r\<lparr>Props := if value = VNull then AList.delete k (Props r) else AList.update k (normalize value) (Props r)\<rparr>)) s2 u s'"
  note c = intern_consistent [OF h(2) assms(3)]
  have n: "nodes (content s1) n = Some r" using h(1) c(3) by simp
  note nf = node_facts [OF c(1) n] and nm = named_update [OF consistentD(3) [OF c(1)] h(3)]
  have lt: "label_tables (content s2) ((node_labels (content s1))(n := set (Labels r'))) ((node_entries (content s1))(n := ?E))"
    using label_tables_entries [OF consistentD(2) [OF c(1)] h(5,6)] nf(6) by (simp add: r'_def fun_upd_idem)
  show ?thesis unfolding c(2) [symmetric] a_SetProperty_def
  proof (rule node_rewrite [OF c(1) n _ h(4) _ lt])
    show "runs (putNodeRecord T n r') s2 u s'" using h(7) assms(5) by (simp add: r'_def)
    show "only_in {0x6C, 0x70, 0x75} (content s1) (content s2)" using only_in_mono [OF h(5)] by auto
    show "ok_node r'" using nf(1) assms(4,5) by (simp add: r'_def ok_node_def ok_props_update)
    show "known_node (content s1) r'"
      using nf(3) dict_iff [OF consistentD(3) [OF c(1)] dict_names(3)] h(3) by (auto simp: r'_def known_node_def dom_update)
  qed (use assms(5) nf(7) named_canonical [OF nf(2)] in \<open>auto simp: nm r'_def abs_node_def update_conv' prop_entries_def split: if_splits\<close>)
qed

text \<open>
  Setting a property to null. The call removes the property, but first hands null to the index as a value of the
  node, so the tables agree with the record afterwards exactly when no label of the node has an index on the key.
\<close>

lemma entries_ok_unindexed:
  assumes "entries_ok m ent" "\<And>l k v n. IsIndexable v \<Longrightarrow> ((l, k, v) \<in> ent n) \<noteq> ((l, k, v) \<in> ent' n) \<Longrightarrow> m (indexKey l k) = None"
  shows "entries_ok m ent'"
proof -
  have c: "m (constraintKey l k) \<noteq> None \<Longrightarrow> m (indexKey l k) \<noteq> None" for l k using assms(1) unfolding entries_ok_def c_ok_def by blast
  have e: "(l, k, v) \<in> ent' n \<longleftrightarrow> (l, k, v) \<in> ent n" if "m (indexKey l k) \<noteq> None" "IsIndexable v" for l k v n
    using that assms(2) [of v l k n] by argo
  have h: "holds_value ent' l k c n \<longleftrightarrow> holds_value ent l k c n" if "m (constraintKey l k) \<noteq> None" for l k c n
    using e [OF c [OF that]] unfolding holds_value_def by blast
  have "p_ok m ent'" using assms(1) e unfolding entries_ok_def p_ok_def by blast
  moreover have "u_ok m ent'" using assms(1) h unfolding entries_ok_def u_ok_def by blast
  ultimately show ?thesis using assms(1) by (simp add: entries_ok_def)
qed

lemma SetProperty_null:
  assumes "runs (SetProperty T n key VNull) s u s'" "usable s" "consistent (content s)"
  obtains r k where "nodes (content s) n = Some r" "\<And>i. content s (fwdKey tagKeyFwd key) = Some (PutUint32 i) \<Longrightarrow> i = k"
    "\<And>name. content s (revKey kindKey k) = Some name \<Longrightarrow> name = key"
    "\<forall>l \<in> set (Labels r). content s (indexKey l k) = None \<Longrightarrow>
       usable s' \<and> consistent (content s') \<and> graph_of (content s') = a_SetProperty (graph_of (content s)) n key VNull"
    "\<And>l. l \<in> set (Labels r) \<Longrightarrow> content s (indexKey l k) \<noteq> None \<Longrightarrow> \<not> consistent (content s')"
proof (rule SetProperty_runs [OF assms])
  fix r :: NodeRecord and k s1 s2
  define r' where "r' = r\<lparr>Props := AList.delete k (Props r)\<rparr>"
  let ?E = "node_entries (content s1) n - set (Labels r) \<times> {k} \<times> set_option (map_of (Props r) k)"
  assume h: "nodes (content s) n = Some r" "interns (content s) (content s1)" "content s1 (fwdKey tagKeyFwd key) = Some (PutUint32 k)"
    "usable s2" "only_in {0x70, 0x75} (content s1) (content s2)"
    "entries_ok (content s2) ((node_entries (content s1))(n := ?E \<union> set (Labels r) \<times> {(k, normalize VNull)}))"
    "runs (putNodeRecord T n (r\<lparr>Props := if VNull = VNull then AList.delete k (Props r) else AList.update k (normalize VNull) (Props r)\<rparr>)) s2 u s'"
  note c = intern_consistent [OF h(2) assms(3)]
  have n: "nodes (content s1) n = Some r" using h(1) c(3) by simp
  note nf = node_facts [OF c(1) n] and d = consistentD(3) [OF c(1)]
  have o: "only_in {0x4C, 0x54, 0x4B, 0x52, 0x63} (content s) (content s1)" "dict_le (content s) (content s1)"
    using h(2) by (auto simp: interns_def quiet_def)
  have ix: "content s1 (indexKey l k) = content s (indexKey l k)" "content s2 (indexKey l k) = content s (indexKey l k)" for l
    using o(1) h(5) by (auto simp: only_in_def)
  show thesis
  proof (rule that [OF h(1), of k])
    show "i = k" if "content s (fwdKey tagKeyFwd key) = Some (PutUint32 i)" for i
      using that o(2) h(3) dict_names(3) unfolding dict_le_def by fastforce
    show "name = key" if "content s (revKey kindKey k) = Some name" for name
      using that o(2) h(3) dict_iff [OF d dict_names(3), of key k] dict_names(3) unfolding dict_le_def by fastforce
  next
    assume none: "\<forall>l \<in> set (Labels r). content s (indexKey l k) = None"
    have "entries_ok (content s2) ((node_entries (content s1))(n := ?E))"
      by (rule entries_ok_unindexed [OF h(6)]) (use none ix in \<open>auto split: if_splits\<close>)
    then have lt: "label_tables (content s2) ((node_labels (content s1))(n := set (Labels r'))) ((node_entries (content s1))(n := ?E))"
      using label_tables_entries [OF consistentD(2) [OF c(1)] h(5)] nf(6) by (simp add: r'_def fun_upd_idem)
    note nm = named_delete [OF d h(3)]
    show "usable s' \<and> consistent (content s') \<and> graph_of (content s') = a_SetProperty (graph_of (content s)) n key VNull"
      unfolding c(2) [symmetric] a_SetProperty_def
    proof (rule node_rewrite [OF c(1) n _ h(4) _ lt])
      show "runs (putNodeRecord T n r') s2 u s'" using h(7) by (simp add: r'_def)
      show "only_in {0x6C, 0x70, 0x75} (content s1) (content s2)" using only_in_mono [OF h(5)] by auto
      show "ok_node r'" using nf(1) by (simp add: r'_def ok_node_def ok_props_delete)
      show "known_node (content s1) r'" using nf(3) by (auto simp: r'_def known_node_def AList.delete_eq)
    qed (use nf(7) named_canonical [OF nf(2)] in \<open>auto simp: nm r'_def abs_node_def delete_conv' prop_entries_def split: if_splits\<close>)
  next
    fix l
    assume l: "l \<in> set (Labels r)" "content s (indexKey l k) \<noteq> None"
    have p: "IsIndexable v \<Longrightarrow> content s2 (p_key l k v n) \<noteq> None \<longleftrightarrow>
        content s2 (indexKey l k) \<noteq> None \<and> (l, k, v) \<in> ?E \<union> set (Labels r) \<times> {(k, normalize VNull)}" for v
      using h(6) unfolding entries_ok_def p_ok_def by auto
    have "content s2 (p_key l k VNull n) \<noteq> None" using p [of VNull] l ix(2) by (simp add: IsIndexable_def Values.normalize_def)
    then have put: "content s' (p_key l k VNull n) \<noteq> None" using putNodeRecord_ok [OF h(7,4)] nf(1) by (auto simp: ok_node_def ok_props_delete only_in_def)
    show "\<not> consistent (content s')"
    proof
      assume c': "consistent (content s')"
      have "(l, k, VNull) \<in> node_entries (content s') n"
        using consistentD(2) [OF c'] put unfolding label_tables_def entries_ok_def p_ok_def by (simp add: IsIndexable_def)
      then obtain r2 where "nodes (content s') n = Some r2" "map_of (Props r2) k = Some VNull"
        by (auto simp: node_entries_def prop_entries_def split: option.splits)
      then show False using node_facts(1) [OF c'] map_of_SomeD by (fastforce simp: ok_node_def ok_props_def)
    qed
  qed
qed

end

context txn_store
begin

lemma RemoveProperty_ok:
  assumes "runs (RemoveProperty T n key) s u s'" "usable s" "consistent (content s)"
  shows "usable s' \<and> consistent (content s') \<and> graph_of (content s') = a_RemoveProperty (graph_of (content s)) n key"
proof -
  from assms(1) obtain nd k found where nd: "GetNode T n s = Inr nd" and lk: "LookupKey T key s = Inr (k, found)"
    and rest: "runs (if \<not> found then ret () else (case map_of (Props (NRec nd)) k of None \<Rightarrow> ret ()
       | Some old \<Rightarrow> seqA (each (\<lambda>l. delPropEntry T l k old n) (Labels (NRec nd)))
           (putNodeRecord T n ((NRec nd)\<lparr>Props := AList.delete k (Props (NRec nd))\<rparr>)))) s u s'"
    unfolding RemoveProperty_def Let_def by (auto simp: runs_bnd)
  define r where "r = NRec nd"
  have n: "nodes (content s) n = Some r" using GetNode_content [OF nd assms(2)] by (simp add: r_def)
  note nf = node_facts [OF assms(3) n] and d = consistentD(3) [OF assms(3)]
  have f: "if found then content s (fwdKey tagKeyFwd key) = Some (PutUint32 k) else content s (fwdKey tagKeyFwd key) = None"
    using lookupDict_content [OF lk [unfolded LookupKey_def] assms(2)] .
  have a: "a_RemoveProperty (graph_of (content s)) n key =
      (graph_of (content s))\<lparr>ANodes := (ANodes (graph_of (content s)))(n \<mapsto> (abs_node (content s) r)\<lparr>AProps := (named (content s) (Props r))(key := None)\<rparr>)\<rparr>"
    by (simp add: a_RemoveProperty_def a_update_node_graph [OF n] abs_node_def)
  show ?thesis
  proof (cases "found \<and> map_of (Props r) k \<noteq> None")
    case False
    then have "s' = s" using rest by (auto simp: r_def split: option.splits if_splits)
    moreover have "named (content s) (Props r) key = None" using f False by (auto simp: named_def split: option.splits if_splits)
    then have "(named (content s) (Props r))(key := None) = named (content s) (Props r)" by auto
    then have "a_RemoveProperty (graph_of (content s)) n key = graph_of (content s)"
      unfolding a by (auto simp: graph_of_def n abs_node_def fun_eq_iff)
    ultimately show ?thesis using assms(2,3) by simp
  next
    case True
    then obtain old where old: "map_of (Props r) k = Some old" by auto
    define r' where "r' = r\<lparr>Props := AList.delete k (Props r)\<rparr>"
    from True old rest obtain s1 where loop: "runs (each (\<lambda>l. delPropEntry T l k old n) (Labels r)) s () s1"
      and put: "runs (putNodeRecord T n r') s1 u s'" by (auto simp: r_def r'_def runs_simps)
    have e: "entries_ok (content s) (node_entries (content s))" using consistentD(2) [OF assms(3)] by (simp add: label_tables_def)
    have w: "usable s1" "only_in {0x70, 0x75} (content s) (content s1)"
      "entries_ok (content s1) (del_entries (node_entries (content s)) n (set (Labels r) \<times> {(k, old)}))"
      using del_key_loop [OF loop assms(2) e] nf(7) old by (auto simp: prop_entries_def)
    have lt: "label_tables (content s1) ((node_labels (content s))(n := set (Labels r')))
        ((node_entries (content s))(n := node_entries (content s) n - set (Labels r) \<times> {(k, old)}))"
      using label_tables_entries [OF consistentD(2) [OF assms(3)] w(2,3)] nf(6) by (simp add: r'_def fun_upd_idem del_entries_def)
    have nm: "named (content s) (AList.delete k (Props r)) = (named (content s) (Props r))(key := None)"
      using named_delete [OF d] f True by simp
    show ?thesis unfolding a_RemoveProperty_def
    proof (rule node_rewrite [OF assms(3) n put w(1) _ lt])
      show "only_in {0x6C, 0x70, 0x75} (content s) (content s1)" using only_in_mono [OF w(2)] by auto
      show "ok_node r'" using nf(1) by (simp add: r'_def ok_node_def ok_props_delete)
      show "known_node (content s) r'" using nf(3) by (auto simp: r'_def known_node_def AList.delete_eq)
    qed (use old nf(7) named_canonical [OF nf(2)] in \<open>auto simp: nm r'_def abs_node_def delete_conv' prop_entries_def split: if_splits\<close>)
  qed
qed

end

section \<open>AddLabels and RemoveLabels\<close>

lemma each_filter: "each (\<lambda>x. if P x then f x else ret () :: ('s, unit) act) xs = each f (filter P xs)"
proof (induction xs)
  case (Cons x xs)
  have "seqA (ret ()) m = m" for m :: "('s, unit) act" by (simp add: fun_eq_iff seqA_def bnd_def ret_def)
  with Cons show ?case by simp
qed simp

context txn_store
begin

lemma AddLabels_ok:
  assumes "runs (AddLabels T n labels) s u s'" "usable s" "consistent (content s)"
  shows "usable s' \<and> consistent (content s') \<and> graph_of (content s') = a_AddLabels (graph_of (content s)) n labels"
proof (cases "labels = []")
  case True
  then show ?thesis using assms by (simp add: AddLabels_def a_AddLabels_def a_update_node_def option.map_ident)
next
  case False
  with assms(1) obtain nd added s1 where nd: "GetNode T n s = Inr nd" and i: "runs (add_labels T labels (Labels (NRec nd)) []) s added s1"
    and rest: "runs (if length added = 0 then ret () else
       seqA (each (\<lambda>i. seqA (TSet T (LabelKey i n) []) (each (\<lambda>(k, v). putPropEntry T i k v n) (Props (NRec nd)))) added)
         (putNodeRecord T n ((NRec nd)\<lparr>Labels := Labels (NRec nd) @ added\<rparr>))) s1 u s'"
    unfolding AddLabels_def Let_def by (auto simp: runs_bnd)
  define r where "r = NRec nd"
  define r' where "r' = r\<lparr>Labels := Labels r @ added\<rparr>"
  have a: "usable s1" "interns (content s) (content s1)" "distinct added"
    "\<forall>l. l \<in> set added \<longleftrightarrow> l \<notin> set (Labels r) \<and> (\<exists>name \<in> set labels. content s1 (fwdKey tagLabelFwd name) = Some (PutUint32 l))"
    "\<forall>name \<in> set labels. content s1 (fwdKey tagLabelFwd name) \<noteq> None"
    using add_labels_ok [OF i assms(2) consistentD(3) [OF assms(3)]] by (simp_all add: r_def)
  note c = intern_consistent [OF a(2) assms(3)]
  have n: "nodes (content s1) n = Some r" using GetNode_content [OF nd assms(2)] c(3) by (simp add: r_def)
  note nf = node_facts [OF c(1) n] and d = consistentD(3) [OF c(1)]
  have ln: "label_names (content s1) (Labels r @ added) = label_names (content s1) (Labels r) \<union> set labels"
    by (rule label_names_intern [OF d]) (use a(4,5) in auto)
  show ?thesis
  proof (cases "added = []")
    case True
    then have "label_names (content s1) (Labels r) \<union> set labels = label_names (content s1) (Labels r)" using ln by simp
    then have "a_AddLabels (graph_of (content s1)) n labels = graph_of (content s1)"
      unfolding a_AddLabels_def a_update_node_graph [OF n] by (auto simp: graph_of_def n abs_node_def fun_eq_iff)
    then show ?thesis using True rest a(1) c by simp
  next
    case False
    then obtain s2 where loop: "runs (each (\<lambda>i. seqA (TSet T (LabelKey i n) []) (each (\<lambda>(k, v). putPropEntry T i k v n) (Props r))) added) s1 () s2"
      and put: "runs (putNodeRecord T n r') s2 u s'" using rest by (auto simp: runs_seqA r_def r'_def)
    note w = put_labels_ok [OF loop a(1) consistentD(2) [OF c(1)]]
    have lt: "label_tables (content s2) ((node_labels (content s1))(n := set (Labels r')))
        ((node_entries (content s1))(n := node_entries (content s1) n \<union> set added \<times> set (Props r)))"
      using w nf(6) by (simp add: r'_def add_entries_def)
    show ?thesis unfolding c(2) [symmetric] a_AddLabels_def
    proof (rule node_rewrite [OF c(1) n put _ _ lt])
      show "usable s2" "only_in {0x6C, 0x70, 0x75} (content s1) (content s2)" using w by auto
      show "ok_node r'" using nf(1) a(3,4) by (auto simp: r'_def ok_node_def)
      show "known_node (content s1) r'" using nf(3) a(4) dict_iff [OF d dict_names(1)] by (auto simp: r'_def known_node_def)
    qed (use nf(1,7) named_canonical [OF nf(2)] ln in \<open>auto simp: r'_def abs_node_def prop_entries_def ok_node_def ok_props_def\<close>)
  qed
qed

lemma lookup_labels_content:
  assumes "lookup_labels T names s = Inr ids" "usable s" "dicts_ok (content s)"
  shows "l \<in> set ids \<longleftrightarrow> (\<exists>name \<in> set names. content s (fwdKey tagLabelFwd name) = Some (PutUint32 l))"
  using assms(1)
proof (induction names arbitrary: ids)
  case (Cons name names)
  then obtain i found ids' where i: "LookupLabel T name s = Inr (i, found)" and ids': "lookup_labels T names s = Inr ids'"
    and ids: "ids = (if found then i # ids' else ids')" by (auto simp: bindR_Inr_iff)
  show ?case
    using Cons.IH [OF ids'] ids lookupDict_content [OF i [unfolded LookupLabel_def] assms(2)] by (auto split: if_splits)
qed simp

lemma RemoveLabels_ok:
  assumes "runs (RemoveLabels T n labels) s u s'" "usable s" "consistent (content s)"
  shows "usable s' \<and> consistent (content s') \<and> graph_of (content s') = a_RemoveLabels (graph_of (content s)) n labels"
proof (cases "labels = []")
  case True
  then show ?thesis using assms by (simp add: RemoveLabels_def a_RemoveLabels_def a_update_node_def option.map_ident)
next
  case False
  with assms(1) obtain nd R where nd: "GetNode T n s = Inr nd" and l: "lookup_labels T labels s = Inr R"
    and rest: "runs (if length R = 0 then ret () else
       seqA (each (\<lambda>i. if i \<in> set R then
                   seqA (TDelete T (LabelKey i n)) (each (\<lambda>(k, v). delPropEntry T i k v n) (Props (NRec nd))) else ret ()) (Labels (NRec nd)))
         (putNodeRecord T n ((NRec nd)\<lparr>Labels := filter (\<lambda>i. i \<notin> set R) (Labels (NRec nd))\<rparr>))) s u s'"
    unfolding RemoveLabels_def Let_def by (auto simp: runs_bnd)
  define r where "r = NRec nd"
  define r' where "r' = r\<lparr>Labels := filter (\<lambda>i. i \<notin> set R) (Labels r)\<rparr>"
  have n: "nodes (content s) n = Some r" using GetNode_content [OF nd assms(2)] by (simp add: r_def)
  note nf = node_facts [OF assms(3) n] and d = consistentD(3) [OF assms(3)]
  note R = lookup_labels_content [OF l assms(2) d]
  have ln: "label_names (content s) (filter (\<lambda>i. i \<notin> set R) (Labels r)) = label_names (content s) (Labels r) - set labels"
    using dict_iff [OF d dict_names(1)] by (auto simp: label_names_def R)
  show ?thesis
  proof (cases "R = []")
    case True
    then have "label_names (content s) (Labels r) - set labels = label_names (content s) (Labels r)" using ln by simp
    then have "a_RemoveLabels (graph_of (content s)) n labels = graph_of (content s)"
      unfolding a_RemoveLabels_def a_update_node_graph [OF n] by (auto simp: graph_of_def n abs_node_def fun_eq_iff)
    then show ?thesis using True rest assms by simp
  next
    case False
    let ?L = "filter (\<lambda>i. i \<in> set R) (Labels r)"
    from False rest obtain s2 where loop: "runs (each (\<lambda>i. seqA (TDelete T (LabelKey i n)) (each (\<lambda>(k, v). delPropEntry T i k v n) (Props r))) ?L) s () s2"
      and put: "runs (putNodeRecord T n r') s2 u s'" by (auto simp: runs_seqA r_def r'_def each_filter)
    have w: "usable s2 \<and> only_in {0x6C, 0x70, 0x75} (content s) (content s2) \<and>
        label_tables (content s2) (del_entries (node_labels (content s)) n (set ?L)) (del_entries (node_entries (content s)) n (set ?L \<times> set (Props r)))"
      by (rule del_labels_ok [OF loop assms(2) consistentD(2) [OF assms(3)]])
        (use nf(1,7) in \<open>auto simp: prop_entries_def ok_node_def ok_props_def\<close>)
    have "set (Labels r') = set (Labels r) - set ?L" by (auto simp: r'_def)
    then have lt: "label_tables (content s2) ((node_labels (content s))(n := set (Labels r')))
        ((node_entries (content s))(n := node_entries (content s) n - set ?L \<times> set (Props r)))"
      using w nf(6) by (simp add: del_entries_def)
    show ?thesis unfolding a_RemoveLabels_def
    proof (rule node_rewrite [OF assms(3) n put _ _ lt])
      show "usable s2" "only_in {0x6C, 0x70, 0x75} (content s) (content s2)" using w by auto
      show "ok_node r'" using nf(1) by (auto simp: r'_def ok_node_def)
      show "known_node (content s) r'" using nf(3) by (auto simp: r'_def known_node_def)
    qed (use nf(1,7) named_canonical [OF nf(2)] ln in \<open>auto simp: r'_def abs_node_def prop_entries_def ok_node_def ok_props_def\<close>)
  qed
qed

end

section \<open>SetNodeProperties\<close>

text \<open>The properties \<open>base\<close> overridden by \<open>des\<close>, where null removes.\<close>

definition override :: "(u32 \<rightharpoonup> val) \<Rightarrow> (u32 \<rightharpoonup> val) \<Rightarrow> u32 \<rightharpoonup> val" where
  "override base des k = (case des k of None \<Rightarrow> base k | Some v \<Rightarrow> if v = VNull then None else Some v)"

lemma sameValue_eq: "sameValue a b \<Longrightarrow> normalize a = a \<Longrightarrow> normalize b = b \<Longrightarrow> a = b"
  unfolding sameValue_def by (auto split: val.split_asm)

context txn_store
begin

lemma put_props_loop:
  assumes "runs (each (\<lambda>(k, v). each (\<lambda>l. putPropEntry T l k v n) ls) ps) s u s'" "usable s" "entries_ok (content s) ent"
  shows "usable s' \<and> only_in {0x70, 0x75} (content s) (content s') \<and>
    entries_ok (content s') (add_entries ent n (set ls \<times> set ps))"
  using assms(1)
proof (rule each_prefix)
  fix ys x zs t t'
  assume h: "usable t \<and> only_in {0x70, 0x75} (content s) (content t) \<and>
      entries_ok (content t) (add_entries ent n (set ls \<times> set ys))"
    and r: "runs (case x of (k, v) \<Rightarrow> each (\<lambda>l. putPropEntry T l k v n) ls) t () t'"
  obtain k v where x: "x = (k, v)" by force
  have "usable t' \<and> only_in {0x70, 0x75} (content t) (content t') \<and>
      entries_ok (content t') (add_entries (add_entries ent n (set ls \<times> set ys)) n (set ls \<times> {(k, v)}))"
    by (rule put_key_loop) (use r h x in auto)
  moreover have "add_entries (add_entries ent n (set ls \<times> set ys)) n (set ls \<times> {(k, v)}) = add_entries ent n (set ls \<times> set (ys @ [x]))"
    by (auto simp: fun_eq_iff add_entries_def x)
  ultimately show "usable t' \<and> only_in {0x70, 0x75} (content s) (content t') \<and>
      entries_ok (content t') (add_entries ent n (set ls \<times> set (ys @ [x])))"
    using h only_in_trans [of "{0x70, 0x75}" "content s" "content t" "content t'"] by simp
qed (use assms in simp)

lemma del_old_props:
  assumes "runs (each (\<lambda>(k, old). if keep k old then ret () else each (\<lambda>l. delPropEntry T l k old n) ls) ps) s u s'"
    "usable s" "entries_ok (content s) ent"
    and one: "\<And>l k v v'. l \<in> set ls \<Longrightarrow> (k, v) \<in> set ps \<Longrightarrow> (l, k, v') \<in> ent n \<Longrightarrow> IsIndexable v' \<Longrightarrow> v' = v"
  shows "usable s' \<and> only_in {0x70, 0x75} (content s) (content s') \<and>
    entries_ok (content s') (del_entries ent n (set ls \<times> {(k, old) \<in> set ps. \<not> keep k old}))"
  using assms(1)
proof (rule each_prefix)
  fix ys x zs t t'
  let ?e = "\<lambda>ys. del_entries ent n (set ls \<times> {(k, old) \<in> set ys. \<not> keep k old})"
  assume h: "usable t \<and> only_in {0x70, 0x75} (content s) (content t) \<and> entries_ok (content t) (?e ys)"
    and r: "runs (case x of (k, old) \<Rightarrow> if keep k old then ret () else each (\<lambda>l. delPropEntry T l k old n) ls) t () t'"
    and ps: "ps = ys @ x # zs"
  obtain k old where x: "x = (k, old)" by force
  show "usable t' \<and> only_in {0x70, 0x75} (content s) (content t') \<and> entries_ok (content t') (?e (ys @ [x]))"
  proof (cases "keep k old")
    case True
    then have "{(k, old) \<in> set (ys @ [x]). \<not> keep k old} = {(k, old) \<in> set ys. \<not> keep k old}" by (auto simp: x)
    with True h r x show ?thesis by simp
  next
    case False
    have "usable t' \<and> only_in {0x70, 0x75} (content t) (content t') \<and> entries_ok (content t') (del_entries (?e ys) n (set ls \<times> {(k, old)}))"
      by (rule del_key_loop) (use r h False x one ps in auto)
    moreover have "del_entries (?e ys) n (set ls \<times> {(k, old)}) = ?e (ys @ [x])"
      using False by (auto simp: fun_eq_iff del_entries_def x)
    ultimately show ?thesis using h only_in_trans [of "{0x70, 0x75}" "content s" "content t" "content t'"] by simp
  qed
qed (use assms in simp)

lemma merge_props_ok:
  assumes "runs (merge_props T n ls ds props) s props' s'" "usable s" "entries_ok (content s) ent" "distinct (map fst ds)"
    and "ok_props props" "pre_props ds"
    and one: "\<And>l k v'. l \<in> set ls \<Longrightarrow> k \<in> fst ` set ds \<Longrightarrow> (l, k, v') \<in> ent n \<Longrightarrow> IsIndexable v' \<Longrightarrow> map_of props k = Some v'"
  shows "usable s' \<and> only_in {0x70, 0x75} (content s) (content s') \<and>
    entries_ok (content s') (del_entries ent n (set ls \<times>
      {(k, old). map_of props k = Some old \<and> (\<exists>v. map_of ds k = Some v \<and> \<not> sameValue old v)})) \<and>
    ok_props props' \<and> map_of props' = override (map_of props) (map_of ds)"
  using assms
proof (induction ds arbitrary: props s ent)
  case Nil
  then show ?case by (auto simp: override_def del_entries_def)
next
  case (Cons d ds)
  obtain k v where d: "d = (k, v)" by force
  let ?p = "if v = VNull then AList.delete k props else AList.update k v props"
  let ?D = "{old. map_of props k = Some old \<and> \<not> sameValue old v}"
  from Cons.prems(1) d obtain t where x: "runs (case map_of props k of Some old \<Rightarrow> if sameValue old v then ret ()
      else each (\<lambda>l. delPropEntry T l k old n) ls | None \<Rightarrow> ret ()) s () t"
    and r: "runs (merge_props T n ls ds ?p) t props' s'" by (auto simp: runs_seqA)
  have t: "usable t \<and> only_in {0x70, 0x75} (content s) (content t) \<and> entries_ok (content t) (del_entries ent n (set ls \<times> {k} \<times> ?D))"
  proof (cases "\<exists>old. map_of props k = Some old \<and> \<not> sameValue old v")
    case False
    then have D: "set ls \<times> {k} \<times> ?D = {}" and "t = s" using x by (auto split: option.splits if_splits)
    then show ?thesis unfolding D using Cons.prems(2,3) by simp
  next
    case True
    then obtain old where old: "map_of props k = Some old" "\<not> sameValue old v" by blast
    have "usable t \<and> only_in {0x70, 0x75} (content s) (content t) \<and> entries_ok (content t) (del_entries ent n (set ls \<times> {(k, old)}))"
      by (rule del_key_loop) (use x old Cons.prems(2,3) Cons.prems(7) [of _ k] d in auto)
    moreover have "set ls \<times> {k} \<times> ?D = set ls \<times> {(k, old)}" using old by auto
    ultimately show ?thesis by presburger
  qed
  have ds: "k \<notin> fst ` set ds" "distinct (map fst ds)" using Cons.prems(4) d by auto
  have v: "wf_val v" "normalize v = v" "pre_props ds" using Cons.prems(6) d by (auto simp: pre_props_def)
  have p: "ok_props ?p" using Cons.prems(5) v ok_props_update ok_props_delete by simp
  have m: "map_of ?p k' = (if k' = k then (if v = VNull then None else Some v) else map_of props k')" for k'
    by (simp add: update_conv' delete_conv')
  have "usable s' \<and> only_in {0x70, 0x75} (content t) (content s') \<and>
    entries_ok (content s') (del_entries (del_entries ent n (set ls \<times> {k} \<times> ?D)) n (set ls \<times>
      {(k, old). map_of ?p k = Some old \<and> (\<exists>v. map_of ds k = Some v \<and> \<not> sameValue old v)})) \<and>
    ok_props props' \<and> map_of props' = override (map_of ?p) (map_of ds)"
  proof (rule Cons.IH [OF r _ _ ds(2) p v(3)])
    fix l k' v'
    assume "l \<in> set ls" "k' \<in> fst ` set ds" "(l, k', v') \<in> del_entries ent n (set ls \<times> {k} \<times> ?D) n" "IsIndexable v'"
    with Cons.prems(7) [of l k' v'] d ds(1) show "map_of ?p k' = Some v'" unfolding m by auto
  qed (use t in auto)
  note h = this
  have mk: "map_of ds k = None" using ds(1) by (simp add: map_of_eq_None_iff)
  have "del_entries (del_entries ent n (set ls \<times> {k} \<times> ?D)) n (set ls \<times>
      {(k, old). map_of ?p k = Some old \<and> (\<exists>v. map_of ds k = Some v \<and> \<not> sameValue old v)}) =
    del_entries ent n (set ls \<times> {(k, old). map_of props k = Some old \<and> (\<exists>v. map_of (d # ds) k = Some v \<and> \<not> sameValue old v)})"
    unfolding m del_entries_entries using mk by (intro arg_cong [of _ _ "del_entries ent n"]) (auto simp: d split: if_splits)
  moreover have "override (map_of ?p) (map_of ds) = override (map_of props) (map_of (d # ds))"
    unfolding override_def fun_eq_iff m using mk by (auto simp: d split: option.splits)
  ultimately show ?case
    using h t only_in_trans [of "{0x70, 0x75}" "content s" "content t" "content s'"] by (simp del: map_of.simps)
qed

end

definition keep_prop :: "props \<Rightarrow> u32 \<Rightarrow> val \<Rightarrow> bool" where
  "keep_prop des k old \<longleftrightarrow> (\<exists>nv. map_of des k = Some nv \<and> sameValue nv old)"

lemma keep_prop_case:
  "(case map_of des k of Some nv \<Rightarrow> if sameValue nv old then x else y | None \<Rightarrow> y) = (if keep_prop des k old then x else y)"
  by (auto simp: keep_prop_def split: option.splits)

lemma named_override:
  assumes "map_of new = override (map_of base) (map_of des)"
  shows "named m new k = (case named m des k of None \<Rightarrow> named m base k | Some v \<Rightarrow> if v = VNull then None else Some v)"
  by (auto simp: named_def assms override_def split: option.splits)

lemma known_keys_override:
  assumes "map_of new = override (map_of base) (map_of des)" "known_keys m base" "known_keys m des"
  shows "known_keys m new"
proof -
  have "k \<in> fst ` set base \<or> k \<in> fst ` set des" if "k \<in> fst ` set new" for k
  proof (rule ccontr)
    assume "\<not> ?thesis"
    then have "map_of base k = None" "map_of des k = None" by (simp_all add: map_of_eq_None_iff)
    then have "map_of new k = None" by (simp add: assms(1) override_def)
    with that show False by (simp add: map_of_eq_None_iff)
  qed
  then show ?thesis using assms(2,3) unfolding known_keys_def Ball_def by metis
qed

context txn_store
begin

lemma set_props_finish:
  assumes c: "consistent (content s)" and n: "nodes (content s) n = Some r"
    and o: "only_in {0x70, 0x75} (content s) (content s1)" and u: "usable s1"
    and e: "entries_ok (content s1) (del_entries (node_entries (content s)) n (set (Labels r) \<times> D))"
    and keep: "\<And>k v. map_of (Props r) k = Some v \<Longrightarrow> IsIndexable v \<Longrightarrow> (k, v) \<notin> D \<Longrightarrow> map_of new k = Some v"
    and new: "ok_props new" "known_keys (content s) new"
    and put: "runs (each (\<lambda>(k, v). each (\<lambda>l. putPropEntry T l k v n) (Labels r)) new) s1 () s2"
      "runs (putNodeRecord T n (r\<lparr>Props := new\<rparr>)) s2 u s'"
    and f: "ALabels (f (abs_node (content s) r)) = ALabels (abs_node (content s) r)"
      "\<And>k. map_option canon (named (content s) new k) = AProps (f (abs_node (content s) r)) k"
  shows "usable s' \<and> consistent (content s') \<and> graph_of (content s') = a_update_node (graph_of (content s)) n f"
proof -
  let ?E = "(node_entries (content s) n - set (Labels r) \<times> D) \<union> set (Labels r) \<times> set new"
  note nf = node_facts [OF c n]
  note p = put_props_loop [OF put(1) u e]
  have o2: "only_in {0x70, 0x75} (content s) (content s2)" using only_in_trans [OF o] p by blast
  have "add_entries (del_entries (node_entries (content s)) n (set (Labels r) \<times> D)) n (set (Labels r) \<times> set new) = (node_entries (content s))(n := ?E)"
    by (simp add: add_entries_def del_entries_def)
  then have lt: "label_tables (content s2) ((node_labels (content s))(n := set (Labels (r\<lparr>Props := new\<rparr>)))) ((node_entries (content s))(n := ?E))"
    using label_tables_entries [OF consistentD(2) [OF c] o2] p nf(6) by (simp add: fun_upd_idem)
  show ?thesis
  proof (rule node_rewrite [OF c n put(2) _ _ lt])
    show "only_in {0x6C, 0x70, 0x75} (content s) (content s2)" using only_in_mono [OF o2] by auto
    show "ok_node (r\<lparr>Props := new\<rparr>)" using nf(1) new(1) by (simp add: ok_node_def)
    show "known_node (content s) (r\<lparr>Props := new\<rparr>)" using nf(3) new(2) by (simp add: known_node_def known_keys_def)
    fix l k v
    assume "IsIndexable v"
    then show "(l, k, v) \<in> ?E \<longleftrightarrow> l \<in> set (Labels (r\<lparr>Props := new\<rparr>)) \<and> map_of (Props (r\<lparr>Props := new\<rparr>)) k = Some v"
      using nf(7) keep [of k v] new(1) by (auto simp: prop_entries_def ok_props_def)
  qed (use p f in \<open>auto simp: abs_node_def\<close>)
qed

lemma set_props_deletes:
  assumes del: "runs (if replace then seqA (each (\<lambda>(k, old). if keep_prop des k old then ret () else each (\<lambda>l. delPropEntry T l k old n) (Labels r)) (Props r))
      (ret (filter (\<lambda>(k, v). v \<noteq> VNull) des)) else merge_props T n (Labels r) des (Props r)) s new s'"
    and u: "usable s" and c: "consistent (content s)" and n: "nodes (content s) n = Some r" and des: "pre_props des"
  shows "\<exists>D. usable s' \<and> only_in {0x70, 0x75} (content s) (content s') \<and>
      entries_ok (content s') (del_entries (node_entries (content s)) n (set (Labels r) \<times> D)) \<and>
      ok_props new \<and> map_of new = override (map_of (if replace then [] else Props r)) (map_of des) \<and>
      (\<forall>k v. map_of (Props r) k = Some v \<longrightarrow> (k, v) \<notin> D \<longrightarrow>
         (case map_of des k of None \<Rightarrow> \<not> replace | Some nv \<Rightarrow> sameValue v nv \<or> sameValue nv v))"
proof -
  note nf = node_facts [OF c n]
  have e: "entries_ok (content s) (node_entries (content s))" using consistentD(2) [OF c] by (simp add: label_tables_def)
  have p: "ok_props (Props r)" using nf(1) by (simp add: ok_node_def)
  have pd: "distinct (map fst des)" using des by (simp add: pre_props_def)
  show ?thesis
  proof (cases replace)
    case True
    let ?D = "{(k, old) \<in> set (Props r). \<not> keep_prop des k old}"
    from True del have d: "runs (each (\<lambda>(k, old). if keep_prop des k old then ret () else each (\<lambda>l. delPropEntry T l k old n) (Labels r)) (Props r)) s () s'"
      and new: "new = filter (\<lambda>(k, v). v \<noteq> VNull) des" by (auto simp: runs_seqA)
    have q: "usable s' \<and> only_in {0x70, 0x75} (content s) (content s') \<and>
        entries_ok (content s') (del_entries (node_entries (content s)) n (set (Labels r) \<times> ?D))"
      by (rule del_old_props [OF d u e]) (use nf(7) p in \<open>auto simp: prop_entries_def ok_props_def\<close>)
    have m: "map_of new = override (map_of []) (map_of des)"
      using map_of_filter_distinct [OF pd, of "\<lambda>v. v \<noteq> VNull"] by (auto simp: new override_def fun_eq_iff split: option.splits)
    have ok: "ok_props new" using des by (auto simp: new ok_props_pre pre_props_def distinct_map_filter)
    have "case map_of des k of None \<Rightarrow> \<not> replace | Some nv \<Rightarrow> sameValue v nv \<or> sameValue nv v"
      if "map_of (Props r) k = Some v" "(k, v) \<notin> ?D" for k v
      using that map_of_SomeD [OF that(1)] unfolding keep_prop_def by fastforce
    with True q m ok show ?thesis by (intro exI [of _ ?D]) auto
  next
    case False
    with del have d: "runs (merge_props T n (Labels r) des (Props r)) s new s'" by simp
    let ?D = "{(k, old). map_of (Props r) k = Some old \<and> (\<exists>v. map_of des k = Some v \<and> \<not> sameValue old v)}"
    have q: "usable s' \<and> only_in {0x70, 0x75} (content s) (content s') \<and>
        entries_ok (content s') (del_entries (node_entries (content s)) n (set (Labels r) \<times> ?D)) \<and>
        ok_props new \<and> map_of new = override (map_of (Props r)) (map_of des)"
      by (rule merge_props_ok [OF d u e pd p des]) (use nf(7) in \<open>auto simp: prop_entries_def\<close>)
    with False show ?thesis by (intro exI [of _ ?D]) (auto split: option.splits)
  qed
qed

lemma SetNodeProperties_ok:
  assumes "runs (SetNodeProperties T n props replace) s u s'" "usable s" "consistent (content s)" "wf_args props"
  shows "usable s' \<and> consistent (content s') \<and> graph_of (content s') = a_SetNodeProperties (graph_of (content s)) n props replace"
proof -
  from assms(1) obtain nd des s1 new s2 s3 where nd: "GetNode T n s = Inr nd" and i: "runs (intern_desired T props []) s des s1"
    and del: "runs (if replace then seqA (each (\<lambda>(k, old). if keep_prop des k old then ret () else each (\<lambda>l. delPropEntry T l k old n) (Labels (NRec nd))) (Props (NRec nd)))
        (ret (filter (\<lambda>(k, v). v \<noteq> VNull) des)) else merge_props T n (Labels (NRec nd)) des (Props (NRec nd))) s1 new s2"
    and put: "runs (each (\<lambda>(k, v). each (\<lambda>l. putPropEntry T l k v n) (Labels (NRec nd))) new) s2 () s3"
      "runs (putNodeRecord T n ((NRec nd)\<lparr>Props := new\<rparr>)) s3 u s'"
    unfolding SetNodeProperties_def Let_def keep_prop_case by (auto simp: runs_bnd runs_seqA)
  define r where "r = NRec nd"
  have a: "usable s1" "interns (content s) (content s1)" "pre_props des" "known_keys (content s1) des"
    "named (content s1) des = (\<lambda>k. map_option normalize (map_of props k))"
    using intern_desired_ok [OF i assms(2) consistentD(3) [OF assms(3)]] assms(4)
    by (auto simp: wf_args_def pre_props_def known_keys_def)
  note c = intern_consistent [OF a(2) assms(3)]
  have n: "nodes (content s1) n = Some r" using GetNode_content [OF nd assms(2)] c(3) by (simp add: r_def)
  note nf = node_facts [OF c(1) n]
  have p: "ok_props (Props r)" using nf(1) by (simp add: ok_node_def)
  define base where "base = (if replace then [] else Props r)"
  obtain D where D: "usable s2" "only_in {0x70, 0x75} (content s1) (content s2)"
      "entries_ok (content s2) (del_entries (node_entries (content s1)) n (set (Labels r) \<times> D))"
      "ok_props new" "map_of new = override (map_of base) (map_of des)"
      "\<And>k v. map_of (Props r) k = Some v \<Longrightarrow> (k, v) \<notin> D \<Longrightarrow>
         (case map_of des k of None \<Rightarrow> \<not> replace | Some nv \<Rightarrow> sameValue v nv \<or> sameValue nv v)"
    using set_props_deletes [OF del [folded r_def] a(1) c(1) n a(3)] unfolding base_def by blast
  have norm: "map_of des k = Some v \<Longrightarrow> normalize v = v" for k v using a(3) by (auto simp: pre_props_def dest!: map_of_SomeD)
  have kb: "known_keys (content s1) base" using nf(3) by (simp add: base_def known_keys_def known_node_def)
  show ?thesis unfolding c(2) [symmetric] a_SetNodeProperties_def
  proof (rule set_props_finish [OF c(1) n D(2,1,3) _ D(4) known_keys_override [OF D(5) kb a(4)]])
    fix k v
    assume v: "map_of (Props r) k = Some v" "IsIndexable v" "(k, v) \<notin> D"
    then have "v \<noteq> VNull" "normalize v = v" using ok_props_value [OF p v(1)] by auto
    then show "map_of new k = Some v"
      using D(6) [OF v(1,3)] v(1) norm [of k] sameValue_eq [of v] sameValue_eq [of _ v]
      by (auto simp: D(5) override_def base_def split: option.splits)
  next
    fix k
    show "map_option canon (named (content s1) new k) = AProps ((abs_node (content s1) r)\<lparr>AProps :=
      \<lambda>k. if map_of props k = None then if replace then None else AProps (abs_node (content s1) r) k else stored props k\<rparr>) k"
      using named_canonical [OF nf(2)]
      by (auto simp: named_override [OF D(5)] a(5) abs_node_def stored_def base_def split: option.splits)
  qed (use put in \<open>auto simp: r_def\<close>)
qed

end

end
