(* ===== verification/Graph_Edges.thy ===== *)
theory Graph_Edges
  imports Graph_Nodes
begin

text \<open>
  Scans that parse keys, and the mutations of \<^verbatim>\<open>crud.go\<close> that concern edges: \<^verbatim>\<open>DeleteNode\<close>,
  \<^verbatim>\<open>CreateEdge\<close>, \<^verbatim>\<open>DeleteEdge\<close> and \<^verbatim>\<open>DetachDeleteNode\<close>.
\<close>

section \<open>Scans\<close>

lemma parse_keys_iff: "parse_keys f ks = Inr xs \<longleftrightarrow> map f ks = map Inr xs"
proof (induction ks arbitrary: xs)
  case (Cons k ks)
  then show ?case by (cases xs) (auto simp: bindR_Inr_iff)
qed auto

context txn_store
begin

text \<open>What a scan that parses its keys returns: the parsed keys of the table, in key order.\<close>

lemma scan_parse_set:
  assumes "scan_parse T p f s = Inr xs" "usable s"
  shows "set xs = {x. \<exists>k. content s k \<noteq> None \<and> prefix p k \<and> f k = Inr x}"
proof -
  have "Inr ` set xs = f ` fst ` set (TScan T s p)"
    using assms(1) by (metis scan_parse_def parse_keys_iff set_map)
  then have eq: "Inr ` set xs = f ` {k. content s k \<noteq> None \<and> prefix p k}" unfolding scan_keys [OF assms(2)] .
  have "Inr x \<in> f ` {k. content s k \<noteq> None \<and> prefix p k} \<longleftrightarrow> x \<in> set xs" for x
    unfolding eq [symmetric] by auto
  then show ?thesis by (auto simp: image_iff eq_commute [of "Inr _"])
qed

lemma scan_parse_sorted:
  assumes "scan_parse T p f s = Inr xs" "usable s"
    and "\<And>k k' x x'. f k = Inr x \<Longrightarrow> f k' = Inr x' \<Longrightarrow> prefix p k \<Longrightarrow> prefix p k' \<Longrightarrow> k < k' \<Longrightarrow> R x x'"
  shows "sorted_wrt R xs"
proof -
  let ?ks = "map fst (TScan T s p)"
  have f: "map f ?ks = map Inr xs" using assms(1) by (simp add: scan_parse_def parse_keys_iff)
  have p: "\<forall>k \<in> set ?ks. prefix p k" using scan_keys [OF assms(2), of p] by auto
  have len: "length xs = length ?ks" using f by (metis length_map)
  have nth: "f (?ks ! i) = Inr (xs ! i)" if "i < length xs" for i
    using f that len by (metis nth_map)
  show ?thesis
    unfolding sorted_wrt_iff_nth_less
  proof (intro allI impI)
    fix i j
    assume ij: "i < j" "j < length xs"
    then have "?ks ! i < ?ks ! j"
      using scan_sorted [OF assms(2), of p] len unfolding sorted_wrt_iff_nth_less by simp
    moreover have "i < length xs" "?ks ! i \<in> set ?ks" "?ks ! j \<in> set ?ks" using ij len by auto
    ultimately show "R (xs ! i) (xs ! j)"
      using assms(3) [OF nth [of i] nth [of j]] p ij(2) by blast
  qed
qed

end

section \<open>DeleteNode\<close>

lemma key_under_prefix:
  assumes "rows_ok m" "m k \<noteq> None" "prefix (OutPrefixAll n) k"
  shows "\<exists>t d e. k = OutKey n t d e"
proof -
  have "hd k = 0x6F" using prefix_hd [OF assms(3)] by simp
  then obtain s t d e where "k = OutKey s t d e" using assms(1,2) unfolding rows_ok_def wf_key_def by blast
  with assms(3) show ?thesis by simp
qed

lemma key_under_in_prefix:
  assumes "rows_ok m" "m k \<noteq> None" "prefix (InPrefixAll n) k"
  shows "\<exists>t s e. k = InKey n t s e"
proof -
  have "hd k = 0x69" using prefix_hd [OF assms(3)] by simp
  then obtain d t s e where "k = InKey d t s e" using assms(1,2) unfolding rows_ok_def wf_key_def by blast
  with assms(3) show ?thesis by simp
qed

lemma adjacency_rows:
  assumes "consistent m"
  shows "m (OutKey s t d e) \<noteq> None \<longleftrightarrow> (\<exists>r. edges m e = Some r \<and> s = Src r \<and> t = EType r \<and> d = Dst r)"
    "m (InKey d t s e) \<noteq> None \<longleftrightarrow> (\<exists>r. edges m e = Some r \<and> s = Src r \<and> t = EType r \<and> d = Dst r)"
  using assms by (auto simp: consistent_def tables_ok_def a_ok_def adjacency_def)

context txn_store
begin

lemma hasIncidentEdges_content:
  assumes "hasIncidentEdges T n s = Inr b" "usable s" "consistent (content s)"
  shows "b \<longleftrightarrow> (\<exists>e r. edges (content s) e = Some r \<and> (Src r = n \<or> Dst r = n))"
proof -
  note rows = consistentD(1) [OF assms(3)]
  have s: "TScan T s p \<noteq> [] \<longleftrightarrow> (\<exists>k. content s k \<noteq> None \<and> prefix p k)" for p
  proof -
    have "TScan T s p \<noteq> [] \<longleftrightarrow> fst ` set (TScan T s p) \<noteq> {}" by simp
    then show ?thesis unfolding scan_keys [OF assms(2)] by blast
  qed
  have "(\<exists>k. content s k \<noteq> None \<and> prefix (OutPrefixAll n) k) \<longleftrightarrow> (\<exists>e r. edges (content s) e = Some r \<and> Src r = n)"
    using key_under_prefix [OF rows, of _ n] adjacency_rows(1) [OF assms(3), of n] prefix_key(4) [of n n] by metis
  moreover have "(\<exists>k. content s k \<noteq> None \<and> prefix (InPrefixAll n) k) \<longleftrightarrow> (\<exists>e r. edges (content s) e = Some r \<and> Dst r = n)"
    using key_under_in_prefix [OF rows, of _ n] adjacency_rows(2) [OF assms(3), of n] prefix_key(6) [of n n] by metis
  ultimately show ?thesis using assms(1) unfolding hasIncidentEdges_def s by auto
qed

lemma DeleteNode_ok:
  assumes "runs (DeleteNode T n) s u s'" "usable s" "consistent (content s)"
  shows "usable s' \<and> consistent (content s') \<and> graph_of (content s') = a_DeleteNode (graph_of (content s)) n \<and>
    nodes (content s) n \<noteq> None \<and> (\<forall>e r. edges (content s) e = Some r \<longrightarrow> Src r \<noteq> n \<and> Dst r \<noteq> n)"
proof -
  from assms(1) obtain nd s1 where nd: "GetNode T n s = Inr nd" and h: "hasIncidentEdges T n s = Inr False"
    and d: "runs (delNodeIndexes T n (NRec nd)) s () s1" and t: "runs (TDelete T (NodeKey n)) s1 u s'"
    by (auto simp: DeleteNode_def runs_simps split: if_splits)
  define r where "r = NRec nd"
  have n: "nodes (content s) n = Some r" using GetNode_content [OF nd assms(2)] by (simp add: r_def)
  note nf = node_facts [OF assms(3) n]
  have w: "usable s1 \<and> only_in {0x6C, 0x70, 0x75} (content s) (content s1) \<and>
      label_tables (content s1) (del_entries (node_labels (content s)) n (set (Labels r))) (del_entries (node_entries (content s)) n (set (Labels r) \<times> set (Props r)))"
    by (rule del_labels_ok [OF d [unfolded delNodeIndexes_def, folded r_def] assms(2) consistentD(2) [OF assms(3)]])
      (use nf(1,7) in \<open>auto simp: prop_entries_def ok_node_def ok_props_def\<close>)
  have c: "usable s'" "content s' = (content s1)(NodeKey n := None)" using runs_TDelete [OF t] w by auto
  have o: "only_in {0x6E} (content s1) (content s')" unfolding c(2) by (rule only_in_upd) simp
  have rows: "rows_ok (content s')" unfolding c(2) using w by (auto simp: label_tables_def entries_ok_def)
  have lt: "label_tables (content s') ((node_labels (content s))(n := labels_of None)) ((node_entries (content s))(n := entries_of_node None))"
  proof (rule label_tables_cong [OF label_tables_frame [OF _ o _ rows]])
    show "label_tables (content s1) (del_entries (node_labels (content s)) n (set (Labels r))) (del_entries (node_entries (content s)) n (set (Labels r) \<times> set (Props r)))"
      using w by simp
  qed (use nf(1,6,7) in \<open>auto simp: del_entries_def labels_of_def entries_of_node_def prop_entries_def ok_node_def ok_props_def\<close>)
  have "nodes (content s1) = nodes (content s)" using frame_records(1) [of "{0x6C, 0x70, 0x75}"] w by simp
  then have nn: "nodes (content s') = (nodes (content s))(n := None)" by (simp add: c(2) nodes_del)
  have oo: "only_in {0x6C, 0x70, 0x75, 0x6E} (content s) (content s')"
    using only_in_chain [of _ "content s" "content s1", OF _ o] w by (fastforce simp: insert_commute)
  have "\<forall>e r. edges (content s) e = Some r \<longrightarrow> Src r \<noteq> n \<and> Dst r \<noteq> n"
    using hasIncidentEdges_content [OF h assms(2,3)] by blast
  with node_step [OF assms(3) oo nn lt] c(1) n show ?thesis by (auto simp: a_DeleteNode_def)
qed

end

section \<open>Edges\<close>

lemma r_ok_add:
  "r_ok m ren \<Longrightarrow> m (relIndexKey t k) \<noteq> None \<Longrightarrow> IsIndexable v \<Longrightarrow> r_ok (m(r_key t k v e \<mapsto> x)) (add_entry ren e (t, k, v))"
  by (auto simp: r_ok_def key_simps)

lemma r_ok_add_none:
  "r_ok m ren \<Longrightarrow> m (relIndexKey t k) = None \<or> \<not> IsIndexable v \<Longrightarrow> r_ok m (add_entry ren e (t, k, v))"
  by (auto simp: r_ok_def)

lemma r_ok_del:
  "r_ok m ren \<Longrightarrow> IsIndexable v \<Longrightarrow> r_ok (m(r_key t k v e := None)) (del_entry ren e (t, k, v))"
  by (auto simp: r_ok_def key_simps)

lemma r_ok_del_none:
  "r_ok m ren \<Longrightarrow> m (relIndexKey t k) = None \<or> \<not> IsIndexable v \<Longrightarrow> r_ok m (del_entry ren e (t, k, v))"
  by (auto simp: r_ok_def)

lemma r_ok_cong:
  "r_ok m ren \<Longrightarrow> (\<And>e t k v. IsIndexable v \<Longrightarrow> (t, k, v) \<in> ren e \<longleftrightarrow> (t, k, v) \<in> ren' e) \<Longrightarrow> r_ok m ren'"
  by (simp add: r_ok_def)

definition rel_ok :: "(bytes \<rightharpoonup> bytes) \<Rightarrow> (u64 \<Rightarrow> (u32 \<times> u32 \<times> val) set) \<Rightarrow> bool" where
  "rel_ok m ren \<longleftrightarrow> rows_ok m \<and> r_ok m ren"

context txn_store
begin

lemma putRelPropEntry_ok:
  assumes "runs (putRelPropEntry T t k v e) s u s'" "usable s" "rel_ok (content s) ren"
  shows "usable s' \<and> only_in {0x72} (content s) (content s') \<and> rel_ok (content s') (add_entry ren e (t, k, v))"
proof (cases "IsIndexable v \<and> content s (relIndexKey t k) \<noteq> None")
  case False
  then have "s' = s" using assms(1,2) by (auto simp: putRelPropEntry_def runs_simps dest!: HasRelIndex_content split: if_splits)
  with False assms(2,3) r_ok_add_none show ?thesis by (auto simp: rel_ok_def)
next
  case True
  then have "runs (TSet T (r_key t k v e) []) s u s'"
    using assms(1,2) by (auto simp: putRelPropEntry_def runs_simps RelPropKey_eq dest!: HasRelIndex_content)
  then have c: "usable s'" "content s' = (content s)(r_key t k v e \<mapsto> [])" using runs_TSet assms(2) by auto
  have "only_in {0x72} (content s) (content s')" unfolding c(2) by (rule only_in_upd) simp
  with c True assms(3) r_ok_add show ?thesis by (auto simp: rel_ok_def)
qed

lemma delRelPropEntry_ok:
  assumes "runs (delRelPropEntry T t k v e) s u s'" "usable s" "rel_ok (content s) ren"
  shows "usable s' \<and> only_in {0x72} (content s) (content s') \<and> rel_ok (content s') (del_entry ren e (t, k, v))"
proof (cases "IsIndexable v \<and> content s (relIndexKey t k) \<noteq> None")
  case False
  then have "s' = s" using assms(1,2) by (auto simp: delRelPropEntry_def runs_simps dest!: HasRelIndex_content split: if_splits)
  with False assms(2,3) r_ok_del_none show ?thesis by (auto simp: rel_ok_def)
next
  case True
  then have "runs (TDelete T (r_key t k v e)) s u s'"
    using assms(1,2) by (auto simp: delRelPropEntry_def runs_simps RelPropKey_eq dest!: HasRelIndex_content)
  then have c: "usable s'" "content s' = (content s)(r_key t k v e := None)" using runs_TDelete assms(2) by auto
  have "only_in {0x72} (content s) (content s')" unfolding c(2) by (rule only_in_upd) simp
  with c True assms(3) r_ok_del show ?thesis by (auto simp: rel_ok_def)
qed

lemma put_rel_props_ok:
  assumes "runs (each (\<lambda>(k, v). putRelPropEntry T t k v e) ps) s u s'" "usable s" "rel_ok (content s) ren"
  shows "usable s' \<and> only_in {0x72} (content s) (content s') \<and> rel_ok (content s') (add_entries ren e ({t} \<times> set ps))"
  using assms(1)
proof (rule each_prefix)
  fix ys x zs t1 t2
  assume h: "usable t1 \<and> only_in {0x72} (content s) (content t1) \<and> rel_ok (content t1) (add_entries ren e ({t} \<times> set ys))"
    and r: "runs (case x of (k, v) \<Rightarrow> putRelPropEntry T t k v e) t1 () t2"
  obtain k v where x: "x = (k, v)" by force
  have "usable t2 \<and> only_in {0x72} (content t1) (content t2) \<and> rel_ok (content t2) (add_entry (add_entries ren e ({t} \<times> set ys)) e (t, k, v))"
    by (rule putRelPropEntry_ok) (use r h x in auto)
  then show "usable t2 \<and> only_in {0x72} (content s) (content t2) \<and> rel_ok (content t2) (add_entries ren e ({t} \<times> set (ys @ [x])))"
    using h by (auto simp: x add_entry_entries intro: only_in_trans)
qed (use assms in simp)

lemma del_rel_props_ok:
  assumes "runs (each (\<lambda>(k, v). delRelPropEntry T t k v e) ps) s u s'" "usable s" "rel_ok (content s) ren"
  shows "usable s' \<and> only_in {0x72} (content s) (content s') \<and> rel_ok (content s') (del_entries ren e ({t} \<times> set ps))"
  using assms(1)
proof (rule each_prefix)
  fix ys x zs t1 t2
  assume h: "usable t1 \<and> only_in {0x72} (content s) (content t1) \<and> rel_ok (content t1) (del_entries ren e ({t} \<times> set ys))"
    and r: "runs (case x of (k, v) \<Rightarrow> delRelPropEntry T t k v e) t1 () t2"
  obtain k v where x: "x = (k, v)" by force
  have "usable t2 \<and> only_in {0x72} (content t1) (content t2) \<and> rel_ok (content t2) (del_entry (del_entries ren e ({t} \<times> set ys)) e (t, k, v))"
    by (rule delRelPropEntry_ok) (use r h x in auto)
  then show "usable t2 \<and> only_in {0x72} (content s) (content t2) \<and> rel_ok (content t2) (del_entries ren e ({t} \<times> set (ys @ [x])))"
    using h by (auto simp: x del_entry_entries intro: only_in_trans)
qed (use assms in simp)

end

definition a_CreateEdge :: "agraph \<Rightarrow> u64 \<Rightarrow> bytes \<Rightarrow> u64 \<Rightarrow> u64 \<Rightarrow> (bytes \<times> val) list \<Rightarrow> agraph" where
  "a_CreateEdge G i typ src dst props =
     G\<lparr>AEdges := (AEdges G)(i \<mapsto> \<lparr>AType = Some typ, ASrc = src, ADst = dst, AEProps = stored props\<rparr>)\<rparr>"

definition a_DeleteEdge :: "agraph \<Rightarrow> u64 \<Rightarrow> agraph" where
  "a_DeleteEdge G i = G\<lparr>AEdges := (AEdges G)(i := None)\<rparr>"

definition a_DetachDeleteNode :: "agraph \<Rightarrow> u64 \<Rightarrow> agraph" where
  "a_DetachDeleteNode G n = G\<lparr>ANodes := (ANodes G)(n := None),
     AEdges := (\<lambda>e. case AEdges G e of None \<Rightarrow> None | Some a \<Rightarrow> if ASrc a = n \<or> ADst a = n then None else Some a)\<rparr>"

lemma canon_edge_same [simp]:
  "Src (canon_edge r) = Src r" "Dst (canon_edge r) = Dst r" "EType (canon_edge r) = EType r"
  "EProps (canon_edge r) = canon_props (EProps r)"
  "adj_of e (Some (canon_edge r)) = adj_of e (Some r)"
  "known_edge m (canon_edge r) \<longleftrightarrow> known_edge m r"
  by (simp_all add: canon_edge_def adj_of_def known_edge_def del: catalog_kinds)

lemma a_ok_add:
  "a_ok m adj \<Longrightarrow> a_ok (m(OutKey s t d e \<mapsto> x, InKey d t s e \<mapsto> y)) (insert (s, t, d, e) adj)"
  by (auto simp: a_ok_def key_simps)

lemma a_ok_del:
  "a_ok m adj \<Longrightarrow> a_ok (m(OutKey s t d e := None, InKey d t s e := None)) (adj - {(s, t, d, e)})"
  by (auto simp: a_ok_def key_simps)

context txn_store
begin

text \<open>The rows of a new edge.\<close>

lemma create_edge_rows:
  assumes r: "EncodeEdge r = Inr v" "runs (TSet T (EdgeKey e) v) s () s1"
      "runs (TSet T (OutKey (Src r) (EType r) (Dst r) e) []) s1 () s2" "runs (TSet T (InKey (Dst r) (EType r) (Src r) e) []) s2 () s3"
      "runs (each (\<lambda>(k, x). putRelPropEntry T (EType r) k x e) (EProps r)) s3 () s'"
    and u: "usable s" and c: "consistent (content s)" and ok: "ok_edge r" "known_edge (content s) r"
    and e: "edges (content s) e = None" "e \<noteq> 0" "e \<le> counter (content s) kindEdge"
    and ends: "nodes (content s) (Src r) \<noteq> None" "nodes (content s) (Dst r) \<noteq> None"
  shows "usable s' \<and> consistent (content s') \<and> graph_of (content s') =
    (graph_of (content s))\<lparr>AEdges := (AEdges (graph_of (content s)))(e \<mapsto> abs_edge (content s) (canon_edge r))\<rparr> \<and>
    (\<forall>kind. counter (content s') kind = counter (content s) kind)"
proof -
  have d: "DecodeEdge v = Inr (canon_edge r)" by (rule EncodeEdge_ok [OF r(1) ok(1)])
  have m1: "usable s1" "content s1 = (content s)(EdgeKey e \<mapsto> v)" using runs_TSet [OF r(2) u] by auto
  have m2: "usable s2" "content s2 = (content s1)(OutKey (Src r) (EType r) (Dst r) e \<mapsto> [])" using runs_TSet [OF r(3) m1(1)] by auto
  have m3: "usable s3" "content s3 = (content s2)(InKey (Dst r) (EType r) (Src r) e \<mapsto> [])" using runs_TSet [OF r(4) m2(1)] by auto
  have o1: "only_in {0x65} (content s) (content s1)" unfolding m1(2) by (rule only_in_upd) simp
  have o3: "only_in {0x6F, 0x69} (content s1) (content s3)"
    unfolding m3(2) m2(2) by (rule only_in_trans; rule only_in_upd) simp_all
  have es: "edges (content s1) = (edges (content s))(e \<mapsto> canon_edge r)" unfolding m1(2) by (rule edges_upd [OF d])
  have rows: "rows_ok (content s3)"
    unfolding m3(2) m2(2) m1(2) using consistentD(1) [OF c] d ok_edge_canon [OF ok(1)] canonical_canon by (auto intro!: rows_ok_upd)
  have t: "a_ok (content s) (adjacency (content s))" "r_ok (content s) (edge_entries (content s))"
    using c by (simp_all add: consistent_def tables_ok_def)
  have "a_ok (content s1) (adjacency (content s))" using frame_tables(5) [OF o1] t(1) by simp
  then have a3: "a_ok (content s3) (insert (Src r, EType r, Dst r, e) (adjacency (content s)))"
    unfolding m3(2) m2(2) by (rule a_ok_add)
  have "r_ok (content s3) (edge_entries (content s))"
    using frame_tables(6) [OF o1] frame_tables(6) [OF o3] t(2) by simp
  then have "rel_ok (content s3) (edge_entries (content s))" using rows by (simp add: rel_ok_def)
  note p = put_rel_props_ok [OF r(5) m3(1) this]
  then have o4: "only_in {0x72} (content s3) (content s')" by simp
  have o: "only_in {0x6F, 0x69, 0x72, 0x65} (content s) (content s')"
    using only_in_chain [OF only_in_chain [OF o1 o3] o4] by (simp add: insert_commute)
  have es': "edges (content s') = (edges (content s))(e := Some (canon_edge r))"
    using frame_records(2) [OF o3] frame_records(2) [OF o4] es by simp
  have "a_ok (content s') ((adjacency (content s) - adj_of e (edges (content s) e)) \<union> adj_of e (Some (canon_edge r)))"
    using frame_tables(5) [OF o4] a3 e(1) by (simp add: adj_of_def)
  moreover have "r_ok (content s') ((edge_entries (content s))(e := entries_of_edge (Some (canon_edge r))))"
    by (rule r_ok_cong [of _ "add_entries (edge_entries (content s)) e ({EType r} \<times> set (EProps r))"])
      (use p e(1) ok(1) prop_entries_canon in \<open>auto simp: rel_ok_def add_entries_def edge_entries_def entries_of_edge_def ok_edge_def prop_entries_def ok_props_distinct\<close>)
  ultimately show ?thesis
    using edge_step [OF c o es'] p ends e(2,3) ok(2) frame_records(3) [OF o] by (simp add: rel_ok_def)
qed

end

lemma abs_canon_edge:
  "ok_edge r \<Longrightarrow> abs_edge m (canon_edge r) = \<lparr>AType = m (revKey kindType (EType r)), ASrc = Src r, ADst = Dst r,
     AEProps = (\<lambda>k. map_option canon (named m (EProps r) k))\<rparr>"
  by (simp add: abs_edge_def ok_edge_def ok_props_distinct named_canon del: catalog_kinds)

context txn_store
begin

lemma CreateEdge_ok:
  assumes "runs (CreateEdge T typ src dst props) s i s'" "usable s" "consistent (content s)"
    "counter (content s) kindEdge \<noteq> - 1" "wf_args props"
  shows "usable s' \<and> consistent (content s') \<and> edges (content s) i = None \<and>
    nodes (content s) src \<noteq> None \<and> nodes (content s) dst \<noteq> None \<and>
    graph_of (content s') = a_CreateEdge (graph_of (content s)) i typ src dst props \<and>
    counter (content s') kindNode = counter (content s) kindNode \<and> counter (content s') kindEdge = counter (content s) kindEdge + 1"
proof -
  from assms(1) obtain n1 n2 t s1 p s2 s3 v s4 s5 s6 where ends: "GetNode T src s = Inr n1" "GetNode T dst s = Inr n2"
    and r: "runs (InternType T typ) s t s1" "runs (internProps T props) s1 p s2" "runs (NextEdgeID T) s2 i s3"
    and w: "EncodeEdge \<lparr>EType = t, Src = src, Dst = dst, EProps = p\<rparr> = Inr v" "runs (TSet T (EdgeKey i) v) s3 () s4"
      "runs (TSet T (OutKey src t dst i) []) s4 () s5" "runs (TSet T (InKey dst t src i) []) s5 () s6"
      "runs (each (\<lambda>(k, x). putRelPropEntry T t k x i) p) s6 () s'"
    by (auto simp: CreateEdge_def runs_simps)
  let ?r = "\<lparr>EType = t, Src = src, Dst = dst, EProps = p\<rparr>"
  note c = consistentD [OF assms(3)]
  have a: "usable s1" "interns (content s) (content s1)" "content s1 (fwdKey tagTypeFwd typ) = Some (PutUint32 t)"
    using internDict_interns [OF r(1) [unfolded InternType_def] assms(2) c(3) dict_names(2)] by auto
  note d1 = internsD(2) [OF a(2)]
  have b: "usable s2" "interns (content s1) (content s2)" "ok_props p" "known_keys (content s2) p"
    "named (content s2) p = (\<lambda>k. case map_of props k of Some v \<Rightarrow> if v = VNull then None else Some (normalize v) | None \<Rightarrow> None)"
    using internProps_ok [OF r(2) a(1) d1] assms(5) by (simp_all add: wf_args_def)
  have i2: "interns (content s) (content s2)" using interns_trans [OF a(2) b(2)] .
  have n: "usable s3" "quiet (content s2) (content s3)" "i \<noteq> 0" "i = counter (content s3) kindEdge" "counter (content s) kindEdge < i"
    and cn: "counter (content s3) kindNode = counter (content s) kindNode" "counter (content s3) kindEdge = counter (content s) kindEdge + 1"
    using next_id_ok [OF r(3) [unfolded NextEdgeID_def] b(1) _ internsD(2) [OF i2]] assms(4) internsD(4,5) [OF i2] by auto
  have q: "quiet (content s) (content s3)" using quiet_trans [OF internsD(1) [OF i2] n(2)] .
  have c3: "consistent (content s3)" "graph_of (content s3) = graph_of (content s)"
    using quiet_consistent [OF q assms(3)] quiet_abs [OF q c(4)] by auto
  have new: "edges (content s) i = None"
    using c(4) n(5) unfolding records_ok_def by (meson leD not_None_eq)
  have nd: "nodes (content s) src \<noteq> None" "nodes (content s) dst \<noteq> None"
    using GetNode_content [OF ends(1) assms(2)] GetNode_content [OF ends(2) assms(2)] by auto
  have ty: "content s1 (revKey kindType t) = Some typ" using dict_iff [OF d1 dict_names(2)] a(3) by blast
  have q13: "quiet (content s1) (content s3)" using quiet_trans [OF internsD(1) [OF b(2)] n(2)] .
  have ty3: "content s3 (revKey kindType t) = Some typ" using quiet_rev [OF q13 dict_names(2)] ty by simp
  have kk: "known_keys (content s3) p" using b(4) quiet_rev [OF n(2) dict_names(3)] by (simp add: known_keys_def)
  have nm: "named (content s3) p = named (content s2) p" using quiet_named [OF n(2)] b(4) by (simp add: known_keys_def)
  have "usable s' \<and> consistent (content s') \<and> graph_of (content s') =
      (graph_of (content s3))\<lparr>AEdges := (AEdges (graph_of (content s3)))(i \<mapsto> abs_edge (content s3) (canon_edge ?r))\<rparr> \<and>
      (\<forall>kind. counter (content s') kind = counter (content s3) kind)"
    by (rule create_edge_rows [of ?r v i s3 s4 s5 s6 s'])
      (use w n c3 b kk ty3 new nd quiet_records [OF q] in \<open>auto simp: ok_edge_def known_edge_def known_keys_def\<close>)
  moreover have "abs_edge (content s3) (canon_edge ?r) = \<lparr>AType = Some typ, ASrc = src, ADst = dst, AEProps = stored props\<rparr>"
    using b(3) ty3 by (auto simp: abs_canon_edge ok_edge_def nm b(5) stored_def fun_eq_iff split: option.splits)
  ultimately show ?thesis using new nd c3(2) cn by (simp add: a_CreateEdge_def del: catalog_kinds)
qed

lemma DeleteEdge_ok:
  assumes "runs (DeleteEdge T e) s u s'" "usable s" "consistent (content s)"
  shows "usable s' \<and> consistent (content s') \<and> edges (content s) e \<noteq> None \<and> nodes (content s') = nodes (content s) \<and>
    edges (content s') = (edges (content s))(e := None) \<and> graph_of (content s') = a_DeleteEdge (graph_of (content s)) e"
proof -
  from assms(1) obtain ed s1 s2 s3 where ed: "GetEdge T e s = Inr ed"
    and w: "runs (TDelete T (OutKey (Src (ERec ed)) (EType (ERec ed)) (Dst (ERec ed)) e)) s () s1"
      "runs (TDelete T (InKey (Dst (ERec ed)) (EType (ERec ed)) (Src (ERec ed)) e)) s1 () s2"
      "runs (each (\<lambda>(k, v). delRelPropEntry T (EType (ERec ed)) k v e) (EProps (ERec ed))) s2 () s3"
      "runs (TDelete T (EdgeKey e)) s3 u s'"
    by (auto simp: DeleteEdge_def runs_simps Let_def)
  define r where "r = ERec ed"
  have e: "edges (content s) e = Some r" using GetEdge_content [OF ed assms(2)] by (simp add: r_def)
  have ok: "ok_props (EProps r)" using edges_ok [OF consistentD(1) [OF assms(3)] e] by (simp add: ok_edge_def)
  have m1: "usable s1" "content s1 = (content s)(OutKey (Src r) (EType r) (Dst r) e := None)"
    using runs_TDelete [OF w(1) assms(2)] by (auto simp: r_def)
  have m2: "usable s2" "content s2 = (content s1)(InKey (Dst r) (EType r) (Src r) e := None)"
    using runs_TDelete [OF w(2) m1(1)] by (auto simp: r_def)
  have o2: "only_in {0x6F, 0x69} (content s) (content s2)"
    unfolding m2(2) m1(2) by (rule only_in_trans; rule only_in_upd) simp_all
  have t: "a_ok (content s) (adjacency (content s))" "r_ok (content s) (edge_entries (content s))" "rows_ok (content s)"
    using assms(3) by (simp_all add: consistent_def tables_ok_def)
  have a2: "a_ok (content s2) (adjacency (content s) - {(Src r, EType r, Dst r, e)})" unfolding m2(2) m1(2) by (rule a_ok_del [OF t(1)])
  have "rows_ok (content s2)" unfolding m2(2) m1(2) using t(3) by auto
  then have "rel_ok (content s2) (edge_entries (content s))" using frame_tables(6) [OF o2] t(2) by (simp add: rel_ok_def)
  note p = del_rel_props_ok [OF w(3) [folded r_def] m2(1) this]
  then have o3: "only_in {0x72} (content s2) (content s3)" by simp
  have m4: "usable s'" "content s' = (content s3)(EdgeKey e := None)" using runs_TDelete [OF w(4)] p by auto
  have o4: "only_in {0x65} (content s3) (content s')" unfolding m4(2) by (rule only_in_upd) simp
  have o: "only_in {0x6F, 0x69, 0x72, 0x65} (content s) (content s')"
    using only_in_chain [OF only_in_chain [OF o2 o3] o4] by (simp add: insert_commute)
  have es: "edges (content s') = (edges (content s))(e := None)"
    using frame_records(2) [OF o2] frame_records(2) [OF o3] by (simp add: m4(2) edges_del)
  have "a_ok (content s') ((adjacency (content s) - adj_of e (edges (content s) e)) \<union> adj_of e None)"
    using frame_tables(5) [OF o3] frame_tables(5) [OF o4] a2 by (simp add: adj_of_def e)
  moreover have "r_ok (content s') ((edge_entries (content s))(e := entries_of_edge None))"
    by (rule r_ok_cong [of _ "del_entries (edge_entries (content s)) e ({EType r} \<times> set (EProps r))"])
      (use p e ok frame_tables(6) [OF o4] in \<open>auto simp: rel_ok_def del_entries_def edge_entries_def entries_of_edge_def prop_entries_def ok_props_distinct\<close>)
  moreover have "rows_ok (content s')" unfolding m4(2) using p by (auto simp: rel_ok_def)
  ultimately show ?thesis
    using edge_step [OF assms(3) o es] m4(1) e es frame_records(1) [OF o] by (simp add: a_DeleteEdge_def)
qed

end

section \<open>Adjacency scans and DetachDeleteNode\<close>

definition ref_of :: "u64 \<Rightarrow> EdgeRecord \<Rightarrow> EdgeRef" where
  "ref_of e r = \<lparr>RefID = e, RefType = EType r, RefSrc = Src r, RefDst = Dst r\<rparr>"

lemma restrict_snoc: "m |` (- set (ys @ [e])) = (m |` (- set ys))(e := None)"
  by (auto simp: restrict_map_def fun_eq_iff)

context txn_store
begin

lemma OutEdges_content:
  assumes "OutEdges T n t s = Inr refs" "usable s" "consistent (content s)"
  shows "set refs = {ref_of e r | e r. edges (content s) e = Some r \<and> Src r = n \<and> (t = 0 \<or> EType r = t)}"
proof -
  let ?p = "if t \<noteq> 0 then OutPrefix n t else OutPrefixAll n"
  note s = scan_parse_set [OF assms(1) [unfolded OutEdges_def] assms(2)]
  have "(\<exists>k. content s k \<noteq> None \<and> prefix ?p k \<and> bindR (ParseOutKey k) (\<lambda>(src, typ, dst, edge).
          Inr \<lparr>RefID = edge, RefType = typ, RefSrc = src, RefDst = dst\<rparr>) = Inr x) \<longleftrightarrow>
      (\<exists>e r. edges (content s) e = Some r \<and> Src r = n \<and> (t = 0 \<or> EType r = t) \<and> x = ref_of e r)" (is "?L \<longleftrightarrow> ?R") for x
  proof
    assume ?L
    then obtain src ty dst e where k: "content s (OutKey src ty dst e) \<noteq> None" "prefix ?p (OutKey src ty dst e)"
      "x = \<lparr>RefID = e, RefType = ty, RefSrc = src, RefDst = dst\<rparr>" by (fastforce simp: bindR_Inr_iff ParseOutKey_iff)
    then show ?R using adjacency_rows(1) [OF assms(3)] by (auto simp: ref_of_def split: if_splits)
  next
    assume ?R
    then obtain e r where e: "edges (content s) e = Some r" "Src r = n" "t = 0 \<or> EType r = t" "x = ref_of e r" by blast
    then have "content s (OutKey n (EType r) (Dst r) e) \<noteq> None" using adjacency_rows(1) [OF assms(3)] by blast
    then show ?L using e by (intro exI [of _ "OutKey n (EType r) (Dst r) e"]) (auto simp: ref_of_def)
  qed
  then show ?thesis unfolding s by auto
qed

lemma InEdges_content:
  assumes "InEdges T n t s = Inr refs" "usable s" "consistent (content s)"
  shows "set refs = {ref_of e r | e r. edges (content s) e = Some r \<and> Dst r = n \<and> (t = 0 \<or> EType r = t)}"
proof -
  let ?p = "if t \<noteq> 0 then InPrefix n t else InPrefixAll n"
  note s = scan_parse_set [OF assms(1) [unfolded InEdges_def] assms(2)]
  have "(\<exists>k. content s k \<noteq> None \<and> prefix ?p k \<and> bindR (ParseInKey k) (\<lambda>(dst, typ, src, edge).
          Inr \<lparr>RefID = edge, RefType = typ, RefSrc = src, RefDst = dst\<rparr>) = Inr x) \<longleftrightarrow>
      (\<exists>e r. edges (content s) e = Some r \<and> Dst r = n \<and> (t = 0 \<or> EType r = t) \<and> x = ref_of e r)" (is "?L \<longleftrightarrow> ?R") for x
  proof
    assume ?L
    then obtain src ty dst e where k: "content s (InKey dst ty src e) \<noteq> None" "prefix ?p (InKey dst ty src e)"
      "x = \<lparr>RefID = e, RefType = ty, RefSrc = src, RefDst = dst\<rparr>" by (fastforce simp: bindR_Inr_iff ParseInKey_iff)
    then show ?R using adjacency_rows(2) [OF assms(3)] by (auto simp: ref_of_def split: if_splits)
  next
    assume ?R
    then obtain e r where e: "edges (content s) e = Some r" "Dst r = n" "t = 0 \<or> EType r = t" "x = ref_of e r" by blast
    then have "content s (InKey n (EType r) (Src r) e) \<noteq> None" using adjacency_rows(2) [OF assms(3)] by blast
    then show ?L using e by (intro exI [of _ "InKey n (EType r) (Src r) e"]) (auto simp: ref_of_def)
  qed
  then show ?thesis unfolding s by auto
qed

lemma delete_edges_ok:
  assumes "runs (each (DeleteEdge T) es) s u s'" "usable s" "consistent (content s)"
  shows "usable s' \<and> consistent (content s') \<and> nodes (content s') = nodes (content s) \<and>
    edges (content s') = (edges (content s)) |` (- set es) \<and>
    graph_of (content s') = (graph_of (content s))\<lparr>AEdges := AEdges (graph_of (content s)) |` (- set es)\<rparr>"
  using assms(1)
proof (rule each_prefix)
  fix ys e zs t t'
  assume h: "usable t \<and> consistent (content t) \<and> nodes (content t) = nodes (content s) \<and>
      edges (content t) = (edges (content s)) |` (- set ys) \<and>
      graph_of (content t) = (graph_of (content s))\<lparr>AEdges := AEdges (graph_of (content s)) |` (- set ys)\<rparr>"
    and r: "runs (DeleteEdge T e) t () t'"
  from h DeleteEdge_ok [OF r] show "usable t' \<and> consistent (content t') \<and> nodes (content t') = nodes (content s) \<and>
      edges (content t') = (edges (content s)) |` (- set (ys @ [e])) \<and>
      graph_of (content t') = (graph_of (content s))\<lparr>AEdges := AEdges (graph_of (content s)) |` (- set (ys @ [e]))\<rparr>"
    unfolding restrict_snoc by (simp add: a_DeleteEdge_def)
qed (use assms in simp)

lemma DetachDeleteNode_ok:
  assumes "runs (DetachDeleteNode T n) s u s'" "usable s" "consistent (content s)"
  shows "usable s' \<and> consistent (content s') \<and> nodes (content s) n \<noteq> None \<and>
    graph_of (content s') = a_DetachDeleteNode (graph_of (content s)) n"
proof -
  from assms(1) obtain out inn s1 where o: "OutEdges T n 0 s = Inr out" and i: "InEdges T n 0 s = Inr inn"
    and d: "runs (each (DeleteEdge T) (remdups (map RefID out @ map RefID inn))) s () s1" and n: "runs (DeleteNode T n) s1 u s'"
    by (auto simp: DetachDeleteNode_def runs_simps)
  let ?es = "remdups (map RefID out @ map RefID inn)"
  have es: "e \<in> set ?es \<longleftrightarrow> (\<exists>r. edges (content s) e = Some r \<and> (Src r = n \<or> Dst r = n))" for e
    using OutEdges_content [OF o assms(2,3)] InEdges_content [OF i assms(2,3)]
    by (fastforce simp: ref_of_def image_iff)
  note a = delete_edges_ok [OF d assms(2,3)]
  note b = DeleteNode_ok [OF n conjunct1 [OF a] conjunct1 [OF conjunct2 [OF a]]]
  have "(AEdges (graph_of (content s)) |` (- set ?es)) e = (case AEdges (graph_of (content s)) e of None \<Rightarrow> None
      | Some x \<Rightarrow> if ASrc x = n \<or> ADst x = n then None else Some x)" for e
    unfolding restrict_map_def Compl_iff es by (auto simp: graph_of_def abs_edge_def split: option.splits)
  with a b show ?thesis by (simp add: a_DeleteNode_def a_DetachDeleteNode_def fun_eq_iff)
qed

end

end
