(* ===== verification/Graph_Index.thy ===== *)
theory Graph_Index
  imports Graph_Edges
begin

text \<open>
  \<^verbatim>\<open>unique.go\<close> and \<^verbatim>\<open>relindex.go\<close>: building and dropping indexes and unique constraints keeps the
  invariant and the graph.
\<close>

section \<open>Changes to the index tables only\<close>

lemma index_step:
  assumes c: "consistent m" and o: "only_in {0x70, 0x75, 0x72, 0x58, 0x55, 0x59, 0x46} m m'"
    and t: "entries_ok m' (node_entries m)" "r_ok m' (edge_entries m)"
  shows "consistent m' \<and> graph_of m' = graph_of m \<and> nodes m' = nodes m \<and> edges m' = edges m"
proof -
  note e = frame_records [OF o, simplified]
  note a = abs_same [OF o, simplified]
  have s: "node_labels m' = node_labels m" "node_entries m' = node_entries m" "adjacency m' = adjacency m" "edge_entries m' = edge_entries m"
    by (simp_all add: e node_sets adjacency_def edge_entries_def fun_eq_iff)
  have "l_ok m' (node_labels m)" "a_ok m' (adjacency m)" using frame_tables(1,5) [OF o] c by (simp_all add: consistent_def tables_ok_def)
  moreover have "dicts_ok m'" using frame_dicts [OF o] c by (simp add: consistent_def records_ok_def)
  moreover have "records_ok m" using c by (simp add: consistent_def)
  ultimately have "consistent m'"
    using t unfolding consistent_def tables_ok_def entries_ok_def records_ok_def s e a by (auto simp del: catalog_kinds)
  then show ?thesis by (simp add: graph_of_def e a)
qed

context txn_store
begin

lemma deletePrefix_content:
  assumes "runs (deletePrefix T p) s u s'" "usable s"
  shows "usable s' \<and> content s' = (\<lambda>k. if prefix p k then None else content s k)"
proof -
  let ?ks = "map fst (TScan T s p)"
  have r: "runs (each (TDelete T) ?ks) s u s'" using assms(1) by (auto simp: deletePrefix_def runs_simps)
  have "usable s' \<and> content s' = (\<lambda>k. if k \<in> set ?ks then None else content s k)"
    using r
  proof (rule each_prefix)
    fix ys x zs t t'
    assume h: "usable t \<and> content t = (\<lambda>k. if k \<in> set ys then None else content s k)" and d: "runs (TDelete T x) t () t'"
    then show "usable t' \<and> content t' = (\<lambda>k. if k \<in> set (ys @ [x]) then None else content s k)"
      using runs_TDelete [OF d] by (auto simp: fun_eq_iff)
  qed (use assms in simp)
  moreover have "k \<in> set ?ks \<longleftrightarrow> content s k \<noteq> None \<and> prefix p k" for k
    using scan_keys [OF assms(2), of p] by (simp add: set_eq_iff)
  ultimately show ?thesis by (auto simp: fun_eq_iff)
qed

lemma NodesByLabel_content:
  assumes "NodesByLabel T l s = Inr ns" "usable s" "l_ok (content s) (node_labels (content s))"
  shows "set ns = {n. l \<in> node_labels (content s) n}" "sorted_wrt (<) ns"
proof -
  let ?f = "\<lambda>k. bindR (ParseLabelKey k) (\<lambda>(_, node). Inr node)"
  have f: "?f k = Inr n \<longleftrightarrow> (\<exists>l'. k = LabelKey l' n)" for k n by (auto simp: bindR_Inr_iff ParseLabelKey_iff)
  have "content s (LabelKey l n) \<noteq> None \<longleftrightarrow> l \<in> node_labels (content s) n" for n
    using assms(3) by (simp add: l_ok_def)
  then have "(\<exists>k. content s k \<noteq> None \<and> prefix (LabelPrefix l) k \<and> ?f k = Inr n) \<longleftrightarrow> l \<in> node_labels (content s) n" for n
    unfolding f using prefix_key(7) by metis
  then show "set ns = {n. l \<in> node_labels (content s) n}"
    unfolding scan_parse_set [OF assms(1) [unfolded NodesByLabel_def] assms(2)] by simp
  show "sorted_wrt (<) ns"
    by (rule scan_parse_sorted [OF assms(1) [unfolded NodesByLabel_def] assms(2)]) (auto simp: f)
qed

text \<open>The loop over the nodes of a label that have an indexable value for a key.\<close>

lemma forEachLabelValue_rule:
  assumes r: "runs (forEachLabelValue T l k fn) s u s'" and u: "usable s" and c: "l_ok (content s) (node_labels (content s))"
    and P0: "P {} s" and Pn: "\<And>N t. P N t \<Longrightarrow> usable t \<and> nodes (content t) = nodes (content s)"
    and skip: "\<And>N n t. P N t \<Longrightarrow> (\<And>v. (l, k, v) \<notin> node_entries (content s) n) \<Longrightarrow> P (insert n N) t"
    and step: "\<And>N n v t t'. P N t \<Longrightarrow> (l, k, v) \<in> node_entries (content s) n \<Longrightarrow> runs (fn n v) t () t' \<Longrightarrow> P (insert n N) t'"
  shows "P {n. l \<in> node_labels (content s) n} s'"
proof -
  from r obtain ns where ns: "NodesByLabel T l s = Inr ns" and loop: "runs (each (\<lambda>i. bnd (reads (GetNode T i)) (\<lambda>node.
         case map_of (Props (NRec node)) k of None \<Rightarrow> ret () | Some v \<Rightarrow> if \<not> IsIndexable v then ret () else fn i v)) ns) s u s'"
    by (auto simp: forEachLabelValue_def runs_simps)
  note set = NodesByLabel_content(1) [OF ns u c]
  have "P (set ns) s'"
    using loop
  proof (rule each_prefix)
    fix ys n zs t t'
    assume p: "P (set ys) t" and ns: "ns = ys @ n # zs" and b: "runs (bnd (reads (GetNode T n)) (\<lambda>node.
         case map_of (Props (NRec node)) k of None \<Rightarrow> ret () | Some v \<Rightarrow> if \<not> IsIndexable v then ret () else fn n v)) t () t'"
    from b obtain nd where g: "GetNode T n t = Inr nd" and b2: "runs (case map_of (Props (NRec nd)) k of None \<Rightarrow> ret ()
         | Some v \<Rightarrow> if \<not> IsIndexable v then ret () else fn n v) t () t'" by (auto simp: runs_simps)
    have nd: "nodes (content s) n = Some (NRec nd)" using GetNode_content [OF g] Pn [OF p] by simp
    have "n \<in> set ns" using ns by simp
    then have l: "l \<in> set (Labels (NRec nd))" unfolding set by (simp add: node_labels_def nd)
    have e: "(l, k, v) \<in> node_entries (content s) n \<longleftrightarrow> map_of (Props (NRec nd)) k = Some v \<and> IsIndexable v" for v
      using l by (auto simp: node_entries_def nd prop_entries_def)
    show "P (set (ys @ [n])) t'"
    proof (cases "\<exists>v. map_of (Props (NRec nd)) k = Some v \<and> IsIndexable v")
      case True
      then obtain v where "map_of (Props (NRec nd)) k = Some v" "IsIndexable v" by blast
      with b2 step [OF p] e show ?thesis by simp
    next
      case False
      then have "t' = t" using b2 by (auto split: option.splits if_splits)
      with skip [OF p] False e show ?thesis by auto
    qed
  qed (use P0 in simp)
  then show ?thesis by (simp add: set)
qed

end

section \<open>Property indexes\<close>

text \<open>The property table while the index on \<open>(l, k)\<close> is being filled: only the nodes in \<open>N\<close> have
  their entries for that pair.\<close>

definition p_partial :: "(bytes \<rightharpoonup> bytes) \<Rightarrow> (bytes \<rightharpoonup> bytes) \<Rightarrow> u32 \<Rightarrow> u32 \<Rightarrow> u64 set \<Rightarrow> bool" where
  "p_partial m0 m l k N \<longleftrightarrow> (\<forall>l' k' v n. IsIndexable v \<longrightarrow> (m (p_key l' k' v n) \<noteq> None \<longleftrightarrow>
     (l', k', v) \<in> node_entries m0 n \<and> (m0 (indexKey l' k') \<noteq> None \<or> l' = l \<and> k' = k \<and> n \<in> N)))"

lemma p_partial_upd:
  assumes "p_partial m0 m l k N" "(l, k, v) \<in> node_entries m0 n" "IsIndexable v"
    "\<And>v'. (l, k, v') \<in> node_entries m0 n \<Longrightarrow> v' = v"
  shows "p_partial m0 (m(p_key l k v n \<mapsto> x)) l k (insert n N)"
  unfolding p_partial_def
proof (intro allI impI)
  fix l' k' v' n'
  assume v': "IsIndexable v'"
  have old: "m (p_key l' k' v' n') \<noteq> None \<longleftrightarrow>
     (l', k', v') \<in> node_entries m0 n' \<and> (m0 (indexKey l' k') \<noteq> None \<or> l' = l \<and> k' = k \<and> n' \<in> N)"
    using assms(1) v' unfolding p_partial_def by blast
  show "(m(p_key l k v n \<mapsto> x)) (p_key l' k' v' n') \<noteq> None \<longleftrightarrow>
     (l', k', v') \<in> node_entries m0 n' \<and> (m0 (indexKey l' k') \<noteq> None \<or> l' = l \<and> k' = k \<and> n' \<in> insert n N)"
  proof (cases "l' = l \<and> k' = k \<and> v' = v \<and> n' = n")
    case True
    then show ?thesis using assms(2) by simp
  next
    case False
    then have "(m(p_key l k v n \<mapsto> x)) (p_key l' k' v' n') = m (p_key l' k' v' n')" using assms(3) v' by auto
    moreover have "\<not> ((l', k', v') \<in> node_entries m0 n' \<and> l' = l \<and> k' = k \<and> n' = n)" using False assms(4) by blast
    ultimately show ?thesis using old by (simp only: insert_iff) blast
  qed
qed

lemma p_partial_skip:
  "p_partial m0 m l k N \<Longrightarrow> (\<And>v. (l, k, v) \<notin> node_entries m0 n) \<Longrightarrow> p_partial m0 m l k (insert n N)"
  unfolding p_partial_def by auto

lemma entries_unique:
  "(l, k, v) \<in> node_entries m n \<Longrightarrow> (l, k, v') \<in> node_entries m n \<Longrightarrow> v' = v"
  "(l, k, v) \<in> node_entries m n \<Longrightarrow> IsIndexable v \<and> l \<in> node_labels m n"
  by (auto simp: node_entries_def node_labels_def prop_entries_def split: option.splits)

context txn_store
begin

lemma BuildIndex_fill:
  assumes "runs (BuildIndex T l k name) s u s'" "usable s" "consistent (content s)"
  shows "usable s' \<and> only_in {0x70} ((content s)(indexKey l k \<mapsto> name)) (content s') \<and> rows_ok (content s') \<and>
    p_ok (content s') (node_entries (content s))"
proof -
  from assms(1) obtain s1 where a: "runs (AddNamedIndex T l k name) s () s1" and loop: "runs (forEachLabelValue T l k (\<lambda>nodeID v.
          bnd (liftR (PropKey l k v nodeID)) (\<lambda>pk. TSet T pk []))) s1 u s'"
    by (auto simp: BuildIndex_def runs_simps)
  let ?m = "content s" and ?m1 = "(content s)(indexKey l k \<mapsto> name)"
  have s1: "usable s1" "content s1 = ?m1" using runs_TSet [OF a [unfolded AddNamedIndex_def] assms(2)] by auto
  have o: "only_in {0x58} ?m ?m1" by (rule only_in_upd) simp
  note f = frame_records [OF o, simplified]
  have n: "node_labels ?m1 = node_labels ?m" "node_entries ?m1 = node_entries ?m" by (simp_all add: fun_eq_iff node_sets f)
  have l1: "l_ok (content s1) (node_labels (content s1))"
    unfolding s1(2) n using frame_tables(1) [OF o] assms(3) by (simp add: consistent_def tables_ok_def)
  let ?P = "\<lambda>N t. usable t \<and> only_in {0x70} ?m1 (content t) \<and> rows_ok (content t) \<and> p_partial ?m (content t) l k N"
  have "?P {n. l \<in> node_labels (content s1) n} s'"
  proof (rule forEachLabelValue_rule [OF loop s1(1) l1, of ?P])
    have "p_ok ?m (node_entries ?m)" "rows_ok ?m" using assms(3) by (simp_all add: consistent_def tables_ok_def)
    then show "?P {} s1" using s1 by (auto simp: p_partial_def p_ok_def key_simps)
  next
    fix N t
    assume "?P N t"
    then show "usable t \<and> nodes (content t) = nodes (content s1)"
      using frame_records(1) [of "{0x70}" ?m1 "content t"] f by (simp add: s1(2))
  next
    fix N n t
    assume "?P N t" "\<And>v. (l, k, v) \<notin> node_entries (content s1) n"
    then show "?P (insert n N) t" using p_partial_skip n by (simp add: s1(2))
  next
    fix N n v t t'
    assume p: "?P N t" and e: "(l, k, v) \<in> node_entries (content s1) n" and r: "runs (bnd (liftR (PropKey l k v n)) (\<lambda>pk. TSet T pk [])) t () t'"
    have e0: "(l, k, v) \<in> node_entries ?m n" using e n by (simp add: s1(2))
    note u = entries_unique [OF e0]
    have "runs (TSet T (p_key l k v n) []) t () t'" using r u(2) e0 by (auto simp: runs_simps PropKey_eq)
    then have c: "usable t'" "content t' = (content t)(p_key l k v n \<mapsto> [])" using runs_TSet p by auto
    have "only_in {0x70} (content t) (content t')" unfolding c(2) by (rule only_in_upd) simp
    moreover have "p_partial ?m (content t') l k (insert n N)" unfolding c(2)
      using p_partial_upd [OF _ e0 conjunct1 [OF u(2)] u(1)] p by simp
    moreover have "rows_ok (content t')" unfolding c(2) using p u(2) by (intro rows_ok_upd) auto
    ultimately show "?P (insert n N) t'" using p c(1) only_in_trans [of "{0x70}" ?m1 "content t" "content t'"] by simp
  qed
  note P = this
  have "p_ok (content s') (node_entries ?m)"
    unfolding p_ok_def
  proof (intro allI impI)
    fix l' k' v n
    assume v: "IsIndexable v"
    have ix: "content s' (indexKey l' k') = ?m1 (indexKey l' k')" using only_inD [of "{0x70}" ?m1 "content s'" "indexKey l' k'"] P by simp
    have pp: "content s' (p_key l' k' v n) \<noteq> None \<longleftrightarrow> (l', k', v) \<in> node_entries ?m n \<and>
        (?m (indexKey l' k') \<noteq> None \<or> l' = l \<and> k' = k \<and> l \<in> node_labels ?m n)"
      using P v unfolding p_partial_def s1(2) n by simp
    show "content s' (p_key l' k' v n) \<noteq> None \<longleftrightarrow> content s' (indexKey l' k') \<noteq> None \<and> (l', k', v) \<in> node_entries ?m n"
      unfolding pp ix using entries_unique(2) [of l' k' v ?m n] by auto
  qed
  with P show ?thesis by simp
qed

lemma BuildIndex_ok:
  assumes "runs (BuildIndex T l k name) s u s'" "usable s" "consistent (content s)"
  shows "usable s' \<and> consistent (content s') \<and> graph_of (content s') = graph_of (content s) \<and>
    content s' (indexKey l k) = Some name \<and> (\<forall>l k. content s' (constraintKey l k) = content s (constraintKey l k))"
proof -
  note b = BuildIndex_fill [OF assms]
  let ?m = "content s" and ?m1 = "(content s)(indexKey l k \<mapsto> name)"
  have o1: "only_in {0x58} ?m ?m1" by (rule only_in_upd) simp
  have o2: "only_in {0x70} ?m1 (content s')" using b by simp
  have o: "only_in {0x70, 0x75, 0x72, 0x58, 0x55, 0x59, 0x46} ?m (content s')"
    using only_in_mono [OF only_in_chain [OF o1 o2]] by auto
  have o3: "only_in {0x58, 0x70} ?m (content s')" using only_in_chain [OF o1 o2] by (simp add: insert_commute)
  have t: "u_ok (content s') (node_entries ?m)" "r_ok (content s') (edge_entries ?m)"
    using frame_tables(3,6) [OF o3] assms(3) by (simp_all add: consistent_def tables_ok_def)
  have ck: "\<forall>l k. content s' (constraintKey l k) = ?m (constraintKey l k)" using only_inD [OF o3] by simp
  have ix: "content s' (indexKey l' k') = ?m1 (indexKey l' k')" for l' k' using only_inD [OF o2] by simp
  have "c_ok (content s')" using assms(3) ck ix by (auto simp: c_ok_def consistent_def tables_ok_def)
  with index_step [OF assms(3) o] b t ck ix show ?thesis by (simp add: entries_ok_def)
qed

lemma DropIndexEntries_ok:
  assumes "runs (DropIndexEntries T l k) s u s'" "usable s" "consistent (content s)" "content s (constraintKey l k) = None"
  shows "usable s' \<and> consistent (content s') \<and> graph_of (content s') = graph_of (content s) \<and>
    content s' (indexKey l k) = None \<and> (\<forall>l k. content s' (constraintKey l k) = content s (constraintKey l k))"
proof -
  from assms(1) obtain s1 where a: "runs (deletePrefix T (PropIndexPrefix l k)) s () s1" and b: "runs (RemoveIndex T l k) s1 u s'"
    by (auto simp: DropIndexEntries_def runs_simps)
  let ?m = "content s"
  have s1: "usable s1" "content s1 = (\<lambda>x. if prefix (PropIndexPrefix l k) x then None else ?m x)" using deletePrefix_content [OF a assms(2)] by auto
  have s': "usable s'" "content s' = (content s1)(indexKey l k := None)" using runs_TDelete [OF b [unfolded RemoveIndex_def] s1(1)] by auto
  have px: "prefix (PropIndexPrefix l k) x \<Longrightarrow> hd x = 0x70" for x using prefix_hd [of "PropIndexPrefix l k" x] by simp
  have o3: "only_in {0x58, 0x70} ?m (content s')" unfolding s'(2) s1(2) using px by (auto simp: only_in_def)
  have o: "only_in {0x70, 0x75, 0x72, 0x58, 0x55, 0x59, 0x46} ?m (content s')" using only_in_mono [OF o3] by auto
  have t: "u_ok (content s') (node_entries ?m)" "r_ok (content s') (edge_entries ?m)"
    using frame_tables(3,6) [OF o3] assms(3) by (simp_all add: consistent_def tables_ok_def)
  have ix: "content s' (indexKey l' k') = (if l' = l \<and> k' = k then None else ?m (indexKey l' k'))" for l' k'
    using px [of "indexKey l' k'"] by (auto simp: s'(2) s1(2))
  have pk: "IsIndexable v \<Longrightarrow> content s' (p_key l' k' v n) = (if l' = l \<and> k' = k then None else ?m (p_key l' k' v n))" for l' k' v n
    by (auto simp: s'(2) s1(2) key_simps)
  have old: "p_ok ?m (node_entries ?m)" "c_ok ?m" "rows_ok ?m" using assms(3) by (simp_all add: consistent_def tables_ok_def)
  have "p_ok (content s') (node_entries ?m)" using old(1) by (auto simp: p_ok_def pk ix)
  moreover have "c_ok (content s')"
    using old(2) assms(4) only_inD [OF o3] by (auto simp: c_ok_def ix)
  moreover have "rows_ok (content s')" using old(3) by (auto simp: rows_ok_def s'(2) s1(2) split: if_splits)
  moreover have "\<forall>l k. content s' (constraintKey l k) = ?m (constraintKey l k)" using only_inD [OF o3] by simp
  ultimately show ?thesis using index_step [OF assms(3) o] t s'(1) ix [of l k] by (simp add: entries_ok_def)
qed

end

section \<open>Unique constraints\<close>

text \<open>The entries that count while the constraint on \<open>(l, k)\<close> is being checked.\<close>

definition counted :: "(u64 \<Rightarrow> (u32 \<times> u32 \<times> val) set) \<Rightarrow> u32 \<Rightarrow> u32 \<Rightarrow> u64 set \<Rightarrow> u64 \<Rightarrow> (u32 \<times> u32 \<times> val) set" where
  "counted ent l k N n = {(l', k', v) \<in> ent n. l' = l \<and> k' = k \<longrightarrow> n \<in> N}"

lemma counted_iff: "(l', k', v) \<in> counted ent l k N n \<longleftrightarrow> (l', k', v) \<in> ent n \<and> (l' = l \<and> k' = k \<longrightarrow> n \<in> N)"
  by (simp add: counted_def)

lemma entries_eqI: "(\<And>l k v n. (l, k, v) \<in> ent n \<longleftrightarrow> (l, k, v) \<in> ent' n) \<Longrightarrow> ent = ent'"
  by (rule ext) auto

lemma counted_skip:
  assumes "\<And>v. (l, k, v) \<notin> ent n"
  shows "counted ent l k (insert n N) = counted ent l k N"
  by (rule entries_eqI) (use assms in \<open>auto simp: counted_iff\<close>)

lemma counted_step:
  assumes "(l, k, v) \<in> ent n" "\<And>v'. (l, k, v') \<in> ent n \<Longrightarrow> v' = v"
  shows "counted ent l k (insert n N) = add_entry (counted ent l k N) n (l, k, v)"
proof (rule entries_eqI)
  fix l' k' v' n'
  have "n' = n \<Longrightarrow> l' = l \<Longrightarrow> k' = k \<Longrightarrow> (l', k', v') \<in> ent n' \<longleftrightarrow> v' = v" using assms by blast
  then show "(l', k', v') \<in> counted ent l k (insert n N) n' \<longleftrightarrow> (l', k', v') \<in> add_entry (counted ent l k N) n (l, k, v) n'"
    by (auto simp: counted_iff)
qed

lemma counted_all:
  assumes "\<And>v n. (l, k, v) \<in> ent n \<Longrightarrow> n \<in> N"
  shows "counted ent l k N = ent"
  by (rule entries_eqI) (use assms in \<open>auto simp: counted_iff\<close>)

lemma u_ok_start:
  assumes "u_ok m ent" "m (constraintKey l k) = None"
  shows "u_ok (m(constraintKey l k \<mapsto> x)) (counted ent l k {})"
  unfolding u_ok_def
proof (intro allI impI)
  fix l' k' c n
  assume c: "IsIndexable c"
  have old: "m (u_key l' k' c) = Some (PutUint64 n) \<longleftrightarrow> m (constraintKey l' k') \<noteq> None \<and> holds_value ent l' k' c n"
    using assms(1) c by (simp add: u_ok_def)
  have h: "holds_value (counted ent l k {}) l' k' c n \<longleftrightarrow> holds_value ent l' k' c n \<and> \<not> (l' = l \<and> k' = k)"
    by (auto simp: holds_value_def counted_def)
  show "(m(constraintKey l k \<mapsto> x)) (u_key l' k' c) = Some (PutUint64 n) \<longleftrightarrow>
      (m(constraintKey l k \<mapsto> x)) (constraintKey l' k') \<noteq> None \<and> holds_value (counted ent l k {}) l' k' c n"
    using old h assms(2) by (cases "l' = l \<and> k' = k") (auto simp: key_simps)
qed

context txn_store
begin

lemma requireFormat_content:
  assumes "runs (requireFormat T v) s u s'" "usable s"
  shows "usable s' \<and> only_in {0x46} (content s) (content s') \<and> (rows_ok (content s) \<longrightarrow> rows_ok (content s'))"
proof -
  have "s' = s \<or> (\<exists>x. runs (TSet T formatKey x) s u s')"
    using assms(1) unfolding requireFormat_def by (auto simp: runs_simps split: option.splits if_splits)
  then show ?thesis
  proof
    assume "\<exists>x. runs (TSet T formatKey x) s u s'"
    then obtain x where "usable s'" "content s' = (content s)(formatKey \<mapsto> x)" using runs_TSet assms(2) by blast
    then show ?thesis using only_in_upd [of formatKey "{0x46}"] by auto
  qed (use assms in simp)
qed

lemma format_consistent:
  assumes "runs (requireFormat T v) s u s'" "usable s" "consistent (content s)"
  shows "usable s' \<and> consistent (content s') \<and> graph_of (content s') = graph_of (content s) \<and>
    (\<forall>x. hd x \<noteq> 0x46 \<longrightarrow> content s' x = content s x)"
proof -
  note f = requireFormat_content [OF assms(1,2)]
  then have o: "only_in {0x46} (content s) (content s')" by simp
  have "only_in {0x70, 0x75, 0x72, 0x58, 0x55, 0x59, 0x46} (content s) (content s')" using only_in_mono [OF o] by auto
  moreover have "entries_ok (content s') (node_entries (content s))" "r_ok (content s') (edge_entries (content s))"
    using f frame_tables(2,3,4,6) [OF o] assms(3) by (simp_all add: entries_ok_def consistent_def tables_ok_def)
  ultimately show ?thesis using index_step [OF assms(3)] f o by (simp add: only_in_def)
qed

lemma claim_all:
  assumes loop: "runs (forEachLabelValue T l k (\<lambda>nodeID v. claimValue T l k v nodeID)) s1 u s'" and u: "usable s1"
    and m: "content s1 = m(constraintKey l k \<mapsto> x)" "x \<noteq> []" and c: "consistent m" "m (indexKey l k) \<noteq> None" "m (constraintKey l k) = None"
  shows "usable s' \<and> consistent (content s') \<and> graph_of (content s') = graph_of m \<and> content s' (constraintKey l k) = Some x"
proof -
  let ?m1 = "m(constraintKey l k \<mapsto> x)"
  have t: "p_ok m (node_entries m)" "u_ok m (node_entries m)" "c_ok m" "rows_ok m" "l_ok m (node_labels m)" "r_ok m (edge_entries m)"
    using c(1) by (simp_all add: consistent_def tables_ok_def)
  have o: "only_in {0x55} m ?m1" by (rule only_in_upd) simp
  note f = frame_records [OF o, simplified]
  have n: "node_labels ?m1 = node_labels m" "node_entries ?m1 = node_entries m" by (simp_all add: fun_eq_iff node_sets f)
  have l1: "l_ok (content s1) (node_labels (content s1))" unfolding m n using frame_tables(1) [OF o] t(5) by simp
  let ?P = "\<lambda>N t. usable t \<and> only_in {0x75} ?m1 (content t) \<and> rows_ok (content t) \<and> u_ok (content t) (counted (node_entries m) l k N)"
  have P: "?P {n. l \<in> node_labels (content s1) n} s'"
  proof (rule forEachLabelValue_rule [OF loop u l1, of ?P])
    show "?P {} s1" using u m t(4) u_ok_start [OF t(2) c(3)] by (auto intro!: rows_ok_upd)
  next
    fix N t
    assume "?P N t"
    then show "usable t \<and> nodes (content t) = nodes (content s1)"
      using frame_records(1) [of "{0x75}" ?m1 "content t"] by (simp add: m)
  next
    fix N n t
    assume "?P N t" "\<And>v. (l, k, v) \<notin> node_entries (content s1) n"
    then show "?P (insert n N) t" using counted_skip [of l k "node_entries m" n N] n by (simp add: m)
  next
    fix N n v t t'
    assume p: "?P N t" and e: "(l, k, v) \<in> node_entries (content s1) n" and r: "runs (claimValue T l k v n) t () t'"
    have e0: "(l, k, v) \<in> node_entries m n" using e n by (simp add: m)
    note uq = entries_unique [OF e0]
    have "content t (constraintKey l k) \<noteq> None" using only_inD [of "{0x75}" ?m1 "content t"] p by simp
    then have q: "usable t' \<and> only_in {0x75} (content t) (content t') \<and> rows_ok (content t') \<and>
        u_ok (content t') (add_entry (counted (node_entries m) l k N) n (l, k, v))"
      by (intro claimValue_ok [OF r]) (use p uq(2) in simp_all)
    have "counted (node_entries m) l k (insert n N) = add_entry (counted (node_entries m) l k N) n (l, k, v)"
      by (rule counted_step [where ent = "node_entries m", OF e0 uq(1)])
    with p q show "?P (insert n N) t'" using only_in_trans [of "{0x75}" ?m1 "content t" "content t'"] by simp
  qed
  have "counted (node_entries m) l k {n. l \<in> node_labels (content s1) n} = node_entries m"
    by (rule counted_all) (use entries_unique(2) [of l k _ m] n in \<open>simp add: m\<close>)
  with P have u': "u_ok (content s') (node_entries m)" and o2: "only_in {0x75} ?m1 (content s')" and rows: "rows_ok (content s')" by simp_all
  have o3: "only_in {0x55, 0x75} m (content s')" using only_in_chain [OF o o2] by (simp add: insert_commute)
  have o4: "only_in {0x70, 0x75, 0x72, 0x58, 0x55, 0x59, 0x46} m (content s')" using only_in_mono [OF o3] by auto
  have ck: "content s' (constraintKey l' k') = ?m1 (constraintKey l' k')" "content s' (indexKey l' k') = m (indexKey l' k')" for l' k'
    using only_inD [OF o2, of "constraintKey l' k'"] only_inD [OF o3, of "indexKey l' k'"] by simp_all
  have "c_ok (content s')" using t(3) c(2) by (auto simp: c_ok_def ck)
  moreover have "p_ok (content s') (node_entries m)" "r_ok (content s') (edge_entries m)"
    using frame_tables(2,6) [OF o3] t by simp_all
  ultimately show ?thesis
    using index_step [OF c(1) o4] u' rows P ck by (simp add: entries_ok_def)
qed

lemma AddUniqueConstraint_ok:
  assumes "runs (AddUniqueConstraint T l k name) s u s'" "usable s" "consistent (content s)" "content s (constraintKey l k) = None"
  shows "usable s' \<and> consistent (content s') \<and> graph_of (content s') = graph_of (content s) \<and> content s' (constraintKey l k) \<noteq> None"
proof -
  from assms(1) obtain has s1 s2 s3 where h: "HasIndex T l k s = Inr has"
    and b: "runs (if \<not> has then BuildIndex T l k [] else ret ()) s () s1" and f: "runs (RequireUniqueFormat T) s1 () s2"
    and a: "runs (AddConstraint T \<lparr>CLabel = l, CPropKey = k, CName = name, OwnsIndex = \<not> has\<rparr>) s2 () s3"
    and loop: "runs (forEachLabelValue T l k (\<lambda>nodeID v. claimValue T l k v nodeID)) s3 u s'"
    unfolding AddUniqueConstraint_def by (auto simp: runs_bnd runs_seqA)
  have s1: "usable s1 \<and> consistent (content s1) \<and> graph_of (content s1) = graph_of (content s) \<and>
      content s1 (indexKey l k) \<noteq> None \<and> content s1 (constraintKey l k) = None"
  proof (cases has)
    case True
    then show ?thesis using b assms(2-4) HasIndex_content [OF h assms(2)] by simp
  next
    case False
    then show ?thesis using b BuildIndex_ok [of l k "[]" s "()" s1] assms(2-4) by simp
  qed
  then have s2: "usable s2 \<and> consistent (content s2) \<and> graph_of (content s2) = graph_of (content s) \<and>
      content s2 (indexKey l k) \<noteq> None \<and> content s2 (constraintKey l k) = None"
    using format_consistent [OF f [unfolded RequireUniqueFormat_def]] by simp
  obtain x where "usable s3" "content s3 = (content s2)(constraintKey l k \<mapsto> x)" "x \<noteq> []"
    using runs_TSet [OF a [unfolded AddConstraint_def]] s2 by auto
  with claim_all [OF loop] s2 show ?thesis by auto
qed

lemma DropUniqueConstraint_ok:
  assumes "runs (DropUniqueConstraint T l k) s u s'" "usable s" "consistent (content s)"
  shows "usable s' \<and> consistent (content s') \<and> graph_of (content s') = graph_of (content s) \<and> content s' (constraintKey l k) = None"
proof -
  from assms(1) obtain d where g: "GetConstraint T l k s = Inr d" and r: "runs (case d of None \<Rightarrow> ret () | Some d \<Rightarrow>
           seqA (deletePrefix T (UniquePrefix l k)) (seqA (RemoveConstraint T l k)
          (if OwnsIndex d then DropIndexEntries T l k else ret ()))) s u s'"
    by (auto simp: DropUniqueConstraint_def runs_bnd)
  show ?thesis
  proof (cases d)
    case None
    then show ?thesis using r assms(2,3) GetConstraint_content [OF g assms(2)] by simp
  next
    case (Some def)
    with r obtain s1 s2 where a: "runs (deletePrefix T (UniquePrefix l k)) s () s1" and b: "runs (RemoveConstraint T l k) s1 () s2"
      and rest: "runs (if OwnsIndex def then DropIndexEntries T l k else ret ()) s2 u s'" by (auto simp: runs_seqA)
    let ?m = "content s"
    have s1: "usable s1" "content s1 = (\<lambda>x. if prefix (UniquePrefix l k) x then None else ?m x)" using deletePrefix_content [OF a assms(2)] by auto
    have s2: "usable s2" "content s2 = (content s1)(constraintKey l k := None)" using runs_TDelete [OF b [unfolded RemoveConstraint_def] s1(1)] by auto
    have px: "prefix (UniquePrefix l k) x \<Longrightarrow> hd x = 0x75" for x using prefix_hd [of "UniquePrefix l k" x] by simp
    have o3: "only_in {0x55, 0x75} ?m (content s2)" unfolding s2(2) s1(2) using px by (auto simp: only_in_def)
    have o: "only_in {0x70, 0x75, 0x72, 0x58, 0x55, 0x59, 0x46} ?m (content s2)" using only_in_mono [OF o3] by auto
    have old: "p_ok ?m (node_entries ?m)" "u_ok ?m (node_entries ?m)" "c_ok ?m" "rows_ok ?m" "r_ok ?m (edge_entries ?m)"
      using assms(3) by (simp_all add: consistent_def tables_ok_def)
    have ck: "content s2 (constraintKey l' k') = (if l' = l \<and> k' = k then None else ?m (constraintKey l' k'))" for l' k'
      using px [of "constraintKey l' k'"] by (auto simp: s2(2) s1(2))
    have uk: "IsIndexable c \<Longrightarrow> content s2 (u_key l' k' c) = (if l' = l \<and> k' = k then None else ?m (u_key l' k' c))" for l' k' c
      by (auto simp: s2(2) s1(2) key_simps)
    have "u_ok (content s2) (node_entries ?m)" using old(2) by (auto simp: u_ok_def uk ck)
    moreover have "c_ok (content s2)" using old(3) only_inD [OF o3] by (auto simp: c_ok_def ck)
    moreover have "rows_ok (content s2)" using old(4) by (auto simp: rows_ok_def s2(2) s1(2) split: if_splits)
    moreover have "p_ok (content s2) (node_entries ?m)" "r_ok (content s2) (edge_entries ?m)"
      using frame_tables(2,6) [OF o3] old by simp_all
    ultimately have c: "consistent (content s2)" "graph_of (content s2) = graph_of ?m"
      using index_step [OF assms(3) o] by (simp_all add: entries_ok_def)
    show ?thesis
    proof (cases "OwnsIndex def")
      case True
      then have d: "runs (DropIndexEntries T l k) s2 u s'" using rest by simp
      from DropIndexEntries_ok [OF d s2(1) c(1)] ck [of l k] c(2) show ?thesis by simp
    qed (use rest s2(1) c ck [of l k] in simp)
  qed
qed

end

section \<open>Relationship indexes\<close>

lemma edges_of_type_rows:
  assumes "edges_of_type t it = Inr es" "(k, x) \<in> set it"
  shows "\<exists>v r. x = Inr v \<and> DecodeEdge v = Inr r"
  using assms by (induction t it arbitrary: es rule: edges_of_type.induct) (auto simp: bindR_Inr_iff split: if_splits)

lemma edges_of_type_set:
  assumes "edges_of_type t it = Inr es"
  shows "\<lparr>EID = e, ERec = r\<rparr> \<in> set es \<longleftrightarrow> (\<exists>v. (EdgeKey e, Inr v) \<in> set it \<and> DecodeEdge v = Inr r \<and> EType r = t)"
  using assms
proof (induction t it arbitrary: es rule: edges_of_type.induct)
  case (2 t k x it)
  from "2.prems" obtain v rec where x: "x = Inr v" "DecodeEdge v = Inr rec"
    and r: "(if EType rec = t then bindR (EdgeIDFromKey k) (\<lambda>i. bindR (edges_of_type t it) (\<lambda>es. Inr (\<lparr>EID = i, ERec = rec\<rparr> # es)))
      else edges_of_type t it) = Inr es" by (auto simp: bindR_Inr_iff)
  show ?case
  proof (cases "EType rec = t")
    case True
    then obtain i es' where i: "EdgeIDFromKey k = Inr i" "edges_of_type t it = Inr es'" "es = \<lparr>EID = i, ERec = rec\<rparr> # es'"
      using r by (auto simp: bindR_Inr_iff)
    have ih: "\<lparr>EID = e, ERec = r\<rparr> \<in> set es' \<longleftrightarrow> (\<exists>v. (EdgeKey e, Inr v) \<in> set it \<and> DecodeEdge v = Inr r \<and> EType r = t)"
      using "2.IH"(1) [OF x True i(1)] i(2) by blast
    have "k = EdgeKey i" using i(1) by (simp add: EdgeIDFromKey_iff)
    then show ?thesis using ih i(3) x True by auto
  next
    case False
    then have "\<lparr>EID = e, ERec = r\<rparr> \<in> set es \<longleftrightarrow> (\<exists>v. (EdgeKey e, Inr v) \<in> set it \<and> DecodeEdge v = Inr r \<and> EType r = t)"
      using "2.IH"(2) [OF x False] r by simp
    then show ?thesis using x False by auto
  qed
qed simp

context txn_store
begin

lemma scan_edges_content:
  assumes "edges_of_type t (TScan T s EdgePrefix) = Inr es" "usable s"
  shows "\<lparr>EID = e, ERec = r\<rparr> \<in> set es \<longleftrightarrow> edges (content s) e = Some r \<and> EType r = t"
proof -
  have "(EdgeKey e, Inr v) \<in> set (TScan T s EdgePrefix) \<longleftrightarrow> content s (EdgeKey e) = Some v" for v
  proof
    assume v: "content s (EdgeKey e) = Some v"
    then have "EdgeKey e \<in> fst ` set (TScan T s EdgePrefix)" unfolding scan_keys [OF assms(2)] by simp
    then obtain x where x: "(EdgeKey e, x) \<in> set (TScan T s EdgePrefix)" by auto
    then obtain w where w: "x = Inr w" using edges_of_type_rows [OF assms(1)] by blast
    then have "content s (EdgeKey e) = Some w" using scan_value [OF assms(2)] x by simp
    with x v w show "(EdgeKey e, Inr v) \<in> set (TScan T s EdgePrefix)" by simp
  qed (rule scan_value [OF assms(2)])
  then show ?thesis unfolding edges_of_type_set [OF assms(1)] by (auto simp: edges_def split: option.splits sum.splits)
qed

end

definition r_partial :: "(bytes \<rightharpoonup> bytes) \<Rightarrow> (bytes \<rightharpoonup> bytes) \<Rightarrow> u32 \<Rightarrow> u32 \<Rightarrow> u64 set \<Rightarrow> bool" where
  "r_partial m0 m t k N \<longleftrightarrow> (\<forall>t' k' v e. IsIndexable v \<longrightarrow> (m (r_key t' k' v e) \<noteq> None \<longleftrightarrow>
     (t', k', v) \<in> edge_entries m0 e \<and> (m0 (relIndexKey t' k') \<noteq> None \<or> t' = t \<and> k' = k \<and> e \<in> N)))"

lemma r_partial_upd:
  assumes "r_partial m0 m t k N" "(t, k, v) \<in> edge_entries m0 e" "IsIndexable v"
    "\<And>v'. (t, k, v') \<in> edge_entries m0 e \<Longrightarrow> v' = v"
  shows "r_partial m0 (m(r_key t k v e \<mapsto> x)) t k (insert e N)"
  unfolding r_partial_def
proof (intro allI impI)
  fix t' k' v' e'
  assume v': "IsIndexable v'"
  have old: "m (r_key t' k' v' e') \<noteq> None \<longleftrightarrow>
     (t', k', v') \<in> edge_entries m0 e' \<and> (m0 (relIndexKey t' k') \<noteq> None \<or> t' = t \<and> k' = k \<and> e' \<in> N)"
    using assms(1) v' unfolding r_partial_def by blast
  show "(m(r_key t k v e \<mapsto> x)) (r_key t' k' v' e') \<noteq> None \<longleftrightarrow>
     (t', k', v') \<in> edge_entries m0 e' \<and> (m0 (relIndexKey t' k') \<noteq> None \<or> t' = t \<and> k' = k \<and> e' \<in> insert e N)"
  proof (cases "t' = t \<and> k' = k \<and> v' = v \<and> e' = e")
    case True
    then show ?thesis using assms(2) by simp
  next
    case False
    then have "(m(r_key t k v e \<mapsto> x)) (r_key t' k' v' e') = m (r_key t' k' v' e')" using assms(3) v' by auto
    moreover have "\<not> ((t', k', v') \<in> edge_entries m0 e' \<and> t' = t \<and> k' = k \<and> e' = e)" using False assms(4) by blast
    ultimately show ?thesis using old by (simp only: insert_iff) blast
  qed
qed

lemma r_partial_skip:
  "r_partial m0 m t k N \<Longrightarrow> (\<And>v. (t, k, v) \<notin> edge_entries m0 e) \<Longrightarrow> r_partial m0 m t k (insert e N)"
  unfolding r_partial_def by auto

lemma edge_entries_iff:
  "(t, k, v) \<in> edge_entries m e \<longleftrightarrow> (\<exists>r. edges m e = Some r \<and> EType r = t \<and> map_of (EProps r) k = Some v \<and> IsIndexable v)"
  by (auto simp: edge_entries_def prop_entries_def split: option.splits)

context txn_store
begin

text \<open>Filling the index on a type and a key, edge by edge.\<close>

lemma rel_fill_step:
  assumes r: "runs (case map_of (EProps r) k of None \<Rightarrow> ret () | Some v \<Rightarrow>
        if \<not> IsIndexable v then ret () else bnd (liftR (RelPropKey t k v e)) (\<lambda>x. TSet T x [])) s u s'"
    and e: "edges m0 e = Some r" "EType r = t" and h: "usable s" "rows_ok (content s)" "r_partial m0 (content s) t k N"
  shows "usable s' \<and> only_in {0x72} (content s) (content s') \<and> rows_ok (content s') \<and> r_partial m0 (content s') t k (insert e N)"
proof (cases "\<exists>v. map_of (EProps r) k = Some v \<and> IsIndexable v")
  case True
  then obtain v where v: "map_of (EProps r) k = Some v" "IsIndexable v" by blast
  then have "runs (TSet T (r_key t k v e) []) s u s'" using r by (auto simp: runs_simps RelPropKey_eq)
  then have c: "usable s'" "content s' = (content s)(r_key t k v e \<mapsto> [])" using runs_TSet h(1) by auto
  have "r_partial m0 (content s') t k (insert e N)" unfolding c(2)
    by (rule r_partial_upd [OF h(3)]) (use e v in \<open>auto simp: edge_entries_iff\<close>)
  moreover have "only_in {0x72} (content s) (content s')" unfolding c(2) by (rule only_in_upd) simp
  moreover have "rows_ok (content s')" unfolding c(2) using h(2) v by (intro rows_ok_upd) auto
  ultimately show ?thesis using c(1) by simp
next
  case False
  then have "s' = s" using r by (auto split: option.splits if_splits)
  moreover have "r_partial m0 (content s) t k (insert e N)"
    by (rule r_partial_skip [OF h(3)]) (use False e in \<open>auto simp: edge_entries_iff\<close>)
  ultimately show ?thesis using h by simp
qed

lemma BuildRelIndex_ok:
  assumes "runs (BuildRelIndex T t k name) s u s'" "usable s" "consistent (content s)"
  shows "usable s' \<and> consistent (content s') \<and> graph_of (content s') = graph_of (content s) \<and> content s' (relIndexKey t k) = Some name"
proof -
  let ?b = "\<lambda>e. case map_of (EProps (ERec e)) k of None \<Rightarrow> ret () | Some v \<Rightarrow>
        if \<not> IsIndexable v then ret () else bnd (liftR (RelPropKey t k v (EID e))) (\<lambda>x. TSet T x [])"
  from assms(1) obtain s1 s2 es where f: "runs (RequireRelIndexFormat T) s () s1" and a: "runs (AddRelIndex T t k name) s1 () s2"
    and es: "edges_of_type t (TScan T s2 EdgePrefix) = Inr es" and loop: "runs (each ?b es) s2 u s'"
    unfolding BuildRelIndex_def ScanEdgesOfType_def by (auto simp: runs_bnd runs_seqA)
  note c1 = format_consistent [OF f [unfolded RequireRelIndexFormat_def] assms(2,3)]
  let ?m = "content s1" and ?m2 = "(content s1)(relIndexKey t k \<mapsto> name)"
  have s2: "usable s2" "content s2 = ?m2" using runs_TSet [OF a [unfolded AddRelIndex_def]] c1 by auto
  have o1: "only_in {0x59} ?m ?m2" by (rule only_in_upd) simp
  have old: "rows_ok ?m" "r_ok ?m (edge_entries ?m)" "p_ok ?m (node_entries ?m)" "u_ok ?m (node_entries ?m)" "c_ok ?m"
    using c1 by (simp_all add: consistent_def tables_ok_def)
  have "usable s' \<and> only_in {0x72} ?m2 (content s') \<and> rows_ok (content s') \<and> r_partial ?m (content s') t k (EID ` set es)"
    using loop
  proof (rule each_prefix)
    show "usable s2 \<and> only_in {0x72} ?m2 (content s2) \<and> rows_ok (content s2) \<and> r_partial ?m (content s2) t k (EID ` set [])"
      using s2 old by (auto simp: r_partial_def r_ok_def key_simps)
  next
    fix ys e zs t1 t2
    assume h: "usable t1 \<and> only_in {0x72} ?m2 (content t1) \<and> rows_ok (content t1) \<and> r_partial ?m (content t1) t k (EID ` set ys)"
      and r: "runs (?b e) t1 () t2" and e: "es = ys @ e # zs"
    have "\<lparr>EID = EID e, ERec = ERec e\<rparr> \<in> set es" using e by simp
    then have "edges ?m (EID e) = Some (ERec e) \<and> EType (ERec e) = t"
      using scan_edges_content [OF es s2(1)] frame_records(2) [OF o1] by (simp add: s2(2))
    then have "usable t2 \<and> only_in {0x72} (content t1) (content t2) \<and> rows_ok (content t2) \<and> r_partial ?m (content t2) t k (insert (EID e) (EID ` set ys))"
      by (intro rel_fill_step [OF r]) (use h in simp_all)
    then show "usable t2 \<and> only_in {0x72} ?m2 (content t2) \<and> rows_ok (content t2) \<and> r_partial ?m (content t2) t k (EID ` set (ys @ [e]))"
      using h only_in_trans [of "{0x72}" ?m2 "content t1" "content t2"] by simp
  qed
  note p = this
  then have o2: "only_in {0x72} ?m2 (content s')" by simp
  have o3: "only_in {0x59, 0x72} ?m (content s')" using only_in_chain [OF o1 o2] by (simp add: insert_commute)
  have o: "only_in {0x70, 0x75, 0x72, 0x58, 0x55, 0x59, 0x46} ?m (content s')" using only_in_mono [OF o3] by auto
  have ix: "content s' (relIndexKey t' k') = ?m2 (relIndexKey t' k')" for t' k' using only_inD [OF o2] by simp
  have all: "(t, k', v) \<in> edge_entries ?m e \<Longrightarrow> e \<in> EID ` set es" for k' v e
    using scan_edges_content [OF es s2(1), of e] frame_records(2) [OF o1] by (force simp: edge_entries_iff s2(2))
  have "r_ok (content s') (edge_entries ?m)"
    using p all unfolding r_partial_def r_ok_def ix by (auto simp: key_simps)
  moreover have "entries_ok (content s') (node_entries ?m)" using frame_tables(2-4) [OF o3] old p by (simp add: entries_ok_def)
  moreover have "consistent ?m" using c1 by simp
  ultimately show ?thesis using index_step [OF _ o] c1 p ix [of t k] by simp
qed

lemma DropRelIndexEntries_ok:
  assumes "runs (DropRelIndexEntries T t k) s u s'" "usable s" "consistent (content s)"
  shows "usable s' \<and> consistent (content s') \<and> graph_of (content s') = graph_of (content s) \<and> content s' (relIndexKey t k) = None"
proof -
  from assms(1) obtain s1 where a: "runs (deletePrefix T (RelPropIndexPrefix t k)) s () s1" and b: "runs (RemoveRelIndex T t k) s1 u s'"
    by (auto simp: DropRelIndexEntries_def runs_simps)
  let ?m = "content s"
  have s1: "usable s1" "content s1 = (\<lambda>x. if prefix (RelPropIndexPrefix t k) x then None else ?m x)" using deletePrefix_content [OF a assms(2)] by auto
  have s': "usable s'" "content s' = (content s1)(relIndexKey t k := None)" using runs_TDelete [OF b [unfolded RemoveRelIndex_def] s1(1)] by auto
  have px: "prefix (RelPropIndexPrefix t k) x \<Longrightarrow> hd x = 0x72" for x using prefix_hd [of "RelPropIndexPrefix t k" x] by simp
  have o3: "only_in {0x59, 0x72} ?m (content s')" unfolding s'(2) s1(2) using px by (auto simp: only_in_def)
  have o: "only_in {0x70, 0x75, 0x72, 0x58, 0x55, 0x59, 0x46} ?m (content s')" using only_in_mono [OF o3] by auto
  have old: "p_ok ?m (node_entries ?m)" "u_ok ?m (node_entries ?m)" "c_ok ?m" "rows_ok ?m" "r_ok ?m (edge_entries ?m)"
    using assms(3) by (simp_all add: consistent_def tables_ok_def)
  have ix: "content s' (relIndexKey t' k') = (if t' = t \<and> k' = k then None else ?m (relIndexKey t' k'))" for t' k'
    using px [of "relIndexKey t' k'"] by (auto simp: s'(2) s1(2))
  have rk: "IsIndexable v \<Longrightarrow> content s' (r_key t' k' v e) = (if t' = t \<and> k' = k then None else ?m (r_key t' k' v e))" for t' k' v e
    by (auto simp: s'(2) s1(2) key_simps)
  have "r_ok (content s') (edge_entries ?m)" using old(5) by (auto simp: r_ok_def rk ix)
  moreover have "rows_ok (content s')" using old(4) by (auto simp: rows_ok_def s'(2) s1(2) split: if_splits)
  moreover have "p_ok (content s') (node_entries ?m)" "u_ok (content s') (node_entries ?m)" "c_ok (content s')"
    using frame_tables(2-4) [OF o3] old by simp_all
  ultimately show ?thesis using index_step [OF assms(3) o] s'(1) ix [of t k] by (simp add: entries_ok_def)
qed

end

end
