(* ===== verification/Graph_Mutate.thy ===== *)
theory Graph_Mutate
  imports Graph_Index
begin

text \<open>
  The calls of \<^verbatim>\<open>internal/graph/crud.go\<close> as one datatype of mutations, the specification of each as a step of
  the abstract graph, and the frame: what no mutation touches. The main lemma runs a sequence of
  mutations and gives the invariant and the simulation together.
\<close>

section \<open>What an operation keeps\<close>

text \<open>
  \<open>R\<close> relates the content before a run with the content after it. When \<open>R\<close> is reflexive and
  transitive, a run stays within \<open>R\<close> as soon as its single writes do; the rules follow the structure
  of the operations.
\<close>

named_theorems within_rules \<open>rules for actions whose runs stay within a relation\<close>

definition chain :: "((bytes \<rightharpoonup> bytes) \<Rightarrow> (bytes \<rightharpoonup> bytes) \<Rightarrow> bool) \<Rightarrow> bool" where
  "chain R \<longleftrightarrow> (\<forall>m. R m m) \<and> (\<forall>m m' m''. R m m' \<longrightarrow> R m' m'' \<longrightarrow> R m m'')"

lemma chainD: "chain R \<Longrightarrow> R m m" "chain R \<Longrightarrow> R m m' \<Longrightarrow> R m' m'' \<Longrightarrow> R m m''"
  unfolding chain_def by blast+

text \<open>Writes to the tables of the graph stay within \<open>R\<close>.\<close>

definition free_tables :: "((bytes \<rightharpoonup> bytes) \<Rightarrow> (bytes \<rightharpoonup> bytes) \<Rightarrow> bool) \<Rightarrow> bool" where
  "free_tables R \<longleftrightarrow> (\<forall>m k x. hd k \<in> {0x6E, 0x65, 0x6F, 0x69, 0x6C, 0x70, 0x75, 0x72} \<longrightarrow> R m (m(k := x)))"

lemma free_tablesD:
  "free_tables R \<Longrightarrow> hd k \<in> {0x6E, 0x65, 0x6F, 0x69, 0x6C, 0x70, 0x75, 0x72} \<Longrightarrow> R m (m(k := x))"
  unfolding free_tables_def by blast

context txn_store
begin

definition within :: "((bytes \<rightharpoonup> bytes) \<Rightarrow> (bytes \<rightharpoonup> bytes) \<Rightarrow> bool) \<Rightarrow> ('s, 'x) act \<Rightarrow> bool" where
  "within R m \<longleftrightarrow> (\<forall>s x s'. usable s \<longrightarrow> runs m s x s' \<longrightarrow> usable s' \<and> R (content s) (content s'))"

lemma within_basic [within_rules]:
  "chain R \<Longrightarrow> within R (ret x)" "within R (throw e)" "chain R \<Longrightarrow> within R (reads f)" "chain R \<Longrightarrow> within R (liftR r)"
  by (auto simp: within_def dest: chainD)

lemma within_bnd [within_rules]: "chain R \<Longrightarrow> within R m \<Longrightarrow> (\<And>x. within R (f x)) \<Longrightarrow> within R (bnd m f)"
  unfolding within_def runs_bnd by (meson chainD(2))

lemma within_seqA [within_rules]: "chain R \<Longrightarrow> within R m \<Longrightarrow> within R n \<Longrightarrow> within R (seqA m n)"
  unfolding seqA_def by (rule within_bnd)

lemma within_liftR: "(\<And>x. r = Inr x \<Longrightarrow> within R (f x)) \<Longrightarrow> within R (bnd (liftR r) f)"
  unfolding within_def runs_bnd runs_liftR by blast

lemma within_each [within_rules]: "chain R \<Longrightarrow> (\<And>x. within R (f x)) \<Longrightarrow> within R (each f xs)"
  by (induction xs) (auto intro!: within_rules)

lemma within_TSet [within_rules]: "(\<And>m. R m (m(k \<mapsto> v))) \<Longrightarrow> within R (TSet T k v)"
  unfolding within_def using runs_TSet by fastforce

lemma within_TDelete [within_rules]: "(\<And>m. R m (m(k := None))) \<Longrightarrow> within R (TDelete T k)"
  unfolding within_def using runs_TDelete by fastforce

lemma within_if [within_rules]: "within R m \<Longrightarrow> within R n \<Longrightarrow> within R (if b then m else n)"
  by simp

lemma within_option [within_rules]: "within R m \<Longrightarrow> (\<And>x. within R (f x)) \<Longrightarrow> within R (case r of None \<Rightarrow> m | Some x \<Rightarrow> f x)"
  by (cases r) auto

lemma within_prod [within_rules]: "(\<And>x y. within R (f x y)) \<Longrightarrow> within R (case p of (x, y) \<Rightarrow> f x y)"
  by (cases p) auto

lemma withinD: "within R m \<Longrightarrow> runs m s x s' \<Longrightarrow> usable s \<Longrightarrow> R (content s) (content s')"
  unfolding within_def by blast

text \<open>The parts of the mutations.\<close>

lemma within_entries [within_rules]:
  assumes "chain R" "free_tables R"
  shows "within R (putPropEntry T l p v n)" "within R (delPropEntry T l p v n)"
    "within R (putRelPropEntry T l p v n)" "within R (delRelPropEntry T l p v n)"
  unfolding putPropEntry_def delPropEntry_def claimValue_def violation_def putRelPropEntry_def delRelPropEntry_def
  by (auto intro!: within_liftR within_rules assms(1) free_tablesD [OF assms(2)] simp: PropKey_eq UniqueKey_eq RelPropKey_eq split: if_splits)

definition within_interning :: "((bytes \<rightharpoonup> bytes) \<Rightarrow> (bytes \<rightharpoonup> bytes) \<Rightarrow> bool) \<Rightarrow> bool" where
  "within_interning R \<longleftrightarrow> (\<forall>name. within R (InternLabel T name) \<and> within R (InternType T name) \<and> within R (InternKey T name))"

lemma within_intern [within_rules]:
  assumes "within_interning R"
  shows "within R (InternLabel T name)" "within R (InternType T name)" "within R (InternKey T name)"
  using assms unfolding within_interning_def by blast+

lemma within_intern_lists [within_rules]:
  assumes "chain R" "free_tables R" "within_interning R"
  shows "within R (intern_labels T names ids)" "within R (add_labels T names ex ad)" "within R (intern_props T ps acc)"
    "within R (intern_desired T ps des)" "within R (merge_props T n ls ds props)"
proof -
  note [within_rules] = assms free_tablesD [OF assms(2)]
  show "within R (intern_labels T names ids)" by (induction names arbitrary: ids) (auto intro!: within_rules)
  show "within R (add_labels T names ex ad)" by (induction names arbitrary: ex ad) (auto intro!: within_rules)
  show "within R (intern_props T ps acc)" by (induction ps arbitrary: acc) (auto intro!: within_rules)
  show "within R (intern_desired T ps des)" by (induction ps arbitrary: des) (auto intro!: within_rules)
  show "within R (merge_props T n ls ds props)" by (induction ds arbitrary: props) (auto intro!: within_rules)
qed

end

section \<open>Two relations that mutations stay within\<close>

text \<open>The rows that are neither in a table of the graph nor in a dictionary (the registries, the format
  marker, the counters of nodes and edges) stay the same, and names keep their identifiers.\<close>

definition apart :: "bytes \<Rightarrow> bool" where
  "apart k \<longleftrightarrow> hd k \<notin> {0x6E, 0x65, 0x6F, 0x69, 0x6C, 0x70, 0x75, 0x72, 0x4C, 0x54, 0x4B, 0x52} \<and>
     k \<notin> counterKey ` {kindLabel, kindType, kindKey}"

lemma apart_simps [simp]:
  "apart (counterKey 0x6E)" "apart (counterKey 0x65)" "apart (indexKey l p)" "apart (constraintKey l p)"
  "apart (relIndexKey l p)" "apart formatKey"
  by (auto simp: apart_def dest: arg_cong [where f = hd])

definition same_row :: "bytes \<Rightarrow> (bytes \<rightharpoonup> bytes) \<Rightarrow> (bytes \<rightharpoonup> bytes) \<Rightarrow> bool" where
  "same_row k m m' \<longleftrightarrow> m' k = m k"

definition names_kept :: "(bytes \<rightharpoonup> bytes) \<Rightarrow> (bytes \<rightharpoonup> bytes) \<Rightarrow> bool" where
  "names_kept m m' \<longleftrightarrow> (dicts_ok m \<longrightarrow> dicts_ok m' \<and> dict_le m m')"

lemma dict_le_trans: "dict_le m m' \<Longrightarrow> dict_le m' m'' \<Longrightarrow> dict_le m m''"
  unfolding dict_le_def by metis

lemma chains: "chain (same_row k)" "chain names_kept"
  by (auto simp: chain_def same_row_def names_kept_def dict_le_refl intro: dict_le_trans)

lemma dict_same:
  assumes "\<And>k. hd k \<in> {0x4C, 0x54, 0x4B, 0x52} \<Longrightarrow> m' k = m k" "\<And>kind. kind \<in> {kindLabel, kindType, kindKey} \<Longrightarrow> m' (counterKey kind) = m (counterKey kind)"
  shows "names_kept m m'"
proof -
  have "is_dict tag kind \<Longrightarrow> dict_ok m tag kind \<Longrightarrow> dict_ok m' tag kind" for tag kind
    using assms by (auto simp: dict_ok_def counter_ok_def counter_def is_dict_def)
  moreover have "dict_le m m'" unfolding dict_le_def using assms(1) by (auto simp: is_dict_def)
  ultimately show ?thesis using dict_names unfolding names_kept_def dicts_ok_def by blast
qed

lemma names_kept_upd: "hd k \<notin> {0x4C, 0x54, 0x4B, 0x52} \<Longrightarrow> k \<notin> counterKey ` {kindLabel, kindType, kindKey} \<Longrightarrow> names_kept m (m(k := x))"
  by (rule dict_same) auto

lemma free_relations: "apart k \<Longrightarrow> free_tables (same_row k)" "free_tables names_kept"
  unfolding free_tables_def by (auto simp: same_row_def apart_def intro!: names_kept_upd dest: arg_cong [where f = hd])

context txn_store
begin

lemma within_relations: "apart k \<Longrightarrow> within_interning (same_row k)" "within_interning names_kept"
proof -
  show "within_interning (same_row k)" if "apart k"
    unfolding within_interning_def InternLabel_def InternType_def InternKey_def internDict_def nextCounter_def Let_def
    using that by (auto intro!: within_rules chains simp: apart_def same_row_def)
  have "within names_kept (internDict T tag kind name)" if "is_dict tag kind" for tag kind name
    unfolding within_def names_kept_def using internDict_interns [OF _ _ _ that] runs_internDict(1)
    by (metis interns_def quiet_def)
  then show "within_interning names_kept"
    unfolding within_interning_def InternLabel_def InternType_def InternKey_def using dict_names by blast
qed

end

section \<open>Sequences of mutations\<close>

text \<open>The calls that change nodes and edges.\<close>

datatype mutation =
    MCreateNode "bytes list" "(bytes \<times> val) list"
  | MCreateEdge bytes u64 u64 "(bytes \<times> val) list"
  | MSetProperty u64 bytes val
  | MRemoveProperty u64 bytes
  | MSetNodeProperties u64 "(bytes \<times> val) list" bool
  | MAddLabels u64 "bytes list"
  | MRemoveLabels u64 "bytes list"
  | MDeleteEdge u64
  | MDeleteNode u64
  | MDetachDeleteNode u64

fun mutate :: "'s Txn \<Rightarrow> mutation \<Rightarrow> ('s, unit) act" where
  "mutate T (MCreateNode labels props) = bnd (CreateNode T labels props) (\<lambda>_. ret ())"
| "mutate T (MCreateEdge typ src dst props) = bnd (CreateEdge T typ src dst props) (\<lambda>_. ret ())"
| "mutate T (MSetProperty n key v) = SetProperty T n key v"
| "mutate T (MRemoveProperty n key) = RemoveProperty T n key"
| "mutate T (MSetNodeProperties n props replace) = SetNodeProperties T n props replace"
| "mutate T (MAddLabels n labels) = AddLabels T n labels"
| "mutate T (MRemoveLabels n labels) = RemoveLabels T n labels"
| "mutate T (MDeleteEdge e) = DeleteEdge T e"
| "mutate T (MDeleteNode n) = DeleteNode T n"
| "mutate T (MDetachDeleteNode n) = DetachDeleteNode T n"

text \<open>Every row of the index registry is about a key with a name, and none is about this one.\<close>

definition unindexed :: "(bytes \<rightharpoonup> bytes) \<Rightarrow> bytes \<Rightarrow> bool" where
  "unindexed m key \<longleftrightarrow> (\<forall>l k. m (indexKey l k) \<noteq> None \<longrightarrow> (\<exists>name. m (revKey kindKey k) = Some name \<and> name \<noteq> key))"

text \<open>Arguments the operations are made for, in a database with these rows: property maps with distinct keys and
  values of the supported types. \<^verbatim>\<open>SetProperty\<close> is given null only for a key that has no index: for one that has,
  the call leaves a row of the index that stands for no property.\<close>

fun wf_mutation :: "(bytes \<rightharpoonup> bytes) \<Rightarrow> mutation \<Rightarrow> bool" where
  "wf_mutation m (MCreateNode labels props) = wf_args props"
| "wf_mutation m (MCreateEdge typ src dst props) = wf_args props"
| "wf_mutation m (MSetProperty n key v) = (wf_val v \<and> (v = VNull \<longrightarrow> unindexed m key))"
| "wf_mutation m (MSetNodeProperties n props replace) = wf_args props"
| "wf_mutation m _ = True"

text \<open>The specification: what each mutation does to the abstract graph, and when it may.\<close>

inductive a_step :: "mutation \<Rightarrow> agraph \<Rightarrow> agraph \<Rightarrow> bool" where
  a_create_node: "ANodes G i = None \<Longrightarrow> a_step (MCreateNode labels props) G (a_CreateNode G i labels props)"
| a_create_edge: "AEdges G i = None \<Longrightarrow> ANodes G src \<noteq> None \<Longrightarrow> ANodes G dst \<noteq> None \<Longrightarrow>
    a_step (MCreateEdge typ src dst props) G (a_CreateEdge G i typ src dst props)"
| a_set_property: "ANodes G n \<noteq> None \<Longrightarrow> a_step (MSetProperty n key v) G (a_SetProperty G n key v)"
| a_remove_property: "ANodes G n \<noteq> None \<Longrightarrow> a_step (MRemoveProperty n key) G (a_RemoveProperty G n key)"
| a_set_properties: "ANodes G n \<noteq> None \<Longrightarrow> a_step (MSetNodeProperties n props replace) G (a_SetNodeProperties G n props replace)"
| a_add_labels: "ANodes G n \<noteq> None \<or> labels = [] \<Longrightarrow> a_step (MAddLabels n labels) G (a_AddLabels G n labels)"
| a_remove_labels: "ANodes G n \<noteq> None \<or> labels = [] \<Longrightarrow> a_step (MRemoveLabels n labels) G (a_RemoveLabels G n labels)"
| a_delete_edge: "AEdges G e \<noteq> None \<Longrightarrow> a_step (MDeleteEdge e) G (a_DeleteEdge G e)"
| a_delete_node: "ANodes G n \<noteq> None \<Longrightarrow> (\<And>e a. AEdges G e = Some a \<Longrightarrow> ASrc a \<noteq> n \<and> ADst a \<noteq> n) \<Longrightarrow>
    a_step (MDeleteNode n) G (a_DeleteNode G n)"
| a_detach_delete_node: "ANodes G n \<noteq> None \<Longrightarrow> a_step (MDetachDeleteNode n) G (a_DetachDeleteNode G n)"

inductive a_run :: "mutation list \<Rightarrow> agraph \<Rightarrow> agraph \<Rightarrow> bool" where
  a_done: "a_run [] G G"
| a_next: "a_step mu G G' \<Longrightarrow> a_run mus G' G'' \<Longrightarrow> a_run (mu # mus) G G''"

inductive_simps a_run_Cons: "a_run (mu # mus) G G'"
inductive_cases a_step_delete: "a_step (MDeleteNode n) G G'"

definition is_create :: "mutation \<Rightarrow> bool" where
  "is_create mu = (case mu of MCreateNode _ _ \<Rightarrow> True | MCreateEdge _ _ _ _ \<Rightarrow> True | _ \<Rightarrow> False)"

lemma is_create_simps [simp]:
  "is_create (MCreateNode ls ps)" "is_create (MCreateEdge ty a c ps)" "\<not> is_create (MSetProperty n key v)"
  "\<not> is_create (MRemoveProperty n key)" "\<not> is_create (MSetNodeProperties n ps rep)" "\<not> is_create (MAddLabels n ls)"
  "\<not> is_create (MRemoveLabels n ls)" "\<not> is_create (MDeleteEdge n)" "\<not> is_create (MDeleteNode n)"
  "\<not> is_create (MDetachDeleteNode n)"
  by (simp_all add: is_create_def)

text \<open>Identifiers for \<open>n\<close> more nodes and \<open>n\<close> more edges are left.\<close>

definition room :: "(bytes \<rightharpoonup> bytes) \<Rightarrow> nat \<Rightarrow> bool" where
  "room m n \<longleftrightarrow> unat (counter m kindNode) + n < 2 ^ 64 \<and> unat (counter m kindEdge) + n < 2 ^ 64"

lemma room_Suc:
  assumes "room m (Suc n)"
  shows "counter m kindNode \<noteq> - 1" "counter m kindEdge \<noteq> - 1"
    "counter m' kindNode \<in> {counter m kindNode, counter m kindNode + 1} \<Longrightarrow>
     counter m' kindEdge \<in> {counter m kindEdge, counter m kindEdge + 1} \<Longrightarrow> room m' n"
proof -
  have b: "x \<noteq> - 1" "unat (x + 1) = Suc (unat x)" if "unat x + Suc n < 2 ^ 64" for x :: u64
  proof -
    show "unat (x + 1) = Suc (unat x)" using that by (simp add: unat_word_ariths)
    then show "x \<noteq> - 1" by auto
  qed
  have r: "unat (counter m kindNode) + Suc n < 2 ^ 64" "unat (counter m kindEdge) + Suc n < 2 ^ 64" using assms unfolding room_def by auto
  show "counter m kindNode \<noteq> - 1" "counter m kindEdge \<noteq> - 1" using b(1) r by blast+
  show "counter m' kindNode \<in> {counter m kindNode, counter m kindNode + 1} \<Longrightarrow>
     counter m' kindEdge \<in> {counter m kindEdge, counter m kindEdge + 1} \<Longrightarrow> room m' n"
    unfolding room_def using b(2) [OF r(1)] b(2) [OF r(2)] r by auto
qed

lemma graph_of_None [simp]:
  "ANodes (graph_of m) n = None \<longleftrightarrow> nodes m n = None" "AEdges (graph_of m) e = None \<longleftrightarrow> edges m e = None"
  by (simp_all add: graph_of_def)

lemma graph_of_Some [simp]:
  "(\<exists>a. ANodes (graph_of m) n = Some a) \<longleftrightarrow> (\<exists>r. nodes m n = Some r)" "(\<exists>a. AEdges (graph_of m) e = Some a) \<longleftrightarrow> (\<exists>r. edges m e = Some r)"
  by (auto simp: graph_of_def)

lemma graph_of_edge: "AEdges (graph_of m) e = Some a \<longleftrightarrow> (\<exists>r. edges m e = Some r \<and> a = abs_edge m r)"
  by (auto simp: graph_of_def)

lemma abs_edge_ends [simp]: "ASrc (abs_edge m r) = Src r" "ADst (abs_edge m r) = Dst r"
  by (simp_all add: abs_edge_def)

context txn_store
begin

lemma within_mutate:
  assumes "chain R" "free_tables R" "within_interning R"
    "is_create mu \<Longrightarrow> (\<forall>m x. R m (m(counterKey kindNode := x))) \<and> (\<forall>m x. R m (m(counterKey kindEdge := x)))"
  shows "within R (mutate T mu)"
proof -
  note u = SetProperty_def RemoveProperty_def SetNodeProperties_def AddLabels_def RemoveLabels_def DeleteEdge_def
    DeleteNode_def DetachDeleteNode_def putNodeRecord_def delNodeIndexes_def CreateNode_def CreateEdge_def internProps_def
    NextNodeID_def NextEdgeID_def putNodeIndexes_def nextCounter_def Let_def
  note [within_rules] = assms(1-3)
  have [simp]: "R m (m(NodeKey i := x))" "R m (m(EdgeKey i := x))" "R m (m(OutKey i t j e := x))" "R m (m(InKey i t j e := x))"
    "R m (m(LabelKey l i := x))" for m i t j e l x
    by (auto intro!: free_tablesD [OF assms(2)])
  show ?thesis using assms(4) by (cases mu) (auto simp: u intro!: within_rules)
qed

lemma mutate_row:
  assumes "runs (mutate T mu) s u s'" "usable s" "apart k" "is_create mu \<Longrightarrow> hd k \<noteq> 0x63"
  shows "content s' k = content s k"
proof -
  have "within (same_row k) (mutate T mu)"
    by (intro within_mutate chains free_relations within_relations assms(3)) (use assms(4) in \<open>auto simp: same_row_def\<close>)
  from withinD [OF this assms(1,2)] show ?thesis by (simp add: same_row_def)
qed

lemma mutate_names:
  assumes "runs (mutate T mu) s u s'" "usable s" "dicts_ok (content s)"
  shows "dict_le (content s) (content s')"
proof -
  have "names_kept m (m(counterKey kindNode := x))" "names_kept m (m(counterKey kindEdge := x))" for m x
    by (auto intro!: names_kept_upd)
  then have "within names_kept (mutate T mu)"
    by (intro within_mutate chains free_relations within_relations) auto
  from withinD [OF this assms(1,2)] assms(3) show ?thesis by (simp add: names_kept_def)
qed

lemma mutate_exists:
  assumes "runs (mutate T mu) s u s'" "usable s"
  shows "mu = MSetProperty n key v \<or> mu = MRemoveProperty n key \<or> mu = MSetNodeProperties n props replace \<or>
    (mu = MAddLabels n labels \<or> mu = MRemoveLabels n labels) \<and> labels \<noteq> [] \<Longrightarrow> nodes (content s) n \<noteq> None"
  using assms GetNode_content [of n s]
  by (auto simp: SetProperty_def RemoveProperty_def SetNodeProperties_def AddLabels_def RemoveLabels_def runs_bnd runs_seqA)

lemma wf_mutation_kept:
  assumes "runs (mutate T mu) s u s'" "usable s" "dicts_ok (content s)" "wf_mutation (content s) mu'"
  shows "wf_mutation (content s') mu'"
proof -
  have "content s' (indexKey l k) = content s (indexKey l k)" for l k using mutate_row [OF assms(1,2), of "indexKey l k"] by simp
  moreover have "content s' (revKey kindKey k) = Some name" if "content s (revKey kindKey k) = Some name" for k name
    using that mutate_names [OF assms(1-3)] dict_names(3) unfolding dict_le_def by blast
  ultimately have "unindexed (content s) key \<Longrightarrow> unindexed (content s') key" for key
    unfolding unindexed_def by metis
  with assms(4) show ?thesis by (cases mu') auto
qed

lemma SetProperty_unindexed:
  assumes "runs (SetProperty T n key VNull) s u s'" "usable s" "consistent (content s)" "unindexed (content s) key"
  shows "usable s' \<and> consistent (content s') \<and> graph_of (content s') = a_SetProperty (graph_of (content s)) n key VNull"
  using assms(1-3)
proof (rule SetProperty_null)
  fix r k
  assume name: "\<And>name. content s (revKey kindKey k) = Some name \<Longrightarrow> name = key"
    and ok: "\<forall>l \<in> set (Labels r). content s (indexKey l k) = None \<Longrightarrow> ?thesis"
  have "content s (indexKey l k) = None" for l using assms(4) name unfolding unindexed_def by blast
  then show ?thesis using ok by blast
qed

lemma mutate_ok:
  assumes r: "runs (mutate T mu) s u s'" and u: "usable s" and c: "consistent (content s)" and w: "wf_mutation (content s) mu"
    and room: "room (content s) (Suc n)"
  shows "usable s' \<and> consistent (content s') \<and> room (content s') n \<and> a_step mu (graph_of (content s)) (graph_of (content s'))"
proof -
  note rs = room_Suc [OF room]
  have keep: "room (content s') n" if "\<not> is_create mu"
    using rs(3) that mutate_row [OF r u] by (simp add: counter_def)
  note ex = mutate_exists [OF r u]
  show ?thesis
  proof (cases mu)
    case (MCreateNode labels props)
    then obtain i where "runs (CreateNode T labels props) s i s'" using r by (auto simp: runs_bnd)
    from CreateNode_ok [OF this u c rs(1)] w MCreateNode rs(3) show ?thesis by (auto intro!: a_create_node)
  next
    case (MCreateEdge ty src dst props)
    then obtain i where "runs (CreateEdge T ty src dst props) s i s'" using r by (auto simp: runs_bnd)
    from CreateEdge_ok [OF this u c rs(2)] w MCreateEdge rs(3) show ?thesis by (auto intro!: a_create_edge)
  next
    case (MSetProperty i key v)
    then show ?thesis
      using SetProperty_ok [of i key v s u s'] SetProperty_unindexed [of i key s u s'] r u c w keep ex [of i key v]
      by (cases "v = VNull") (auto intro!: a_set_property)
  next
    case (MRemoveProperty i key)
    then show ?thesis using RemoveProperty_ok [of i key s u s'] r u c keep ex [of i key] by (auto intro!: a_remove_property)
  next
    case (MSetNodeProperties i props replace)
    then show ?thesis using SetNodeProperties_ok [of i props replace s u s'] r u c w keep ex [of i _ _ props replace] by (auto intro!: a_set_properties)
  next
    case (MAddLabels i labels)
    then show ?thesis using AddLabels_ok [of i labels s u s'] r u c keep ex [of i _ _ _ _ labels] by (auto intro!: a_add_labels)
  next
    case (MRemoveLabels i labels)
    then show ?thesis using RemoveLabels_ok [of i labels s u s'] r u c keep ex [of i _ _ _ _ labels] by (auto intro!: a_remove_labels)
  next
    case (MDeleteEdge e)
    then show ?thesis using DeleteEdge_ok [of e s u s'] r u c keep by (auto intro!: a_delete_edge)
  next
    case (MDeleteNode i)
    then show ?thesis using DeleteNode_ok [of i s u s'] r u c keep by (auto intro!: a_delete_node simp: graph_of_edge; blast)
  next
    case (MDetachDeleteNode i)
    then show ?thesis using DetachDeleteNode_ok [of i s u s'] r u c keep by (auto intro!: a_detach_delete_node)
  qed
qed

lemma mutations_ok:
  assumes "runs (each (mutate T) mus) s u s'" "usable s" "consistent (content s)" "\<forall>mu \<in> set mus. wf_mutation (content s) mu"
    "room (content s) (length mus)"
  shows "usable s' \<and> consistent (content s') \<and> a_run mus (graph_of (content s)) (graph_of (content s'))"
  using assms
proof (induction mus arbitrary: s)
  case (Cons mu mus)
  then obtain t where t: "runs (mutate T mu) s () t" "runs (each (mutate T) mus) t u s'" by (auto simp: runs_seqA)
  have "\<forall>mu \<in> set mus. wf_mutation (content t) mu"
    using wf_mutation_kept [OF t(1) Cons.prems(2) consistentD(3) [OF Cons.prems(3)]] Cons.prems(4) by simp
  with t show ?case using mutate_ok [OF t(1) Cons.prems(2,3)] Cons.prems(4,5) Cons.IH [OF t(2)] by (auto intro: a_next)
qed (auto intro: a_done)

end

end
