(* ===== verification/Graph_Spec.thy ===== *)
theory Graph_Spec
  imports Graph_Mutate
begin

text \<open>
  What the graph layer promises: the invariant and the refinement over sequences of mutations, unique
  constraints, refusals, and progress on an engine that does not fail.
\<close>


section \<open>Unique constraints\<close>

text \<open>The integers that convert to a float without rounding, among them all up to $2^{53}$.\<close>

definition exact_num :: "val \<Rightarrow> bool" where
  "exact_num v = (case v of VInt x \<Rightarrow> f_num (f_of_int (sint x)) = sint x * f_unit | _ \<Rightarrow> True)"

lemma exact_num_small: "\<bar>sint x\<bar> \<le> maxExactInt \<Longrightarrow> exact_num (VInt x)"
  by (simp add: exact_num_def maxExactInt_def f_of_int_exact)

lemma int64_of_float_iff:
  assumes "f_integral f" "- (2 ^ 63) * f_unit \<le> f_num f" "f_num f < 2 ^ 63 * f_unit"
  shows "int64_of_float f = x \<longleftrightarrow> sint x * f_unit = f_num f"
  using int64_of_float_exact [OF assms] sint_eq_iff [of "int64_of_float f" x] by (metis f_unit_pos(2) mult_right_cancel)

lemma integral_in_range:
  assumes "sint (x :: i64) * f_unit = f_num f" "\<not> f_isNaN f"
  shows "f_integral f" "- (2 ^ 63) * f_unit \<le> f_num f" "f_num f < 2 ^ 63 * f_unit"
proof -
  show "f_integral f" using assms by (metis f_integral_def mod_mult_self2_is_0)
  have "- (2 ^ 63) * f_unit \<le> sint x * f_unit" "sint x * f_unit < 2 ^ 63 * f_unit"
    using sint_i64_bounds(1,2) [of x] by (intro mult_right_mono mult_strict_right_mono; simp)+
  with assms(1) show "- (2 ^ 63) * f_unit \<le> f_num f" "f_num f < 2 ^ 63 * f_unit" by simp_all
qed

lemma f_isNaN_of_sint: "\<not> f_isNaN (f_of_int (sint (x :: i64)))"
  using sint_i64_bounds [of x] by (intro f_num_of_int(2)) auto

lemma uniqueValue_float_int: "uniqueValue (VFloat f) = Some (VInt x) \<longleftrightarrow> \<not> f_isNaN f \<and> sint x * f_unit = f_num f"
  using int64_of_float_iff [of f x] integral_in_range [of x f] by (auto simp: uniqueValue_def)

lemma uniqueValue_int_float:
  assumes "exact_num (VInt x)"
  shows "uniqueValue (VFloat f) = Some (VInt x) \<longleftrightarrow> f_eq (f_of_int (sint x)) f"
  using assms f_isNaN_of_sint [of x] by (auto simp: uniqueValue_float_int exact_num_def f_eq_def)

lemma uniqueValue_floats:
  "(\<exists>c. uniqueValue (VFloat f) = Some c \<and> uniqueValue (VFloat g) = Some c) \<longleftrightarrow> f_eq f g"
proof -
  have z: "f_integral a" "- (2 ^ 63) * f_unit \<le> f_num a" "f_num a < 2 ^ 63 * f_unit" if "f_num a = 0" "\<not> f_isNaN a" for a
    using integral_in_range [of 0 a] that by simp_all
  have "f = g \<or> f_num f = 0 \<and> f_num g = 0" if "f_num f = f_num g"
    using that f_num_eq_iff [of f g] f_abs_bits_0_iff f_num_0_iff by blast
  then show ?thesis
    using int64_of_float_exact [of f] int64_of_float_exact [of g] z [of f] z [of g] int64_of_float_iff [of f 0] int64_of_float_iff [of g 0]
    by (auto simp: uniqueValue_def f_eq_def)
qed

text \<open>Two values that a unique constraint compares as a query does: values of the indexed types other than null,
  where an integer that is compared with a float converts to one without rounding.\<close>

definition comparable :: "val \<Rightarrow> val \<Rightarrow> bool" where
  "comparable v w \<longleftrightarrow> IsIndexable v \<and> IsIndexable w \<and> v \<noteq> VNull \<and> w \<noteq> VNull \<and>
     (case (v, w) of (VInt x, VFloat f) \<Rightarrow> exact_num v | (VFloat f, VInt x) \<Rightarrow> exact_num w | _ \<Rightarrow> True)"

lemma uniqueValue_QueryEqual:
  assumes "comparable v w"
  shows "QueryEqual v w \<longleftrightarrow> (\<exists>c. uniqueValue v = Some c \<and> uniqueValue w = Some c)"
proof -
  have sym: "f_eq a b \<longleftrightarrow> f_eq b a" for a b by (auto simp: f_eq_def)
  have num: "uniqueValue (VFloat f) \<noteq> Some (VStr s)" "uniqueValue (VFloat f) \<noteq> Some (VBool p)" "uniqueValue (VFloat f) \<noteq> Some VNull" for f s p
    by (auto simp: uniqueValue_def)
  have id: "uniqueValue (VInt x) = Some (VInt x)" "uniqueValue (VStr s) = Some (VStr s)" "uniqueValue (VBool p) = Some (VBool p)" "uniqueValue VNull = Some VNull" for x s p
    by (simp_all add: uniqueValue_def)
  have fl: "\<exists>c. uniqueValue (VFloat f) = Some c \<and> uniqueValue (VFloat g) = Some c" if "f_eq f g" for f g using that uniqueValue_floats by blast
  have fl': "f_eq f g" if "uniqueValue (VFloat f) = Some c" "uniqueValue (VFloat g) = Some c" for f g c using that uniqueValue_floats by blast
  note n = uniqueValue_int_float
  have "IsIndexable v" "IsIndexable w" using assms by (simp_all add: comparable_def)
  then show ?thesis
    by (elim IsIndexable_cases)
      (use assms in \<open>auto simp: comparable_def id num n sym QueryEqual_def Values.normalize_def intro: fl fl'\<close>)
qed

section \<open>Uniqueness, refusals and progress\<close>

text \<open>A unique constraint on a label and a key, by their names, and what it promises.\<close>

definition declared :: "(bytes \<rightharpoonup> bytes) \<Rightarrow> bytes \<Rightarrow> bytes \<Rightarrow> bool" where
  "declared m label key \<longleftrightarrow>
     (\<exists>l k. m (revKey kindLabel l) = Some label \<and> m (revKey kindKey k) = Some key \<and> m (constraintKey l k) \<noteq> None)"

definition a_unique :: "agraph \<Rightarrow> bytes \<Rightarrow> bytes \<Rightarrow> bool" where
  "a_unique G label key \<longleftrightarrow>
     (\<forall>a b x y v w. ANodes G a = Some x \<and> ANodes G b = Some y \<and> label \<in> ALabels x \<and> label \<in> ALabels y \<and>
        AProps x key = Some v \<and> AProps y key = Some w \<and> comparable v w \<and> QueryEqual v w \<longrightarrow> a = b)"

lemma a_uniqueD:
  "a_unique G label key \<Longrightarrow> ANodes G a = Some x \<Longrightarrow> ANodes G b = Some y \<Longrightarrow> label \<in> ALabels x \<Longrightarrow> label \<in> ALabels y \<Longrightarrow>
    AProps x key = Some v \<Longrightarrow> AProps y key = Some w \<Longrightarrow> comparable v w \<Longrightarrow> QueryEqual v w \<Longrightarrow> a = b"
  unfolding a_unique_def by blast

lemma dicts_of_consistent: "consistent m \<Longrightarrow> dicts_ok m"
  by (simp add: consistent_def records_ok_def)

lemma holder_row:
  assumes "consistent m" "m (revKey kindLabel l) = Some label" "m (revKey kindKey k) = Some key" "m (constraintKey l k) \<noteq> None"
    "ANodes (graph_of m) a = Some x" "label \<in> ALabels x" "AProps x key = Some v" "IsIndexable v" "uniqueValue v = Some c"
  shows "m (u_key l k c) = Some (PutUint64 a)"
proof -
  note d = dicts_of_consistent [OF assms(1)]
  obtain r where r: "nodes m a = Some r" "x = abs_node m r" using assms(5) by (auto simp: graph_of_def)
  have inj: "i = j" if "m (revKey kind i) = Some nm" "m (revKey kind j) = Some nm" "is_dict tag kind" for tag kind i j nm
    using that(1,2) unfolding dict_iff [OF d that(3), symmetric] by simp
  obtain l' where l': "l' \<in> set (Labels r)" "m (revKey kindLabel l') = Some label"
    using assms(6) r(2) label_names_iff [OF d] by (auto simp: abs_node_def)
  obtain k' where k': "m (revKey kindKey k') = Some key" "map_of (Props r) k' = Some v"
    using assms(7) r(2) named_iff [OF d] by (auto simp: abs_node_def)
  have "l' = l" "k' = k" using inj l'(2) k'(1) assms(2,3) dict_names by blast+
  then have "(l, k, v) \<in> node_entries m a" using l' k' r assms(8) by (simp add: node_entries_def prop_entries_def)
  then have "holds_value (node_entries m) l k c a" unfolding holds_value_def using assms(8,9) by blast
  then show ?thesis using assms(1,4) uniqueValue_indexable [OF assms(8,9)] by (simp add: consistent_def tables_ok_def u_ok_def)
qed

lemma consistent_unique:
  assumes "consistent m" "declared m label key"
  shows "a_unique (graph_of m) label key"
  unfolding a_unique_def
proof (intro allI impI, elim conjE)
  fix a b x y v w
  assume a: "ANodes (graph_of m) a = Some x" "label \<in> ALabels x" "AProps x key = Some v"
    and b: "ANodes (graph_of m) b = Some y" "label \<in> ALabels y" "AProps y key = Some w"
    and c: "comparable v w" and q: "QueryEqual v w"
  from assms(2) obtain l k where lk: "m (revKey kindLabel l) = Some label" "m (revKey kindKey k) = Some key" "m (constraintKey l k) \<noteq> None"
    unfolding declared_def by blast
  have i: "IsIndexable v" "IsIndexable w" using c by (simp_all add: comparable_def)
  from q c obtain u where u: "uniqueValue v = Some u" "uniqueValue w = Some u"
    using uniqueValue_QueryEqual by blast
  have "Some (PutUint64 a) = Some (PutUint64 b)"
    using holder_row [OF assms(1) lk a i(1) u(1)] holder_row [OF assms(1) lk b i(2) u(2)] by simp
  then show "a = b" by simp
qed

context txn_store
begin

lemma mutate_declared:
  assumes "runs (mutate T mu) s u s'" "usable s" "dicts_ok (content s)" "declared (content s) label key"
  shows "declared (content s') label key"
proof -
  have "content s (revKey kindLabel l) = Some label \<Longrightarrow> content s' (revKey kindLabel l) = Some label"
    "content s (revKey kindKey k) = Some key \<Longrightarrow> content s' (revKey kindKey k) = Some key" for l k
    using mutate_names [OF assms(1-3)] dict_names unfolding dict_le_def by blast+
  moreover have "content s' (constraintKey l k) = content s (constraintKey l k)" for l k
    by (rule mutate_row [OF assms(1,2)]) simp_all
  ultimately show ?thesis using assms(4) unfolding declared_def by metis
qed

lemma mutations_declared:
  assumes "runs (each (mutate T) mus) s u s'" "usable s" "consistent (content s)" "\<forall>mu \<in> set mus. wf_mutation (content s) mu"
    "room (content s) (length mus)" "declared (content s) label key"
  shows "declared (content s') label key"
  using assms
proof (induction mus arbitrary: s)
  case (Cons mu mus)
  then obtain t where t: "runs (mutate T mu) s () t" "runs (each (mutate T) mus) t u s'" by (auto simp: runs_seqA)
  have "declared (content t) label key"
    by (rule mutate_declared [OF t(1) Cons.prems(2) dicts_of_consistent [OF Cons.prems(3)] Cons.prems(6)])
  moreover have "\<forall>mu \<in> set mus. wf_mutation (content t) mu"
    using wf_mutation_kept [OF t(1) Cons.prems(2) consistentD(3) [OF Cons.prems(3)]] Cons.prems(4) by simp
  ultimately show ?case using mutate_ok [OF t(1) Cons.prems(2,3), of "length mus"] Cons.prems(4,5) Cons.IH [OF t(2)] by auto
qed auto

lemma SetProperty_refused:
  assumes "usable s" "consistent (content s)" "declared (content s) label key" "a \<noteq> b"
    "ANodes (graph_of (content s)) a = Some x" "label \<in> ALabels x" "AProps x key = Some v"
    "ANodes (graph_of (content s)) b = Some y" "label \<in> ALabels y"
    "comparable v w" "QueryEqual v w" "wf_val w"
  shows "\<not> runs (SetProperty T b key w) s u s'"
proof
  assume r: "runs (SetProperty T b key w) s u s'"
  have w: "w \<noteq> VNull" "canon w = w" using assms(10) by (auto simp: comparable_def IsIndexable_def split: val.splits)
  note ok = SetProperty_ok [OF r assms(1,2,12) w(1)]
  have "declared (content s') label key"
    using mutate_declared [of "MSetProperty b key w" s u s'] r assms(1,3) dicts_of_consistent [OF assms(2)] by simp
  from consistent_unique [OF _ this] ok have un: "a_unique (graph_of (content s')) label key" by simp
  have "a = b"
    by (rule a_uniqueD [OF un, of a x b "y\<lparr>AProps := (AProps y)(key \<mapsto> w)\<rparr>" v w])
      (use ok assms w in \<open>simp_all add: a_SetProperty_def a_update_node_def\<close>)
  with assms(4) show False ..
qed

end

section \<open>Progress on an engine that does not fail\<close>

lemma bnd_liftR_Inr [simp]: "bnd (liftR (Inr x)) f = f x"
  by (simp add: bnd_def liftR_def fun_eq_iff)

lemma rows_okD:
  assumes "rows_ok m"
  shows "m (constraintKey l k) = Some v \<Longrightarrow> v \<noteq> []" "m (u_key l k c) = Some v \<Longrightarrow> IsIndexable c \<Longrightarrow> length v = 8"
    "m (NodeKey n) = Some v \<Longrightarrow> \<exists>r. DecodeNode v = Inr r"
  using assms unfolding rows_ok_def by (metis wf_key_simps(10), metis wf_key_simps(7), metis wf_key_simps(1))

context reliable_txn
begin

text \<open>From every state whose rows are well formed the action ends without an error in another one.\<close>

definition goes :: "('s, 'x) act \<Rightarrow> bool" where
  "goes m \<longleftrightarrow> (\<forall>s. writable s \<longrightarrow> rows_ok (content s) \<longrightarrow> (\<exists>x s'. runs m s x s' \<and> writable s' \<and> rows_ok (content s')))"

lemma goes_ret: "goes (ret x)" "goes (liftR (Inr x))"
  by (auto simp: goes_def)

lemma goes_bnd: "goes m \<Longrightarrow> (\<And>x. goes (f x)) \<Longrightarrow> goes (bnd m f)"
  unfolding goes_def runs_bnd by metis

lemma goes_seqA: "goes m \<Longrightarrow> goes n \<Longrightarrow> goes (seqA m n)"
  unfolding seqA_def by (rule goes_bnd)

lemma goes_if: "goes m \<Longrightarrow> goes n \<Longrightarrow> goes (if b then m else n)"
  by simp

lemma goes_each: "(\<And>x. x \<in> set xs \<Longrightarrow> goes (f x)) \<Longrightarrow> goes (each f xs)"
  by (induction xs) (auto intro: goes_seqA goes_ret)

lemma goes_reads: "(\<And>s. usable s \<Longrightarrow> rows_ok (content s) \<Longrightarrow> \<exists>x. f s = Inr x) \<Longrightarrow> goes (reads f)"
  unfolding goes_def using writable_usable by fastforce

lemma goes_delete: "goes (TDelete T k)"
  unfolding goes_def
proof (intro allI impI)
  fix s
  assume s: "writable s" "rows_ok (content s)"
  from delete_total [OF s(1), of k] obtain s' where "TDelete T k s = (Inr (), s')" "writable s'" by blast
  with delete_Inr [OF writable_usable [OF s(1)] this(1)] s(2)
  show "\<exists>x s'. runs (TDelete T k) s x s' \<and> writable s' \<and> rows_ok (content s')" by (auto simp: runs_def)
qed

lemma HasIndex_total: "usable s \<Longrightarrow> \<exists>x. HasIndex T l k s = Inr x" "usable s \<Longrightarrow> \<exists>x. HasRelIndex T l k s = Inr x"
  by (simp_all add: HasIndex_def HasRelIndex_def lookup_total)

lemma HasUnique_total: "usable s \<Longrightarrow> rows_ok (content s) \<Longrightarrow> HasUnique T l k s = Inr (content s (constraintKey l k) \<noteq> None)"
  using rows_okD(1) [of "content s" l k]
  by (auto simp: HasUnique_def GetConstraint_def lookup_total decodeConstraint_def neq_Nil_conv split: option.split)

lemma valueOwner_total: "usable s \<Longrightarrow> rows_ok (content s) \<Longrightarrow> IsIndexable c \<Longrightarrow> \<exists>x. valueOwner T (u_key l k c) s = Inr x"
  using rows_okD(2) [of "content s" l k c] by (auto simp: valueOwner_def lookup_total split: option.split)

lemma goes_indexed: "(IsIndexable v \<Longrightarrow> goes m) \<Longrightarrow> goes (if \<not> IsIndexable v then ret () else m)"
  by (simp add: goes_ret)

lemma goes_delEntries: "goes (delPropEntry T l k v n)" "goes (delRelPropEntry T l k v n)"
proof -
  have u: "goes (case uniqueValue v of None \<Rightarrow> ret () | Some c \<Rightarrow>
      bnd (liftR (UniqueKey l k c)) (\<lambda>uk. bnd (reads (valueOwner T uk)) (\<lambda>owner. if owner \<noteq> Some n then ret () else TDelete T uk)))"
    if "IsIndexable v"
    using uniqueValue_indexable [OF that]
    by (cases "uniqueValue v") (auto simp: UniqueKey_eq intro!: goes_ret goes_bnd goes_if goes_delete goes_reads valueOwner_total)
  show "goes (delPropEntry T l k v n)" unfolding delPropEntry_def
    by (rule goes_indexed) (auto simp: PropKey_eq intro!: goes_ret goes_bnd goes_seqA goes_if goes_delete goes_reads HasIndex_total u intro: HasUnique_total)
  show "goes (delRelPropEntry T l k v n)" unfolding delRelPropEntry_def
    by (rule goes_indexed) (auto simp: RelPropKey_eq intro!: goes_ret goes_bnd goes_seqA goes_if goes_delete goes_reads HasIndex_total)
qed

lemma goes_delNodeIndexes: "goes (delNodeIndexes T n r)"
  unfolding delNodeIndexes_def by (auto intro!: goes_each goes_seqA goes_delete goes_delEntries goes_ret split: prod.splits)

lemma goesD: "goes m \<Longrightarrow> writable s \<Longrightarrow> rows_ok (content s) \<Longrightarrow> \<exists>x s'. runs m s x s' \<and> writable s'"
  unfolding goes_def by blast

lemma GetNode_total: "usable s \<Longrightarrow> nodes (content s) n = Some r \<Longrightarrow> GetNode T n s = Inr \<lparr>NID = n, NRec = r\<rparr>"
  by (auto simp: GetNode_def lookup_total nodes_def split: option.splits sum.splits)

lemma GetEdge_total: "usable s \<Longrightarrow> edges (content s) n = Some r \<Longrightarrow> GetEdge T n s = Inr \<lparr>EID = n, ERec = r\<rparr>"
  by (auto simp: GetEdge_def lookup_total edges_def split: option.splits sum.splits)

lemma GetNode_missing: "usable s \<Longrightarrow> rows_ok (content s) \<Longrightarrow> nodes (content s) n = None \<Longrightarrow> GetNode T n s = Inl ErrNodeNotFound"
  using rows_okD(3) [of "content s" n] by (auto simp: GetNode_def lookup_total nodes_def split: option.splits sum.splits)

lemma DeleteEdge_total:
  assumes "writable s" "rows_ok (content s)" "edges (content s) e \<noteq> None"
  shows "\<exists>s'. runs (DeleteEdge T e) s () s' \<and> writable s'"
proof -
  obtain r where r: "edges (content s) e = Some r" using assms(3) by blast
  have "goes (seqA (TDelete T (OutKey (Src r) (EType r) (Dst r) e))
       (seqA (TDelete T (InKey (Dst r) (EType r) (Src r) e))
       (seqA (each (\<lambda>(k, v). delRelPropEntry T (EType r) k v e) (EProps r))
       (TDelete T (EdgeKey e)))))"
    by (auto intro!: goes_each goes_seqA goes_delete goes_delEntries split: prod.splits)
  from goesD [OF this assms(1,2)] GetEdge_total [OF writable_usable [OF assms(1)] r]
  show ?thesis unfolding DeleteEdge_def Let_def by (simp add: runs_bnd)
qed

lemma DeleteEdges_total:
  "writable s \<Longrightarrow> consistent (content s) \<Longrightarrow> distinct es \<Longrightarrow> \<forall>e \<in> set es. edges (content s) e \<noteq> None \<Longrightarrow>
    \<exists>s'. runs (each (DeleteEdge T) es) s () s' \<and> writable s'"
proof (induction es arbitrary: s)
  case (Cons e es)
  obtain t where t: "runs (DeleteEdge T e) s () t" "writable t"
    using DeleteEdge_total [OF Cons.prems(1) consistentD(1) [OF Cons.prems(2)]] Cons.prems(4) by auto
  note d = DeleteEdge_ok [OF t(1) writable_usable [OF Cons.prems(1)] Cons.prems(2)]
  have "\<exists>s'. runs (each (DeleteEdge T) es) t () s' \<and> writable s'"
    by (rule Cons.IH) (use t(2) d Cons.prems(3,4) in auto)
  with t(1) show ?case by (auto simp: runs_seqA)
qed auto

lemma DeleteNode_total:
  assumes "writable s" "consistent (content s)" "nodes (content s) n = Some r"
  shows "if \<exists>e r. edges (content s) e = Some r \<and> (Src r = n \<or> Dst r = n) then DeleteNode T n s = (Inl ErrNodeHasEdges, s)
    else \<exists>s'. runs (DeleteNode T n) s () s' \<and> writable s'"
proof -
  have u: "usable s" using writable_usable [OF assms(1)] .
  obtain b where b: "hasIncidentEdges T n s = Inr b" by (simp add: hasIncidentEdges_def)
  have "goes (seqA (delNodeIndexes T n r) (TDelete T (NodeKey n)))" by (intro goes_seqA goes_delNodeIndexes goes_delete)
  from goesD [OF this assms(1) consistentD(1) [OF assms(2)]]
  have "\<exists>s'. runs (seqA (delNodeIndexes T n r) (TDelete T (NodeKey n))) s () s' \<and> writable s'" by simp
  then show ?thesis
    using b hasIncidentEdges_content [OF b u assms(2)] GetNode_total [OF u assms(3)]
    by (auto simp: DeleteNode_def runs_bnd bnd_def reads_def throw_def)
qed

lemma scan_parse_total:
  assumes "usable s" "\<And>k v. content s k = Some v \<Longrightarrow> prefix p k \<Longrightarrow> \<exists>x. f k = Inr x"
  shows "\<exists>xs. scan_parse T p f s = Inr xs"
proof -
  have l: "\<exists>xs. map f ks = map Inr xs" if "\<forall>k \<in> set ks. \<exists>x. f k = Inr x" for ks
    using that
  proof (induction ks)
    case (Cons k ks)
    then obtain x xs where "f k = Inr x" "map f ks = map Inr xs" by auto
    then have "map f (k # ks) = map Inr (x # xs)" by simp
    then show ?case by blast
  qed simp
  have "\<exists>x. f k = Inr x" if "k \<in> set (map fst (TScan T s p))" for k
  proof -
    have "k \<in> {k. content s k \<noteq> None \<and> prefix p k}" using that unfolding scan_keys [OF assms(1), symmetric] by simp
    then obtain v where "content s k = Some v" "prefix p k" by blast
    then show ?thesis by (rule assms(2))
  qed
  then have "\<exists>xs. map f (map fst (TScan T s p)) = map Inr xs" by (intro l ballI)
  then show ?thesis unfolding scan_parse_def parse_keys_iff .
qed

lemma adjacency_total:
  assumes "usable s" "rows_ok (content s)"
  shows "\<exists>refs. OutEdges T n 0 s = Inr refs" "\<exists>refs. InEdges T n 0 s = Inr refs"
proof -
  show "\<exists>refs. OutEdges T n 0 s = Inr refs" unfolding OutEdges_def
  proof (rule scan_parse_total [OF assms(1)])
    fix k v
    assume "content s k = Some v" "prefix (if (0 :: u32) \<noteq> 0 then OutPrefix n 0 else OutPrefixAll n) k"
    then obtain t d e where "k = OutKey n t d e" using key_under_prefix [OF assms(2), of k n] by auto
    then have "ParseOutKey k = Inr (n, t, d, e)" by (simp add: ParseOutKey_iff)
    then show "\<exists>x. bindR (ParseOutKey k) (\<lambda>(src, typ, dst, edge). Inr \<lparr>RefID = edge, RefType = typ, RefSrc = src, RefDst = dst\<rparr>) = Inr x"
      by simp
  qed
  show "\<exists>refs. InEdges T n 0 s = Inr refs" unfolding InEdges_def
  proof (rule scan_parse_total [OF assms(1)])
    fix k v
    assume "content s k = Some v" "prefix (if (0 :: u32) \<noteq> 0 then InPrefix n 0 else InPrefixAll n) k"
    then obtain t d e where "k = InKey n t d e" using key_under_in_prefix [OF assms(2), of k n] by auto
    then have "ParseInKey k = Inr (n, t, d, e)" by (simp add: ParseInKey_iff)
    then show "\<exists>x. bindR (ParseInKey k) (\<lambda>(dst, typ, src, edge). Inr \<lparr>RefID = edge, RefType = typ, RefSrc = src, RefDst = dst\<rparr>) = Inr x"
      by simp
  qed
qed

lemma DetachDeleteNode_total:
  assumes "writable s" "consistent (content s)" "nodes (content s) n \<noteq> None"
  shows "\<exists>s'. runs (DetachDeleteNode T n) s () s' \<and> writable s'"
proof -
  have u: "usable s" using writable_usable [OF assms(1)] .
  obtain r where r: "nodes (content s) n = Some r" using assms(3) by blast
  obtain out inn where oi: "OutEdges T n 0 s = Inr out" "InEdges T n 0 s = Inr inn"
    using adjacency_total [OF u consistentD(1) [OF assms(2)]] by blast
  let ?es = "remdups (map RefID out @ map RefID inn)"
  have es: "e \<in> set ?es \<longleftrightarrow> (\<exists>r. edges (content s) e = Some r \<and> (Src r = n \<or> Dst r = n))" for e
    using OutEdges_content [OF oi(1) u assms(2)] InEdges_content [OF oi(2) u assms(2)] by (fastforce simp: ref_of_def image_iff)
  obtain t where t: "runs (each (DeleteEdge T) ?es) s () t" "writable t"
    using DeleteEdges_total [OF assms(1,2), of ?es] es by (metis distinct_remdups option.distinct(1))
  note d = delete_edges_ok [OF t(1) u assms(2)]
  have f: "(\<exists>e r. edges (content t) e = Some r \<and> (Src r = n \<or> Dst r = n)) = False" using d es by (auto simp: restrict_map_def)
  obtain s' where "runs (DeleteNode T n) t () s'" "writable s'"
    using DeleteNode_total [OF t(2), of n r, unfolded f if_False] d r by auto
  then show ?thesis using oi t GetNode_total [OF u r] unfolding DetachDeleteNode_def runs_bnd runs_seqA by auto
qed

end

section \<open>Properties\<close>

lemma consistent_empty [simp]: "consistent (fmlookup fmempty)"
proof -
  have [simp]: "nodes (fmlookup fmempty) = Map.empty" "edges (fmlookup fmempty) = Map.empty"
    by (simp_all add: nodes_def edges_def fun_eq_iff)
  show ?thesis
    by (auto simp: consistent_def tables_ok_def rows_ok_def l_ok_def p_ok_def u_ok_def c_ok_def a_ok_def r_ok_def records_ok_def
        node_labels_def node_entries_def adjacency_def edge_entries_def holds_value_def)
qed

lemma mem_usable: "bolt_wf (mem_txn db)"
  by (simp add: bolt_wf_def pend_list_def)

lemma room_empty: "n < 2 ^ 64 \<Longrightarrow> room (fmlookup fmempty) n"
  by (simp add: room_def counter_def)

lemma run_snd: "fst (m s) = Inr x \<Longrightarrow> runs m s x (snd (m s))"
  by (simp add: runs_def prod_eq_iff)

text \<open>Two nodes \<^verbatim>\<open>(:P {n: "1"})\<close> and \<^verbatim>\<open>(:P {n: "2"})\<close>, an edge of type \<^verbatim>\<open>K\<close> between them, and a unique
  constraint on \<^verbatim>\<open>P.n\<close>: the rows that the operations write into an empty database.\<close>

definition pair_mutations :: "mutation list" where
  "pair_mutations = [MCreateNode [[0x50]] [([0x6E], VStr [0x31])], MCreateNode [[0x50]] [([0x6E], VStr [0x32])], MCreateEdge [0x4B] 1 2 []]"

definition pair_rows :: "(bytes \<times> bytes option) list" where
  "pair_rows =
     [(counterKey kindLabel, Some (PutUint64 1)), (fwdKey tagLabelFwd [0x50], Some (PutUint32 1)), (revKey kindLabel 1, Some [0x50]),
      (counterKey kindKey, Some (PutUint64 1)), (fwdKey tagKeyFwd [0x6E], Some (PutUint32 1)), (revKey kindKey 1, Some [0x6E]),
      (counterKey kindNode, Some (PutUint64 2)),
      (NodeKey 1, Some [1, 1, 1, 1, 4, 1, 0x31]), (LabelKey 1 1, Some []),
      (NodeKey 2, Some [1, 1, 1, 1, 4, 1, 0x32]), (LabelKey 1 2, Some []),
      (counterKey kindType, Some (PutUint64 1)), (fwdKey tagTypeFwd [0x4B], Some (PutUint32 1)), (revKey kindType 1, Some [0x4B]),
      (counterKey kindEdge, Some (PutUint64 1)),
      (EdgeKey 1, Some [1, 1, 2, 0]), (OutKey 1 1 2 1, Some []), (InKey 2 1 1 1, Some [])]"

definition constraint_rows :: "(bytes \<times> bytes option) list" where
  "constraint_rows =
     [(indexKey 1 1, Some []), (p_key 1 1 (VStr [0x31]) 1, Some []), (p_key 1 1 (VStr [0x32]) 2, Some []),
      (formatKey, Some (PutUint32 2)), (constraintKey 1 1, Some [1, 0x75]),
      (u_key 1 1 (VStr [0x31]), Some (PutUint64 1)), (u_key 1 1 (VStr [0x32]), Some (PutUint64 2))]"

abbreviation rows_txn :: "(bytes \<times> bytes option) list \<Rightarrow> (bytes, bytes) fmap txn" where
  "rows_txn rows \<equiv> \<lparr>bkt = fmempty, pending = Some rows, tclosed = False\<rparr>"

lemma pair_runs: "runs (each (mutate (boltTxn memBucket)) pair_mutations) (mem_txn fmempty) () (rows_txn pair_rows)"
  unfolding runs_def by code_simp

lemma constraint_runs:
  "runs (AddUniqueConstraint (boltTxn memBucket) 1 1 [0x75]) (rows_txn pair_rows) () (rows_txn (pair_rows @ constraint_rows))"
  unfolding runs_def by code_simp

lemma pair_wf: "\<forall>mu \<in> set pair_mutations. wf_mutation m mu"
  by (simp add: pair_mutations_def wf_args_def)

lemma pair_ok: "bolt_writable (rows_txn pair_rows)" "consistent (bolt_content memBucket (rows_txn pair_rows))"
proof -
  show "bolt_writable (rows_txn pair_rows)" by code_simp
  show "consistent (bolt_content memBucket (rows_txn pair_rows))"
    using mem.bolt.mutations_ok [OF pair_runs mem_usable] pair_wf by (simp add: pair_mutations_def room_empty)
qed

abbreviation constrained :: "(bytes, bytes) fmap txn" where
  "constrained \<equiv> rows_txn (pair_rows @ constraint_rows)"

lemma constrained_ok: "bolt_writable constrained" "consistent (bolt_content memBucket constrained)"
proof -
  show "bolt_writable constrained" by code_simp
  have n: "bolt_content memBucket (rows_txn pair_rows) (constraintKey 1 1) = None" by code_simp
  show "consistent (bolt_content memBucket constrained)"
    using mem.bolt.AddUniqueConstraint_ok [OF constraint_runs mem.bolt.writable_usable [OF pair_ok(1)] pair_ok(2) n] by simp
qed

lemma constrained_declared: "declared (bolt_content memBucket constrained) [0x50] [0x6E]"
proof -
  have "bolt_content memBucket constrained (revKey kindLabel 1) = Some [0x50]" by code_simp
  moreover have "bolt_content memBucket constrained (revKey kindKey 1) = Some [0x6E]" by code_simp
  moreover have "bolt_content memBucket constrained (constraintKey 1 1) \<noteq> None" by code_simp
  ultimately show ?thesis unfolding declared_def by blast
qed

text \<open>
  C1. A sequence of mutations keeps the graph consistent: when the calls return without an
  error, on any engine that honours the storage contract, every record still decodes, every edge
  joins two existing nodes, the label, property, relationship and adjacency tables hold exactly the
  rows the records call for, and the owner rows of unique constraints name the holders. The
  mutations may be any calls whose property maps have distinct keys and whose values are of the supported types,
  except for one: \<^verbatim>\<open>SetProperty\<close> may be given null only for a key that no index is declared on, since on an
  indexed key that call breaks the invariant, as the last section shows. The counters must not run past $2^{64}$.
\<close>

theorem mutations_keep_consistent:
  assumes "txn_store T content usable" and "usable s" and "consistent (content s)"
    and "\<forall>mu \<in> set mus. wf_mutation (content s) mu" and "room (content s) (length mus)"
    and "each (mutate T) mus s = (Inr (), s')"
  shows "consistent (content s')"
  using txn_store.mutations_ok [OF assms(1), unfolded runs_def, OF assms(6,2-5)] by blast

theorem mutations_keep_consistent_witness: "consistent (bolt_content memBucket (rows_txn pair_rows))"
  by (rule mutations_keep_consistent [OF mem.bolt.txn_store_axioms mem_usable _ pair_wf _ pair_runs [unfolded runs_def]])
    (simp_all add: room_empty pair_mutations_def)

text \<open>
  C2. The stored graph refines the property graph: when a sequence of mutations returns without an
  error, the abstract graph of the new rows is reached from that of the old rows by the specified
  steps. A step creates a node or an edge under an unused identifier, changes the properties or
  labels of an existing node, or deletes; a node with edges is only deleted together with them. Setting a property
  to null removes it, as specified, where \<^verbatim>\<open>SetProperty\<close> is given null for a key that no index is declared on;
  with null for an indexed key the call is excluded. Property maps have distinct keys, values are of the supported
  types, and the counters must not run past $2^{64}$.
\<close>

theorem mutations_refine_graph:
  assumes "txn_store T content usable" and "usable s" and "consistent (content s)"
    and "\<forall>mu \<in> set mus. wf_mutation (content s) mu" and "room (content s) (length mus)"
    and "each (mutate T) mus s = (Inr (), s')"
  shows "a_run mus (graph_of (content s)) (graph_of (content s'))"
  using txn_store.mutations_ok [OF assms(1), unfolded runs_def, OF assms(6,2-5)] by blast

theorem mutations_refine_graph_witness:
  "a_run pair_mutations (graph_of (fmlookup fmempty)) (graph_of (bolt_content memBucket (rows_txn pair_rows)))"
  using mutations_refine_graph [OF mem.bolt.txn_store_axioms mem_usable _ pair_wf _ pair_runs [unfolded runs_def]]
  by (simp add: room_empty pair_mutations_def)

text \<open>
  C7. Mutations never touch the schema: the registries of indexes, constraints and relationship
  indexes and the format marker are the same after any mutation that succeeds.
\<close>

theorem mutation_keeps_schema:
  assumes "txn_store T content usable" and "usable s" and "mutate T mu s = (Inr (), s')"
  shows "content s' (indexKey l k) = content s (indexKey l k) \<and> content s' (constraintKey l k) = content s (constraintKey l k) \<and>
    content s' (relIndexKey l k) = content s (relIndexKey l k) \<and> content s' formatKey = content s formatKey"
  by (intro conjI txn_store.mutate_row [OF assms(1) assms(3) [folded runs_def] assms(2)]) simp_all

theorem mutation_keeps_schema_witness:
  "\<exists>s'. mutate (boltTxn memBucket) (MCreateNode [[1]] []) (mem_txn (fmupd (indexKey 1 2) [] fmempty)) = (Inr (), s') \<and>
     bolt_content memBucket s' (indexKey 1 2) = Some []"
proof -
  let ?s = "mem_txn (fmupd (indexKey 1 2) [] fmempty)"
  have r: "mutate (boltTxn memBucket) (MCreateNode [[1]] []) ?s = (Inr (), snd (mutate (boltTxn memBucket) (MCreateNode [[1]] []) ?s))"
    by (intro prod_eqI, code_simp, simp)
  with mutation_keeps_schema [OF mem.bolt.txn_store_axioms mem_usable r, of 1 2] show ?thesis by auto
qed

text \<open>
  C3. Unique constraints hold: when a label and a key are declared unique and a sequence of mutations
  returns without an error, no two nodes with the label hold comparable values under the key that a query
  considers equal. Two values are comparable when both are of an indexed type and not null and, when one is an integer
  and the other a float, the integer converts to a float without rounding. The mutations are given storable arguments,
  and \<^verbatim>\<open>SetProperty\<close> is given null only for a key that no index is declared on.
\<close>

theorem unique_constraint_enforced:
  assumes "txn_store T content usable" and "usable s" and "consistent (content s)" and "declared (content s) label key"
    and "\<forall>mu \<in> set mus. wf_mutation (content s) mu" and "room (content s) (length mus)"
    and "each (mutate T) mus s = (Inr (), s')"
  shows "a_unique (graph_of (content s')) label key"
  using txn_store.mutations_ok [OF assms(1), unfolded runs_def, OF assms(7,2,3,5,6)]
    txn_store.mutations_declared [OF assms(1), unfolded runs_def, OF assms(7,2,3,5,6,4)] consistent_unique by blast

theorem unique_constraint_enforced_witness:
  "a_unique (graph_of (bolt_content memBucket (snd (each (mutate (boltTxn memBucket)) [MSetProperty 1 [0x6E] (VInt 7)] constrained)))) [0x50] [0x6E]"
proof -
  have r: "each (mutate (boltTxn memBucket)) [MSetProperty 1 [0x6E] (VInt 7)] constrained =
      (Inr (), snd (each (mutate (boltTxn memBucket)) [MSetProperty 1 [0x6E] (VInt 7)] constrained))"
    by (intro prod_eqI, code_simp, simp)
  have n: "counter (bolt_content memBucket constrained) kindNode = 2" "counter (bolt_content memBucket constrained) kindEdge = 1" by code_simp+
  show ?thesis
    by (rule unique_constraint_enforced [OF mem.bolt.txn_store_axioms mem.bolt.writable_usable [OF constrained_ok(1)] constrained_ok(2)
          constrained_declared _ _ r]) (simp_all add: room_def n [simplified])
qed

text \<open>
  C5. A write that would duplicate a unique value is refused: \<^verbatim>\<open>SetProperty\<close> returns an error when another
  node with the label already holds a value that a query considers equal and that is comparable with the new one: both
  are of an indexed type and not null and, when one is an integer and the other a float, the integer converts to a
  float without rounding.
\<close>

theorem duplicate_value_refused:
  assumes "txn_store T content usable" and "usable s" and "consistent (content s)" and "declared (content s) label key"
    and "a \<noteq> b" and "ANodes (graph_of (content s)) a = Some x" and "label \<in> ALabels x" and "AProps x key = Some v"
    and "ANodes (graph_of (content s)) b = Some y" and "label \<in> ALabels y"
    and "comparable v w" and "QueryEqual v w" and "wf_val w"
  shows "\<exists>e. fst (SetProperty T b key w s) = Inl e"
proof (cases "fst (SetProperty T b key w s)")
  case (Inr u)
  then have "runs (SetProperty T b key w) s u (snd (SetProperty T b key w s))" by (rule run_snd)
  with txn_store.SetProperty_refused [OF assms] show ?thesis by blast
qed simp

text \<open>
  C6. A node with relationships cannot be deleted: \<^verbatim>\<open>DeleteNode\<close> returns \<^verbatim>\<open>ErrNodeHasEdges\<close>, and the
  transaction is as it was.
\<close>

theorem delete_connected_node_refused:
  assumes "reliable_txn T content usable writable" and "writable s" and "consistent (content s)"
    and "ANodes (graph_of (content s)) n \<noteq> None" and "AEdges (graph_of (content s)) e = Some a" and "ASrc a = n \<or> ADst a = n"
  shows "DeleteNode T n s = (Inl ErrNodeHasEdges, s)"
proof -
  obtain r where r: "nodes (content s) n = Some r" using assms(4) by auto
  have "\<exists>e r. edges (content s) e = Some r \<and> (Src r = n \<or> Dst r = n)" using assms(5,6) by (auto simp: graph_of_edge; blast)
  then show ?thesis using reliable_txn.DeleteNode_total [OF assms(1-3) r] by (simp only: if_True)
qed

text \<open>
  C4. \<^verbatim>\<open>DETACH DELETE\<close> always succeeds on an existing node when the engine does not fail, whatever
  relationships, labels, indexes and constraints the node takes part in, and removes the node with
  exactly the edges that touch it.
\<close>

theorem detach_delete_succeeds:
  assumes "reliable_txn T content usable writable" and "writable s" and "consistent (content s)"
    and "ANodes (graph_of (content s)) n \<noteq> None"
  shows "\<exists>s'. DetachDeleteNode T n s = (Inr (), s') \<and> consistent (content s') \<and>
    graph_of (content s') = a_DetachDeleteNode (graph_of (content s)) n"
proof -
  note S = reliable_txn.axioms(1) [OF assms(1)]
  obtain s' where r: "runs (DetachDeleteNode T n) s () s'"
    using reliable_txn.DetachDeleteNode_total [OF assms(1-3)] assms(4) by auto
  show ?thesis
    using r txn_store.DetachDeleteNode_ok [OF S r reliable_txn.writable_usable [OF assms(1,2)] assms(3)] by (auto simp: runs_def)
qed

lemma constrained_nodes:
  "nodes (bolt_content memBucket constrained) 1 = Some \<lparr>Labels = [1], Props = [(1, VStr [0x31])]\<rparr>"
  "nodes (bolt_content memBucket constrained) 2 = Some \<lparr>Labels = [1], Props = [(1, VStr [0x32])]\<rparr>"
  "edges (bolt_content memBucket constrained) 1 = Some \<lparr>EType = 1, Src = 1, Dst = 2, EProps = []\<rparr>"
  by code_simp+

lemma constrained_graph:
  "ANodes (graph_of (bolt_content memBucket constrained)) 1 =
     Some (abs_node (bolt_content memBucket constrained) \<lparr>Labels = [1], Props = [(1, VStr [0x31])]\<rparr>)"
  "ANodes (graph_of (bolt_content memBucket constrained)) 2 =
     Some (abs_node (bolt_content memBucket constrained) \<lparr>Labels = [1], Props = [(1, VStr [0x32])]\<rparr>)"
  by (simp_all add: graph_of_def constrained_nodes)

lemma constrained_abs:
  "[0x50] \<in> ALabels (abs_node (bolt_content memBucket constrained) \<lparr>Labels = [1], Props = ps\<rparr>)"
  "AProps (abs_node (bolt_content memBucket constrained) \<lparr>Labels = ls, Props = [(1, v)]\<rparr>) [0x6E] = Some v"
proof -
  have "bolt_content memBucket constrained (fwdKey tagLabelFwd [0x50]) = Some (PutUint32 1)"
    "bolt_content memBucket constrained (fwdKey tagKeyFwd [0x6E]) = Some (PutUint32 1)" by code_simp+
  then show "[0x50] \<in> ALabels (abs_node (bolt_content memBucket constrained) \<lparr>Labels = [1], Props = ps\<rparr>)"
    "AProps (abs_node (bolt_content memBucket constrained) \<lparr>Labels = ls, Props = [(1, v)]\<rparr>) [0x6E] = Some v"
    by (simp_all add: abs_node_def label_names_def named_def)
qed

theorem duplicate_value_refused_witness:
  "\<exists>e. fst (SetProperty (boltTxn memBucket) 2 [0x6E] (VStr [0x31]) constrained) = Inl e"
  by (rule duplicate_value_refused [OF mem.bolt.txn_store_axioms mem.bolt.writable_usable [OF constrained_ok(1)] constrained_ok(2)
        constrained_declared _ constrained_graph(1) constrained_abs(1,2) constrained_graph(2) constrained_abs(1)])
    (simp_all add: comparable_def IsIndexable_def QueryEqual_def Values.normalize_def)

theorem delete_connected_node_refused_witness: "DeleteNode (boltTxn memBucket) 1 constrained = (Inl ErrNodeHasEdges, constrained)"
  by (rule delete_connected_node_refused [OF mem.bolt.reliable_txn_axioms constrained_ok, of 1 1])
    (auto simp: graph_of_def constrained_nodes)

theorem detach_delete_succeeds_witness:
  "\<exists>s'. DetachDeleteNode (boltTxn memBucket) 1 constrained = (Inr (), s') \<and> consistent (bolt_content memBucket s')"
  using detach_delete_succeeds [OF mem.bolt.reliable_txn_axioms constrained_ok, of 1] by (auto simp: graph_of_def constrained_nodes)

section \<open>Where the code departs from its intent\<close>

text \<open>
  C39. Setting a property to null is not the same as removing it: \<^verbatim>\<open>SetProperty\<close> hands the null to
  \<^verbatim>\<open>putPropEntry\<close>, which treats it as a value. From a consistent database, with a key that has an identifier, a call
  with null that returns without an error leaves the database consistent if and only if no label of the node has an
  index on the key.
\<close>

theorem set_null_iff_unindexed:
  assumes "txn_store T content usable" and "usable s" and "consistent (content s)" and "nodes (content s) n = Some r"
    and "content s (fwdKey tagKeyFwd key) = Some (PutUint32 k)" and "SetProperty T n key VNull s = (Inr (), s')"
  shows "consistent (content s') \<longleftrightarrow> (\<forall>l \<in> set (Labels r). content s (indexKey l k) = None)"
proof (rule txn_store.SetProperty_null [OF assms(1) assms(6) [folded runs_def] assms(2,3)])
  fix r' k'
  assume n: "nodes (content s) n = Some r'" and k: "\<And>i. content s (fwdKey tagKeyFwd key) = Some (PutUint32 i) \<Longrightarrow> i = k'"
    and yes: "\<forall>l \<in> set (Labels r'). content s (indexKey l k') = None \<Longrightarrow>
       usable s' \<and> consistent (content s') \<and> graph_of (content s') = a_SetProperty (graph_of (content s)) n key VNull"
    and no: "\<And>l. l \<in> set (Labels r') \<Longrightarrow> content s (indexKey l k') \<noteq> None \<Longrightarrow> \<not> consistent (content s')"
  have e: "r' = r" "k' = k" using n assms(4) k [OF assms(5)] by auto
  show ?thesis using yes [unfolded e] no [unfolded e] by (cases "\<forall>l \<in> set (Labels r). content s (indexKey l k) = None") auto
qed

theorem set_null_iff_unindexed_witness:
  "\<not> consistent (bolt_content memBucket (snd (SetProperty (boltTxn memBucket) 1 [0x6E] VNull constrained)))"
proof -
  have r: "SetProperty (boltTxn memBucket) 1 [0x6E] VNull constrained =
      (Inr (), snd (SetProperty (boltTxn memBucket) 1 [0x6E] VNull constrained))"
    by (intro prod_eqI, code_simp, simp)
  have k: "bolt_content memBucket constrained (fwdKey tagKeyFwd [0x6E]) = Some (PutUint32 1)"
    "bolt_content memBucket constrained (indexKey 1 1) \<noteq> None" by code_simp+
  from set_null_iff_unindexed [OF mem.bolt.txn_store_axioms mem.bolt.writable_usable [OF constrained_ok(1)] constrained_ok(2)
      constrained_nodes(1) k(1) r] k(2) show ?thesis by simp
qed

text \<open>An example of what follows under a unique constraint: the first node to be set to null claims null, and the
  second is refused, although neither holds a value.\<close>

lemma set_null_claims_a_value:
  "fst (SetProperty (boltTxn memBucket) 1 [0x6E] VNull constrained) = Inr () \<and>
   fst (SetProperty (boltTxn memBucket) 2 [0x6E] VNull (snd (SetProperty (boltTxn memBucket) 1 [0x6E] VNull constrained))) =
     Inl (ErrConstraintViolation [0x50] [0x6E])"
  by (intro conjI; code_simp)

text \<open>
  C40. An integer equals the float it converts to in a query, whatever its size, but a unique constraint
  takes the two for the same value if and only if the conversion does not round.
\<close>

theorem unique_value_of_int:
  "QueryEqual (VInt x) (VFloat (f_of_int (sint x))) \<and>
   (uniqueValue (VFloat (f_of_int (sint x))) = uniqueValue (VInt x) \<longleftrightarrow> f_num (f_of_int (sint x)) = sint x * f_unit)"
proof -
  have "uniqueValue (VInt x) = Some (VInt x)" by (simp add: uniqueValue_def)
  then show ?thesis using uniqueValue_float_int [of "f_of_int (sint x)" x] f_isNaN_of_sint [of x]
    by (auto simp: QueryEqual_def Values.normalize_def f_eq_def)
qed

end
