(* ===== verification/Graph_Query.thy ===== *)
theory Graph_Query
  imports Graph_Spec
begin

text \<open>
  Lookups of \<^verbatim>\<open>internal/graph/traversal.go\<close> and \<^verbatim>\<open>relindex.go\<close> by a property value: through an index or by a
  scan with a filter, the answer is the same.
\<close>

section \<open>Lookups by property\<close>

text \<open>The nodes and edges a lookup has to return.\<close>

definition nodes_with :: "(bytes \<rightharpoonup> bytes) \<Rightarrow> u32 \<Rightarrow> u32 \<Rightarrow> val \<Rightarrow> u64 set" where
  "nodes_with m l k v =
     {n. \<exists>r w. nodes m n = Some r \<and> l \<in> set (Labels r) \<and> map_of (Props r) k = Some w \<and> QueryEqual w v}"

definition edges_with :: "(bytes \<rightharpoonup> bytes) \<Rightarrow> u32 \<Rightarrow> u32 \<Rightarrow> val \<Rightarrow> u64 set" where
  "edges_with m t k v =
     {e. \<exists>r w. edges m e = Some r \<and> EType r = t \<and> map_of (EProps r) k = Some w \<and> QueryEqual w v}"

lemma QueryEqual_indexable: "QueryEqual w v \<Longrightarrow> w = normalize w \<Longrightarrow> IsIndexable w \<and> w \<noteq> VNull"
  by (auto simp: QueryEqual_def Values.normalize_def IsIndexable_def split: val.splits)

lemma sorted_set_unique: "sorted_wrt (<) xs \<Longrightarrow> sorted_wrt (<) ys \<Longrightarrow> set xs = set ys \<Longrightarrow> xs = (ys :: u64 list)"
  by (simp add: strict_sorted_iff sorted_distinct_set_unique)

lemma canonical_normal: "canonical ps \<Longrightarrow> map_of ps k = Some v \<Longrightarrow> normalize v = v"
proof -
  assume "canonical ps" "map_of ps k = Some v"
  then have "canon v = v" by (auto simp: canonical_def dest: map_of_SomeD)
  then show ?thesis by (cases v) (auto simp: Values.normalize_def)
qed

lemma rows_shape:
  assumes "rows_ok m" "m k \<noteq> None"
  shows "hd k = 0x70 \<Longrightarrow> \<exists>l p x n. k = p_key l p x n \<and> IsIndexable x" "hd k = 0x72 \<Longrightarrow> \<exists>t p x e. k = r_key t p x e \<and> IsIndexable x"
proof -
  obtain v where "m k = Some v" using assms(2) by blast
  then have w: "wf_key k v" using assms(1) by (simp add: rows_ok_def)
  show "hd k = 0x70 \<Longrightarrow> \<exists>l p x n. k = p_key l p x n \<and> IsIndexable x" "hd k = 0x72 \<Longrightarrow> \<exists>t p x e. k = r_key t p x e \<and> IsIndexable x"
    using w by (simp_all add: wf_key_def)
qed

context txn_store
begin

lemma scan_parse_exact:
  assumes "scan_parse T p f s = Inr xs" "usable s"
    and "\<And>k. content s k \<noteq> None \<and> prefix p k \<longleftrightarrow> (\<exists>x. P x \<and> k = key x)" and "\<And>x. P x \<Longrightarrow> f (key x) = Inr x"
  shows "set xs = {x. P x}" "distinct xs"
proof -
  let ?ks = "map fst (TScan T s p)"
  have ks: "set ?ks = {k. content s k \<noteq> None \<and> prefix p k}" using scan_keys [OF assms(2), of p] by simp
  have f: "map f ?ks = map Inr xs" using assms(1) by (simp add: scan_parse_def parse_keys_iff)
  have "sorted_wrt (<) ?ks" using scan_sorted [OF assms(2)] .
  then have d: "distinct ?ks" by (simp add: strict_sorted_iff)
  have "inj_on f (set ?ks)" unfolding ks assms(3) by (rule inj_onI) (use assms(4) in force)
  with d have "distinct (map f ?ks)" using distinct_map [of f ?ks] by blast
  then show "distinct xs" unfolding f by (simp add: distinct_map)
  show "set xs = {x. P x}"
  proof (intro set_eqI)
    fix x
    have "x \<in> set xs \<longleftrightarrow> (\<exists>k. (content s k \<noteq> None \<and> prefix p k) \<and> f k = Inr x)" unfolding scan_parse_set [OF assms(1,2)] by simp
    also have "\<dots> \<longleftrightarrow> (\<exists>y. P y \<and> f (key y) = Inr x)" unfolding assms(3) by blast
    also have "\<dots> \<longleftrightarrow> P x" using assms(4) by force
    finally show "x \<in> set xs \<longleftrightarrow> x \<in> {x. P x}" by simp
  qed
qed

lemma probe_rows:
  assumes "consistent (content s)" "usable s" "IsIndexable v" "content s (indexKey l k) \<noteq> None"
    "scan_parse T (KeyProp # PutUint32 l @ PutUint32 k @ ienc v) ParsePropKeyNode s = Inr ns"
  shows "set ns = {n. (l, k, v) \<in> node_entries (content s) n}" "distinct ns"
proof -
  have p: "content s (p_key l k v n) \<noteq> None \<longleftrightarrow> (l, k, v) \<in> node_entries (content s) n" for n
    using assms(1,3,4) by (simp add: consistent_def tables_ok_def p_ok_def)
  have "content s key \<noteq> None \<and> prefix (KeyProp # PutUint32 l @ PutUint32 k @ ienc v) key \<longleftrightarrow>
      (\<exists>n. (l, k, v) \<in> node_entries (content s) n \<and> key = p_key l k v n)" for key
  proof
    assume h: "content s key \<noteq> None \<and> prefix (KeyProp # PutUint32 l @ PutUint32 k @ ienc v) key"
    then have "hd key = 0x70" using prefix_hd [of "KeyProp # PutUint32 l @ PutUint32 k @ ienc v" key] by (simp add: key_tag_defs)
    then obtain l' k' x n where x: "key = p_key l' k' x n" "IsIndexable x"
      using h rows_shape(1) [OF consistentD(1) [OF assms(1)]] by blast
    with h assms(3) have "key = p_key l k v n" by simp
    with h p show "\<exists>n. (l, k, v) \<in> node_entries (content s) n \<and> key = p_key l k v n" by blast
  qed (use p assms(3) in auto)
  from scan_parse_exact [OF assms(5,2) this] assms(3)
  show "set ns = {n. (l, k, v) \<in> node_entries (content s) n}" "distinct ns" by auto
qed

lemma rel_probe_rows:
  assumes "consistent (content s)" "usable s" "IsIndexable v" "content s (relIndexKey t k) \<noteq> None"
    "scan_parse T (KeyRelProp # PutUint32 t @ PutUint32 k @ ienc v) (\<lambda>key. bindR (ParseRelPropKey key) (\<lambda>(_, i). Inr i)) s = Inr es"
  shows "set es = {e. (t, k, v) \<in> edge_entries (content s) e}" "distinct es"
proof -
  have p: "content s (r_key t k v n) \<noteq> None \<longleftrightarrow> (t, k, v) \<in> edge_entries (content s) n" for n
    using assms(1,3,4) by (simp add: consistent_def tables_ok_def r_ok_def)
  have "content s key \<noteq> None \<and> prefix (KeyRelProp # PutUint32 t @ PutUint32 k @ ienc v) key \<longleftrightarrow>
      (\<exists>n. (t, k, v) \<in> edge_entries (content s) n \<and> key = r_key t k v n)" for key
  proof
    assume h: "content s key \<noteq> None \<and> prefix (KeyRelProp # PutUint32 t @ PutUint32 k @ ienc v) key"
    then have "hd key = 0x72" using prefix_hd [of "KeyRelProp # PutUint32 t @ PutUint32 k @ ienc v" key] by (simp add: key_tag_defs)
    then obtain l' k' x n where x: "key = r_key l' k' x n" "IsIndexable x"
      using h rows_shape(2) [OF consistentD(1) [OF assms(1)]] by blast
    with h assms(3) have "key = r_key t k v n" by simp
    with h p show "\<exists>n. (t, k, v) \<in> edge_entries (content s) n \<and> key = r_key t k v n" by blast
  qed (use p assms(3) in auto)
  from scan_parse_exact [OF assms(5,2) this] assms(3)
  show "set es = {e. (t, k, v) \<in> edge_entries (content s) e}" "distinct es" by auto
qed

text \<open>The loop over the probes. No identifier is met twice, as it has one value under the key.\<close>

lemma probe_nodes_rows:
  assumes "probe_nodes T l k ps out s = Inr ns" "consistent (content s)" "usable s" "content s (indexKey l k) \<noteq> None"
    "distinct ps" "distinct out" "\<And>n v. n \<in> set out \<Longrightarrow> v \<in> set ps \<Longrightarrow> (l, k, v) \<notin> node_entries (content s) n"
  shows "set ns = set out \<union> {n. \<exists>v \<in> set ps. (l, k, v) \<in> node_entries (content s) n}" "distinct ns"
proof -
  have "set ns = set out \<union> {n. \<exists>v \<in> set ps. (l, k, v) \<in> node_entries (content s) n} \<and> distinct ns"
    using assms(1,5-7)
  proof (induction ps arbitrary: out)
    case (Cons v ps)
    then obtain ids where v: "IsIndexable v" and ids: "scan_parse T (KeyProp # PutUint32 l @ PutUint32 k @ ienc v) ParsePropKeyNode s = Inr ids"
      and r: "probe_nodes T l k ps (out @ ids) s = Inr ns"
      by (auto simp: bindR_Inr_iff PropPrefix_eq appendIndexMatches_def split: if_splits)
    note row = probe_rows [OF assms(2,3) v assms(4) ids]
    have "set ns = set (out @ ids) \<union> {n. \<exists>v \<in> set ps. (l, k, v) \<in> node_entries (content s) n} \<and> distinct ns"
    proof (rule Cons.IH [OF r])
      show "distinct ps" "distinct (out @ ids)" using Cons.prems(2-4) row by auto
      show "(l, k, w) \<notin> node_entries (content s) n" if "n \<in> set (out @ ids)" "w \<in> set ps" for n w
        using that Cons.prems(2,4) row(1) entries_unique(1) [of l k v "content s" n w] by auto
    qed
    then show ?case using row by auto
  qed simp
  then show "set ns = set out \<union> {n. \<exists>v \<in> set ps. (l, k, v) \<in> node_entries (content s) n}" "distinct ns" by auto
qed

end

lemma edges_of_type_sorted:
  assumes "edges_of_type t it = Inr es" "sorted_wrt (<) (map fst it)"
  shows "sorted_wrt (<) (map EID es) \<and> (\<forall>e \<in> set es. EdgeKey (EID e) \<in> fst ` set it)"
  using assms
proof (induction t it arbitrary: es rule: edges_of_type.induct)
  case (2 t k x it)
  from "2.prems" obtain v rec where x: "x = Inr v" "DecodeEdge v = Inr rec"
    and r: "(if EType rec = t then bindR (EdgeIDFromKey k) (\<lambda>i. bindR (edges_of_type t it) (\<lambda>es. Inr (\<lparr>EID = i, ERec = rec\<rparr> # es)))
      else edges_of_type t it) = Inr es" by (auto simp: bindR_Inr_iff)
  have so: "sorted_wrt (<) (map fst it)" using "2.prems"(2) by simp
  show ?case
  proof (cases "EType rec = t")
    case True
    then obtain i es' where i: "EdgeIDFromKey k = Inr i" and e: "edges_of_type t it = Inr es'" "es = \<lparr>EID = i, ERec = rec\<rparr> # es'"
      using r by (auto simp: bindR_Inr_iff)
    have k: "k = EdgeKey i" using i by (simp add: EdgeIDFromKey_iff)
    note ih = "2.IH"(1) [OF x True i e(1) so]
    have "i < EID e'" if e': "e' \<in> set es'" for e'
    proof -
      obtain y where "(EdgeKey (EID e'), y) \<in> set it" using ih e' by auto
      then have "EdgeKey i < EdgeKey (EID e')" using "2.prems"(2) k by (auto simp del: key_less)
      then show ?thesis by simp
    qed
    then show ?thesis using ih e(2) k by auto
  next
    case False
    then show ?thesis using "2.IH"(2) [OF x False _ so] r by auto
  qed
qed simp

lemma probes_match:
  assumes "equalityProbes v = (ps, True)" "IsIndexable v" "w \<noteq> VNull" "normalize w = w"
  shows "IsIndexable w \<and> w \<in> set ps \<longleftrightarrow> QueryEqual w v"
  using equalityProbes_iff [OF assms(1,2) _ assms(3)] QueryEqual_indexable [of w v] assms(4) by auto

context txn_store
begin

lemma filter_nodes_rows:
  assumes "filter_nodes T k v ns s = Inr out" "usable s"
  shows "out = filter (\<lambda>n. \<exists>r w. nodes (content s) n = Some r \<and> map_of (Props r) k = Some w \<and> QueryEqual w v) ns"
  using assms(1)
proof (induction ns arbitrary: out)
  case (Cons n ns)
  then obtain node out' where g: "GetNode T n s = Inr node" "filter_nodes T k v ns s = Inr out'"
    and o: "out = (case map_of (Props (NRec node)) k of Some w \<Rightarrow> if QueryEqual w v then n # out' else out' | None \<Rightarrow> out')"
    by (auto simp: bindR_Inr_iff)
  then show ?case using GetNode_content [OF g(1) assms(2)] Cons.IH [OF g(2)] by (auto split: option.splits)
qed simp

lemma NodesByProperty_content:
  assumes r: "NodesByProperty T l k v s = Inr ns" and u: "usable s" and c: "consistent (content s)"
  shows "set ns = nodes_with (content s) l k (normalize v)" "sorted_wrt (<) ns"
proof -
  let ?m = "content s" and ?v = "normalize v"
  have stored: "nodes ?m n = Some rec \<Longrightarrow> map_of (Props rec) k = Some w \<Longrightarrow> w \<noteq> VNull \<and> normalize w = w" for n rec w
    using nodes_ok [OF consistentD(1) [OF c]] canonical_normal ok_props_value by (metis ok_node_def)
  from r obtain has where has: "HasIndex T l k s = Inr has" by (auto simp: NodesByProperty_def Let_def bindR_Inr_iff)
  obtain ps exact where pe: "equalityProbes ?v = (ps, exact)" by (cases "equalityProbes ?v")
  have "set ns = nodes_with ?m l k ?v \<and> sorted_wrt (<) ns"
  proof (cases "has \<and> exact \<and> IsIndexable ?v")
    case True
    with r has pe obtain out where p: "probe_nodes T l k ps [] s = Inr out" and ns: "ns = sort out"
      by (auto simp: NodesByProperty_def Let_def bindR_Inr_iff)
    have ik: "?m (indexKey l k) \<noteq> None" using HasIndex_content [OF has u] True by simp
    have "distinct ps" using equalityProbes_distinct [of ?v] pe by simp
    note o = probe_nodes_rows [OF p c u ik this]
    have "n \<in> set out \<longleftrightarrow> n \<in> nodes_with ?m l k ?v" for n
    proof -
      have "n \<in> set out \<longleftrightarrow> (\<exists>rec w. nodes ?m n = Some rec \<and> l \<in> set (Labels rec) \<and> map_of (Props rec) k = Some w \<and> IsIndexable w \<and> w \<in> set ps)"
        using o(1) by (auto simp: node_entries_def prop_entries_def split: option.splits)
      also have "\<dots> \<longleftrightarrow> n \<in> nodes_with ?m l k ?v"
      proof -
        have "map_of (Props rec) k = Some w \<and> IsIndexable w \<and> w \<in> set ps \<longleftrightarrow> map_of (Props rec) k = Some w \<and> QueryEqual w ?v"
          if "nodes ?m n = Some rec" for rec w
          using stored [OF that, of w] probes_match [of ?v ps w] pe True by auto
        then show ?thesis unfolding nodes_with_def by auto
      qed
      finally show ?thesis .
    qed
    moreover have "distinct out" using o(2) by simp
    ultimately show ?thesis using ns by (auto simp: strict_sorted_iff)
  next
    case False
    with r has pe obtain all where a: "NodesByLabel T l s = Inr all" "filter_nodes T k ?v all s = Inr ns"
      by (auto simp: NodesByProperty_def Let_def bindR_Inr_iff split: if_splits)
    have l: "l_ok ?m (node_labels ?m)" using c by (simp add: consistent_def tables_ok_def)
    note n = NodesByLabel_content [OF a(1) u l] filter_nodes_rows [OF a(2) u]
    have "set ns = nodes_with ?m l k ?v" using n(1,3) by (auto simp: nodes_with_def node_labels_def split: option.splits)
    moreover have "sorted_wrt (<) ns" using n(2,3) by (simp add: sorted_wrt_filter)
    ultimately show ?thesis by simp
  qed
  then show "set ns = nodes_with ?m l k ?v" "sorted_wrt (<) ns" by auto
qed

lemma probe_all_rows:
  assumes "probe_all f ps = Inr ids" "distinct ps"
    "\<And>p xs. p \<in> set ps \<Longrightarrow> f p = Inr xs \<Longrightarrow> set xs = {x. P p x} \<and> distinct xs" "\<And>p q x. P p x \<Longrightarrow> P q x \<Longrightarrow> p = q"
  shows "set ids = {x. \<exists>p \<in> set ps. P p x} \<and> distinct ids"
  using assms(1-3)
proof (induction ps arbitrary: ids)
  case (Cons p ps)
  then obtain xs ys where r: "f p = Inr xs" "probe_all f ps = Inr ys" "ids = xs @ ys" by (auto simp: bindR_Inr_iff)
  have x: "set xs = {x. P p x}" "distinct xs" using Cons.prems(3) [of p xs] r(1) by auto
  have y: "set ys = {x. \<exists>q \<in> set ps. P q x} \<and> distinct ys"
    by (rule Cons.IH [OF r(2)]) (use Cons.prems(2,3) in auto)
  have "set xs \<inter> set ys = {}" using x(1) y Cons.prems(2) assms(4) by auto
  then show ?case using r(3) x y by auto
qed simp

lemma EdgesByProperty_content:
  assumes r: "EdgesByProperty T t k v s = Inr es" and u: "usable s" and c: "consistent (content s)"
  shows "set es = edges_with (content s) t k (normalize v)" "sorted_wrt (<) es"
proof -
  let ?m = "content s" and ?v = "normalize v"
  have stored: "edges ?m e = Some rec \<Longrightarrow> map_of (EProps rec) k = Some w \<Longrightarrow> w \<noteq> VNull \<and> normalize w = w" for e rec w
    using edges_ok [OF consistentD(1) [OF c]] canonical_normal ok_props_value by (metis ok_edge_def)
  have "set es = edges_with ?m t k ?v \<and> sorted_wrt (<) es"
  proof (cases "?v = VNull")
    case True
    then show ?thesis using r by (simp add: EdgesByProperty_def edges_with_def QueryEqual_def Values.normalize_def split: val.splits)
  next
    case nn: False
    from r nn obtain has where has: "HasRelIndex T t k s = Inr has" by (auto simp: EdgesByProperty_def Let_def bindR_Inr_iff)
    obtain ps exact where pe: "equalityProbes ?v = (ps, exact)" by (cases "equalityProbes ?v")
    show ?thesis
    proof (cases "has \<and> exact \<and> IsIndexable ?v")
      case True
      let ?f = "\<lambda>p. bindR (RelPropPrefix t k p) (\<lambda>pre. scan_parse T pre (\<lambda>k. bindR (ParseRelPropKey k) (\<lambda>(_, i). Inr i)) s)"
      from r nn has pe True obtain ids where p: "probe_all ?f ps = Inr ids" and es: "es = sort ids"
        by (auto simp: EdgesByProperty_def Let_def bindR_Inr_iff)
      have ik: "?m (relIndexKey t k) \<noteq> None" using HasRelIndex_content [OF has u] True by simp
      have o: "set ids = {e. \<exists>p \<in> set ps. (t, k, p) \<in> edge_entries ?m e} \<and> distinct ids"
      proof (rule probe_all_rows [OF p])
        show "distinct ps" using equalityProbes_distinct [of ?v] pe by simp
        show "set xs = {e. (t, k, p) \<in> edge_entries ?m e} \<and> distinct xs" if "?f p = Inr xs" for p xs
          using that rel_probe_rows [OF c u _ ik, of p xs] by (auto simp: bindR_Inr_iff RelPropPrefix_eq split: if_splits)
      qed (auto simp: edge_entries_iff)
      have q: "map_of (EProps rec) k = Some w \<and> IsIndexable w \<and> w \<in> set ps \<longleftrightarrow> map_of (EProps rec) k = Some w \<and> QueryEqual w ?v"
        if "edges ?m e = Some rec" for e rec w
        using stored [OF that, of w] probes_match [of ?v ps w] pe True by auto
      have "set ids = edges_with ?m t k ?v"
      proof (rule set_eqI)
        fix e
        have "e \<in> set ids \<longleftrightarrow> (\<exists>rec w. edges ?m e = Some rec \<and> EType rec = t \<and> map_of (EProps rec) k = Some w \<and> IsIndexable w \<and> w \<in> set ps)"
          using o unfolding edge_entries_iff by blast
        then show "e \<in> set ids \<longleftrightarrow> e \<in> edges_with ?m t k ?v" unfolding edges_with_def using q [of e] by blast
      qed
      then show ?thesis using es o by (auto simp: strict_sorted_iff)
    next
      case False
      with r nn has pe have f: "edgesByScan T t k ?v s = Inr es"
        by (auto simp: EdgesByProperty_def Let_def split: if_splits)
      then obtain all where a: "edges_of_type t (TScan T s EdgePrefix) = Inr all"
        and es: "es = map EID (filter (\<lambda>e. case map_of (EProps (ERec e)) k of None \<Rightarrow> False | Some w \<Rightarrow> QueryEqual w ?v) all)"
        by (auto simp: edgesByScan_def bindR_Inr_iff)
      have "e \<in> set es \<longleftrightarrow> e \<in> edges_with ?m t k ?v" for e
      proof -
        have "e \<in> set es \<longleftrightarrow> (\<exists>rec. \<lparr>EID = e, ERec = rec\<rparr> \<in> set all \<and> (\<exists>w. map_of (EProps rec) k = Some w \<and> QueryEqual w ?v))"
        proof -
          have x: "(\<exists>x \<in> set all. EID x = e \<and> P (ERec x)) \<longleftrightarrow> (\<exists>rec. \<lparr>EID = e, ERec = rec\<rparr> \<in> set all \<and> P rec)" for P
            by (metis (full_types) Edge.select_convs(1,2) Edge.surjective old.unit.exhaust)
          have "e \<in> set es \<longleftrightarrow> (\<exists>x \<in> set all. EID x = e \<and> (\<exists>w. map_of (EProps (ERec x)) k = Some w \<and> QueryEqual w ?v))"
            unfolding es by (auto split: option.splits)
          then show ?thesis using x [of "\<lambda>rec. \<exists>w. map_of (EProps rec) k = Some w \<and> QueryEqual w ?v"] by simp
        qed
        then show ?thesis unfolding scan_edges_content [OF a u] edges_with_def by auto
      qed
      moreover have "sorted_wrt (<) es" unfolding es
        using edges_of_type_sorted [OF a scan_sorted [OF u]] by (simp add: sorted_wrt_map sorted_wrt_filter)
      ultimately show ?thesis by blast
    qed
  qed
  then show "set es = edges_with ?m t k ?v" "sorted_wrt (<) es" by auto
qed

end

text \<open>
  C11. An index never changes what a lookup finds: whatever indexes exist, \<^verbatim>\<open>NodesByProperty\<close> returns
  exactly the nodes with the label whose value under the key equals the wanted one in the sense of
  queries, in ascending order and once each. Two databases with the same node records give the same
  answer, one of them through the index and the other by scanning the label.
\<close>

theorem node_lookup_exact:
  assumes "txn_store T content usable" and "usable s" and "consistent (content s)" and "NodesByProperty T l k v s = Inr ns"
    and "txn_store T' content' usable'" and "usable' s'" and "consistent (content' s')" and "NodesByProperty T' l k v s' = Inr ns'"
    and "nodes (content' s') = nodes (content s)"
  shows "set ns = nodes_with (content s) l k (normalize v) \<and> sorted_wrt (<) ns \<and> ns' = ns"
proof -
  note a = txn_store.NodesByProperty_content [OF assms(1,4,2,3)]
  note b = txn_store.NodesByProperty_content [OF assms(5,8,6,7)]
  have "set ns' = set ns" using a b assms(9) by (simp add: nodes_with_def)
  then show ?thesis using a b sorted_set_unique by blast
qed

text \<open>
  C12. The same for relationships: \<^verbatim>\<open>EdgesByProperty\<close> finds exactly the edges of the type whose value
  under the key equals the wanted one, with or without a relationship index.
\<close>

theorem edge_lookup_exact:
  assumes "txn_store T content usable" and "usable s" and "consistent (content s)" and "EdgesByProperty T t k v s = Inr es"
    and "txn_store T' content' usable'" and "usable' s'" and "consistent (content' s')" and "EdgesByProperty T' t k v s' = Inr es'"
    and "edges (content' s') = edges (content s)"
  shows "set es = edges_with (content s) t k (normalize v) \<and> sorted_wrt (<) es \<and> es' = es"
proof -
  note a = txn_store.EdgesByProperty_content [OF assms(1,4,2,3)]
  note b = txn_store.EdgesByProperty_content [OF assms(5,8,6,7)]
  have "set es' = set es" using a b assms(9) by (simp add: edges_with_def)
  then show ?thesis using a b sorted_set_unique by blast
qed

text \<open>The pair of nodes without an index, and with the index that backs the constraint.\<close>

lemma pair_tables:
  "nodes (bolt_content memBucket constrained) = nodes (bolt_content memBucket (rows_txn pair_rows))"
  "edges (bolt_content memBucket constrained) = edges (bolt_content memBucket (rows_txn pair_rows))"
proof -
  have "only_in {0x58, 0x70, 0x46, 0x55, 0x75} (bolt_content memBucket (rows_txn pair_rows)) (bolt_content memBucket constrained)"
    unfolding only_in_def
  proof (intro allI impI)
    fix k :: bytes
    assume "hd k \<notin> {0x58, 0x70, 0x46, 0x55, 0x75}"
    then have "map_of constraint_rows k = None" by (auto simp: constraint_rows_def map_of_eq_None_iff)
    then show "bolt_content memBucket constrained k = bolt_content memBucket (rows_txn pair_rows) k"
      by (simp add: bolt_content_def pend_list_def overlay_def map_add_def split: option.split)
  qed
  then show "nodes (bolt_content memBucket constrained) = nodes (bolt_content memBucket (rows_txn pair_rows))"
    "edges (bolt_content memBucket constrained) = edges (bolt_content memBucket (rows_txn pair_rows))"
    by (auto simp: nodes_def edges_def fun_eq_iff only_in_def)
qed

theorem node_lookup_exact_witness:
  "NodesByProperty (boltTxn memBucket) 1 1 (VStr [0x32]) constrained = Inr [2] \<and>
   NodesByProperty (boltTxn memBucket) 1 1 (VStr [0x32]) (rows_txn pair_rows) = Inr [2] \<and>
   set [2] = nodes_with (bolt_content memBucket constrained) 1 1 (VStr [0x32])"
proof -
  have a: "NodesByProperty (boltTxn memBucket) 1 1 (VStr [0x32]) constrained = Inr [2]" by code_simp
  have b: "NodesByProperty (boltTxn memBucket) 1 1 (VStr [0x32]) (rows_txn pair_rows) = Inr [2]" by code_simp
  show ?thesis
    using a b node_lookup_exact [OF mem.bolt.txn_store_axioms mem.bolt.writable_usable [OF constrained_ok(1)] constrained_ok(2) a
        mem.bolt.txn_store_axioms mem.bolt.writable_usable [OF pair_ok(1)] pair_ok(2) b pair_tables(1) [symmetric]]
    by (simp add: Values.normalize_def)
qed

theorem edge_lookup_exact_witness:
  "EdgesByProperty (boltTxn memBucket) 1 1 (VInt 7) constrained = Inr [] \<and>
   set [] = edges_with (bolt_content memBucket constrained) 1 1 (VInt 7)"
proof -
  have a: "EdgesByProperty (boltTxn memBucket) 1 1 (VInt 7) constrained = Inr []" by code_simp
  have b: "EdgesByProperty (boltTxn memBucket) 1 1 (VInt 7) (rows_txn pair_rows) = Inr []" by code_simp
  show ?thesis
    using a b edge_lookup_exact [OF mem.bolt.txn_store_axioms mem.bolt.writable_usable [OF constrained_ok(1)] constrained_ok(2) a
        mem.bolt.txn_store_axioms mem.bolt.writable_usable [OF pair_ok(1)] pair_ok(2) b pair_tables(2) [symmetric]]
    by (simp add: Values.normalize_def)
qed

end
