(* ===== verification/Exec_Write.thy ===== *)
theory Exec_Write
  imports Exec_Eval
    Graph_Query
begin

text \<open>
  The rows of the writing clauses, after \<^verbatim>\<open>internal/exec/write.go\<close> and \<^verbatim>\<open>internal/exec/constraint.go\<close>: what one
  row of CREATE, SET, REMOVE, DELETE and MERGE does to the transaction, and the schema statements that
  create, drop and list indexes and constraints. Each is an action over the context of the query.
\<close>

section \<open>CREATE\<close>

text \<open>
  A row function gets the row by value and returns the changed row: the maps of the source are cloned or
  updated in place, and no other row shares them.
\<close>

definition node_at :: "binding \<Rightarrow> bytes \<Rightarrow> val option" where
  "node_at b x = (case b x of Some (VNode i ls ps) \<Rightarrow> Some (VNode i ls ps) | _ \<Rightarrow> None)"

definition edge_val :: "Edge \<Rightarrow> val" where
  "edge_val e = VEdge (EID e) (EType (ERec e)) (Src (ERec e)) (Dst (ERec e)) (EProps (ERec e))"

definition bind_var :: "binding \<Rightarrow> bytes \<Rightarrow> val \<Rightarrow> binding" where
  "bind_var b x v = (if x \<noteq> [] then b(x \<mapsto> v) else b)"

definition loadNode :: "'s World \<Rightarrow> u64 \<Rightarrow> ('s Context, val) act" where
  "loadNode W i = bnd (query (GetNode (Store W) i)) (\<lambda>n. ret (node_val n))"

definition loadEdge :: "'s World \<Rightarrow> u64 \<Rightarrow> ('s Context, val) act" where
  "loadEdge W i = bnd (query (GetEdge (Store W) i)) (\<lambda>e. ret (edge_val e))"

definition evalProps :: "'s World \<Rightarrow> (bytes \<times> Expr) list \<Rightarrow> binding \<Rightarrow> ('s Context, (bytes \<times> val) list) act" where
  "evalProps W props b = mapA (\<lambda>(k, e). bnd (eval W e b) (\<lambda>v. ret (k, v))) props"

definition createOrReuseNode :: "'s World \<Rightarrow> binding \<Rightarrow> NodePattern \<Rightarrow> ('s Context, val \<times> binding) act" where
  "createOrReuseNode W b n =
     (case (if NVariable n \<noteq> [] then node_at b (NVariable n) else None) of
        Some existing \<Rightarrow> ret (existing, b)
      | None \<Rightarrow>
          bnd (evalProps W (NodePattern.NProps n) b) (\<lambda>props.
          bnd (onTxn (CreateNode (Store W) (NLabels n) props)) (\<lambda>i.
          bnd (loadNode W i) (\<lambda>node.
          ret (node, bind_var b (NVariable n) node)))))"

definition createRel :: "'s World \<Rightarrow> binding \<Rightarrow> RelPattern \<Rightarrow> val \<Rightarrow> val \<Rightarrow> ('s Context, binding) act" where
  "createRel W b r from to =
     (if RDirection r = DirBoth then throw (ErrExec ''CREATE requires a directed relationship'')
      else if length (RTypes r) \<noteq> 1 then throw (ErrExec ''CREATE requires exactly one relationship type'')
      else if VarLength r then throw (ErrExec ''CREATE does not support variable-length relationships'')
      else if RVariable r \<noteq> [] \<and> b (RVariable r) \<noteq> None then throw (ErrExec ''relationship variable is already bound'')
      else
        bnd (evalProps W (RProps r) b) (\<lambda>props.
        let (src, dst) = (if RDirection r = DirIn then (element_id to, element_id from) else (element_id from, element_id to))
        in bnd (onTxn (CreateEdge (Store W) (RTypes r ! 0) src dst props)) (\<lambda>i.
           bnd (loadEdge W i) (\<lambda>edge.
           ret (bind_var b (RVariable r) edge)))))"

fun create_chain :: "'s World \<Rightarrow> binding \<Rightarrow> val \<Rightarrow> PatternChain list \<Rightarrow> ('s Context, binding) act" where
  "create_chain W b prev [] = ret b"
| "create_chain W b prev (ch # chs) =
     bnd (createOrReuseNode W b (ChainNode ch)) (\<lambda>(node, b).
     bnd (createRel W b (ChainRel ch) prev node) (\<lambda>b. create_chain W b node chs))"

definition createPart :: "'s World \<Rightarrow> binding \<Rightarrow> PatternPart \<Rightarrow> ('s Context, binding) act" where
  "createPart W b part =
     bnd (createOrReuseNode W b (Start part)) (\<lambda>(prev, b). create_chain W b prev (Chain part))"

fun create_row :: "'s World \<Rightarrow> PatternPart list \<Rightarrow> binding \<Rightarrow> ('s Context, binding) act" where
  "create_row W [] b = ret b"
| "create_row W (part # parts) b = bnd (createPart W b part) (\<lambda>b. create_row W parts b)"

section \<open>SET, REMOVE and DELETE\<close>

fun applySetClauses :: "'s World \<Rightarrow> binding \<Rightarrow> SetClause list \<Rightarrow> ('s Context, binding) act" where
  "applySetClauses W b [] = ret b"
| "applySetClauses W b (item # items) =
     bnd (case item of
        SetPropertyC (Variable x _) key value \<Rightarrow>
          (case node_at b x of
             None \<Rightarrow> throw (ErrExec ''SET target is not a node'')
           | Some node \<Rightarrow>
               bnd (eval W value b) (\<lambda>v.
               bnd (onTxn (SetProperty (Store W) (element_id node) key v)) (\<lambda>_.
               bnd (loadNode W (element_id node)) (\<lambda>n. ret (b(x \<mapsto> n))))))
      | SetPropertyC _ _ _ \<Rightarrow> throw (ErrExec ''SET target must be a variable's property'')
      | SetLabelsC x labels _ \<Rightarrow>
          (case node_at b x of
             None \<Rightarrow> throw (ErrExec ''SET target is not a node'')
           | Some node \<Rightarrow>
               bnd (onTxn (AddLabels (Store W) (element_id node) labels)) (\<lambda>_.
               bnd (loadNode W (element_id node)) (\<lambda>n. ret (b(x \<mapsto> n)))))
      | SetMapC x value rep _ \<Rightarrow>
          (case node_at b x of
             None \<Rightarrow> throw (ErrExec ''SET target is not a node'')
           | Some node \<Rightarrow>
               bnd (eval W value b) (\<lambda>v.
               bnd (case v of
                      VNull \<Rightarrow> if rep then onTxn (SetNodeProperties (Store W) (element_id node) [] True) else ret ()
                    | VMap m \<Rightarrow> onTxn (SetNodeProperties (Store W) (element_id node) m rep)
                    | _ \<Rightarrow> throw (ErrExec ''SET requires a map value'')) (\<lambda>_.
               bnd (loadNode W (element_id node)) (\<lambda>n. ret (b(x \<mapsto> n)))))))
       (\<lambda>b. applySetClauses W b items)"

fun remove_row :: "'s World \<Rightarrow> RemoveClause list \<Rightarrow> binding \<Rightarrow> ('s Context, binding) act" where
  "remove_row W [] b = ret b"
| "remove_row W (item # items) b =
     bnd (case item of
        RemovePropertyC (Variable x _) key \<Rightarrow>
          (case node_at b x of
             None \<Rightarrow> throw (ErrExec ''REMOVE: not a node'')
           | Some node \<Rightarrow>
               bnd (onTxn (RemoveProperty (Store W) (element_id node) key)) (\<lambda>_.
               bnd (loadNode W (element_id node)) (\<lambda>n. ret (b(x \<mapsto> n)))))
      | RemovePropertyC _ _ \<Rightarrow> throw (ErrExec ''REMOVE target must be a variable's property'')
      | RemoveLabelsC x labels _ \<Rightarrow>
          (case node_at b x of
             None \<Rightarrow> throw (ErrExec ''REMOVE: not a node'')
           | Some node \<Rightarrow>
               bnd (onTxn (RemoveLabels (Store W) (element_id node) labels)) (\<lambda>_.
               bnd (loadNode W (element_id node)) (\<lambda>n. ret (b(x \<mapsto> n))))))
       (\<lambda>b. remove_row W items b)"

definition delete_value :: "'s World \<Rightarrow> bool \<Rightarrow> val \<Rightarrow> ('s Context, unit) act" where
  "delete_value W detach v =
     (case v of
        VNull \<Rightarrow> ret ()
      | VEdge i _ _ _ _ \<Rightarrow> onTxn (DeleteEdge (Store W) i)
      | VNode i _ _ \<Rightarrow> if detach then onTxn (DetachDeleteNode (Store W) i) else onTxn (DeleteNode (Store W) i)
      | _ \<Rightarrow> throw (ErrExec ''DELETE expects a node or relationship''))"

fun delete_row :: "'s World \<Rightarrow> Expr list \<Rightarrow> bool \<Rightarrow> binding \<Rightarrow> ('s Context, binding) act" where
  "delete_row W [] detach b = ret b"
| "delete_row W (e # es) detach b =
     bnd (eval W e b) (\<lambda>v. bnd (delete_value W detach v) (\<lambda>_. delete_row W es detach b))"

section \<open>MERGE\<close>

definition scalarEqualNorm :: "val \<Rightarrow> val \<Rightarrow> bool" where
  "scalarEqualNorm a b =
     (let a = normalize a; b = normalize b
      in if a = VNull \<or> b = VNull then a = VNull \<and> b = VNull else equals a b)"

fun propsMatch :: "'s World \<Rightarrow> props \<Rightarrow> (bytes \<times> Expr) list \<Rightarrow> binding \<Rightarrow> ('s Context, bool) act" where
  "propsMatch W have_props [] b = ret True"
| "propsMatch W have_props ((k, e) # want) b =
     bnd (eval W e b) (\<lambda>expected.
     bnd (query (LookupKey (Store W) k)) (\<lambda>(keyID, found).
       if \<not> found then ret False
       else if \<not> scalarEqualNorm (case map_of have_props keyID of None \<Rightarrow> VNull | Some v \<Rightarrow> v) expected then ret False
       else propsMatch W have_props want b))"

fun resolve_labels :: "'s World \<Rightarrow> bytes list \<Rightarrow> u32 list \<Rightarrow> ('s Context, u32 list option) act" where
  "resolve_labels W [] ids = ret (Some ids)"
| "resolve_labels W (name # names) ids =
     bnd (query (LookupLabel (Store W) name)) (\<lambda>(i, found). if \<not> found then ret None else resolve_labels W names (ids @ [i]))"

definition resolveLabels :: "'s World \<Rightarrow> bytes list \<Rightarrow> ('s Context, u32 list option) act" where
  "resolveLabels W names = resolve_labels W names []"

definition hasAllLabelIDs :: "u32 list \<Rightarrow> u32 list \<Rightarrow> bool" where
  "hasAllLabelIDs labels ids \<longleftrightarrow> list_all (hasLabel labels) ids"

fun reject_null :: "'s World \<Rightarrow> binding \<Rightarrow> (bytes \<times> Expr) list \<Rightarrow> ('s Context, unit) act" where
  "reject_null W b [] = ret ()"
| "reject_null W b ((k, e) # props) =
     bnd (eval W e b) (\<lambda>v. if v = VNull then throw (ErrExec ''cannot MERGE with a null value'') else reject_null W b props)"

definition rejectNullMergeProps :: "'s World \<Rightarrow> binding \<Rightarrow> PatternPart \<Rightarrow> ('s Context, unit) act" where
  "rejectNullMergeProps W b part =
     seqA (reject_null W b (NodePattern.NProps (Start part)))
       (each (\<lambda>ch. seqA (reject_null W b (RProps (ChainRel ch))) (reject_null W b (NodePattern.NProps (ChainNode ch)))) (Chain part))"

fun merge_candidates :: "'s World \<Rightarrow> binding \<Rightarrow> NodePattern \<Rightarrow> u32 list \<Rightarrow> u64 list \<Rightarrow> ('s Context, binding list) act" where
  "merge_candidates W b n ids [] = ret []"
| "merge_candidates W b n ids (i # is) =
     bnd (query (GetNode (Store W) i)) (\<lambda>node.
       if \<not> hasAllLabelIDs (Labels (NRec node)) ids then merge_candidates W b n ids is
       else bnd (propsMatch W (Props (NRec node)) (NodePattern.NProps n) b) (\<lambda>ok.
         if \<not> ok then merge_candidates W b n ids is
         else bnd (merge_candidates W b n ids is) (\<lambda>rows. ret (bind_var b (NVariable n) (node_val node) # rows))))"

definition mergeNode :: "'s World \<Rightarrow> binding \<Rightarrow> NodePattern \<Rightarrow> ('s Context, binding list \<times> bool) act" where
  "mergeNode W b n =
     bnd (resolveLabels W (NLabels n)) (\<lambda>resolved.
     bnd (case resolved of
            None \<Rightarrow> ret []
          | Some ids \<Rightarrow>
              bnd (query (if ids \<noteq> [] then NodesByLabel (Store W) (ids ! 0) else AllNodes (Store W))) (\<lambda>cands.
                merge_candidates W b n ids cands)) (\<lambda>matches.
       if matches \<noteq> [] then ret (matches, True)
       else bnd (createOrReuseNode W b n) (\<lambda>(_, nb). ret ([nb], False))))"

fun merge_edges ::
  "'s World \<Rightarrow> binding \<Rightarrow> RelPattern \<Rightarrow> NodePattern \<Rightarrow> val option \<Rightarrow> u32 list \<Rightarrow> EdgeRef list \<Rightarrow> ('s Context, binding list) act" where
  "merge_edges W b rel e endNode endLabelIDs [] = ret []"
| "merge_edges W b rel e endNode endLabelIDs (r # refs) =
     (let otherID = (if RDirection rel = DirIn then RefSrc r else RefDst r);
          skip = merge_edges W b rel e endNode endLabelIDs refs
      in if (case endNode of Some n \<Rightarrow> otherID \<noteq> element_id n | None \<Rightarrow> False) then skip
         else
           bnd (query (GetNode (Store W) otherID)) (\<lambda>other.
           bnd (if endNode \<noteq> None then ret True
                else if \<not> hasAllLabelIDs (Labels (NRec other)) endLabelIDs then ret False
                else propsMatch W (Props (NRec other)) (NodePattern.NProps e) b) (\<lambda>ok.
             if \<not> ok then skip
             else
               bnd (query (GetEdge (Store W) (RefID r))) (\<lambda>edge.
               bnd (propsMatch W (EProps (ERec edge)) (RProps rel) b) (\<lambda>ok.
                 if \<not> ok then skip
                 else bnd skip (\<lambda>rows.
                   ret (bind_var (bind_var b (RVariable rel) (edge_val edge)) (NVariable e) (node_val other) # rows)))))))"

definition mergeRel :: "'s World \<Rightarrow> binding \<Rightarrow> NodePattern \<Rightarrow> PatternChain \<Rightarrow> ('s Context, binding list \<times> bool) act" where
  "mergeRel W b start ch =
     (let rel = ChainRel ch; e = ChainNode ch
      in if RDirection rel = DirBoth then throw (ErrExec ''MERGE requires a directed relationship'')
         else if length (RTypes rel) \<noteq> 1 then throw (ErrExec ''MERGE requires exactly one relationship type'')
         else if VarLength rel then throw (ErrExec ''MERGE does not support variable-length relationships'')
         else if NVariable start = [] then throw (ErrExec ''MERGE start node must reference a bound variable'')
         else case node_at b (NVariable start) of
           None \<Rightarrow> throw (ErrExec ''MERGE start variable is not bound'')
         | Some startNode \<Rightarrow>
             (let endNode = (if NVariable e \<noteq> [] then node_at b (NVariable e) else None)
              in bnd (resolveLabels W (NLabels e)) (\<lambda>endLabelIDs.
                 bnd (query (LookupType (Store W) (RTypes rel ! 0))) (\<lambda>(typeID, found).
                 bnd (case endLabelIDs of
                        Some ls \<Rightarrow>
                          if found then
                            bnd (query (if RDirection rel = DirOut then OutEdges (Store W) (element_id startNode) typeID
                                        else InEdges (Store W) (element_id startNode) typeID)) (\<lambda>refs.
                              merge_edges W b rel e endNode ls refs)
                          else ret []
                      | None \<Rightarrow> ret []) (\<lambda>matches.
                   if matches \<noteq> [] then ret (matches, True)
                   else
                     bnd (case endNode of
                            Some n \<Rightarrow> ret (n, b)
                          | None \<Rightarrow>
                              bnd (evalProps W (NodePattern.NProps e) b) (\<lambda>props.
                              bnd (onTxn (CreateNode (Store W) (NLabels e) props)) (\<lambda>i.
                              bnd (loadNode W i) (\<lambda>n. ret (n, bind_var b (NVariable e) n))))) (\<lambda>(endResolved, nb).
                     bnd (createRel W nb rel startNode endResolved) (\<lambda>nb. ret ([nb], False))))))))"

definition merge_run :: "'s World \<Rightarrow> PatternPart \<Rightarrow> SetClause list \<Rightarrow> SetClause list \<Rightarrow> binding \<Rightarrow> ('s Context, binding list) act" where
  "merge_run W part onCreate onMatch b =
     seqA (rejectNullMergeProps W b part)
       (bnd (case Chain part of
               [] \<Rightarrow> mergeNode W b (Start part)
             | [ch] \<Rightarrow> mergeRel W b (Start part) ch
             | _ \<Rightarrow> throw (ErrExec ''MERGE with more than one relationship is not yet supported'')) (\<lambda>(rows, wasMatch).
          mapA (\<lambda>row. applySetClauses W row (if wasMatch then onMatch else onCreate)) rows))"

section \<open>Indexes and constraints\<close>

record indexInfo =
  ix_name :: bytes
  ix_label :: bytes
  ix_prop :: bytes
  ix_rel :: bool
  ix_labelID :: u32
  ix_keyID :: u32

definition listAllIndexes :: "'s World \<Rightarrow> ('s Context, indexInfo list) act" where
  "listAllIndexes W =
     bnd (query (ListIndexes (Store W))) (\<lambda>defs.
     bnd (mapA (\<lambda>d. bnd (query (IndexName (Store W) d)) (\<lambda>(label, prop, name).
            ret \<lparr>ix_name = name, ix_label = label, ix_prop = prop, ix_rel = False, ix_labelID = ILabel d, ix_keyID = IPropKey d\<rparr>)) defs) (\<lambda>nodes.
     bnd (query (ListRelIndexes (Store W))) (\<lambda>rdefs.
     bnd (mapA (\<lambda>d. bnd (query (RelIndexName (Store W) d)) (\<lambda>(t, prop, name).
            ret \<lparr>ix_name = name, ix_label = t, ix_prop = prop, ix_rel = True, ix_labelID = RType d, ix_keyID = RPropKey d\<rparr>)) rdefs) (\<lambda>rels.
     ret (nodes @ rels)))))"

definition findAnyIndex :: "'s World \<Rightarrow> bytes \<Rightarrow> ('s Context, indexInfo option) act" where
  "findAnyIndex W name = bnd (listAllIndexes W) (\<lambda>all. ret (find (\<lambda>ix. ix_name ix = name) all))"

definition createRelIndex :: "'s World \<Rightarrow> bytes \<Rightarrow> bytes \<Rightarrow> bytes \<Rightarrow> ('s Context, binding) act" where
  "createRelIndex W name label prop =
     bnd (onTxn (InternType (Store W) label)) (\<lambda>typeID.
     bnd (onTxn (InternKey (Store W) prop)) (\<lambda>keyID.
     bnd (query (GetRelIndex (Store W) typeID keyID)) (\<lambda>def.
       case def of
         Some d \<Rightarrow>
           bnd (query (RelIndexName (Store W) d)) (\<lambda>(_, _, existing).
             if name \<noteq> [] \<and> name \<noteq> existing then throw (ErrExec ''an index already exists under another name'')
             else ret Map.empty)
       | None \<Rightarrow>
           bnd (if name \<noteq> [] then findAnyIndex W name else ret None) (\<lambda>found.
             if found \<noteq> None then throw (ErrExec ''an index of this name already exists'')
             else seqA (onTxn (BuildRelIndex (Store W) typeID keyID name)) (ret Map.empty)))))"

definition createIndex :: "'s World \<Rightarrow> bytes \<Rightarrow> bytes \<Rightarrow> bytes \<Rightarrow> bool \<Rightarrow> ('s Context, binding) act" where
  "createIndex W name label prop rel =
     (if rel then createRelIndex W name label prop
      else
        bnd (onTxn (InternLabel (Store W) label)) (\<lambda>labelID.
        bnd (onTxn (InternKey (Store W) prop)) (\<lambda>keyID.
        bnd (query (HasIndex (Store W) labelID keyID)) (\<lambda>has.
          if has then
            (if name \<noteq> [] then
               bnd (query (GetIndex (Store W) labelID keyID)) (\<lambda>def.
               bnd (query (IndexName (Store W) (case def of Some d \<Rightarrow> d | None \<Rightarrow> \<lparr>ILabel = 0, IPropKey = 0, IName = []\<rparr>)))
                 (\<lambda>(_, _, existing).
                   if existing \<noteq> name then throw (ErrExec ''an index already exists under another name'') else ret Map.empty))
             else ret Map.empty)
          else
            bnd (if name \<noteq> [] then findAnyIndex W name else ret None) (\<lambda>found.
              if found \<noteq> None then throw (ErrExec ''an index of this name already exists'')
              else seqA (onTxn (BuildIndex (Store W) labelID keyID name)) (ret Map.empty))))))"

definition dropIndex :: "'s World \<Rightarrow> bytes \<Rightarrow> bool \<Rightarrow> ('s Context, binding) act" where
  "dropIndex W name ifExists =
     bnd (findAnyIndex W name) (\<lambda>found.
       case found of
         None \<Rightarrow> if ifExists then ret Map.empty else throw (ErrExec ''no such index'')
       | Some ix \<Rightarrow>
           if ix_rel ix then seqA (onTxn (DropRelIndexEntries (Store W) (ix_labelID ix) (ix_keyID ix))) (ret Map.empty)
           else
             bnd (query (GetConstraint (Store W) (ix_labelID ix) (ix_keyID ix))) (\<lambda>c.
               case c of
                 Some d \<Rightarrow>
                   bnd (query (ConstraintName (Store W) d)) (\<lambda>_. throw (ErrExec ''index backs a constraint; drop the constraint instead''))
               | None \<Rightarrow> seqA (onTxn (DropIndexEntries (Store W) (ix_labelID ix) (ix_keyID ix))) (ret Map.empty)))"

definition str_at :: "binding \<Rightarrow> bytes \<Rightarrow> bytes" where
  "str_at b x = (case b x of Some (VStr s) \<Rightarrow> s | _ \<Rightarrow> [])"

text \<open>\<^verbatim>\<open>sort.Slice\<close> promises an order by name only; rows with the same name come in the order of the registries here.\<close>

definition showIndexes :: "'s World \<Rightarrow> ('s Context, binding list) act" where
  "showIndexes W =
     bnd (listAllIndexes W) (\<lambda>all.
       ret (sort_key (\<lambda>b. str_at b (str ''name''))
         (map (\<lambda>ix. [str ''name'' \<mapsto> VStr (ix_name ix), str ''label'' \<mapsto> VStr (ix_label ix), str ''property'' \<mapsto> VStr (ix_prop ix),
            str ''entity'' \<mapsto> VStr (if ix_rel ix then str ''RELATIONSHIP'' else str ''NODE'')]) all)))"

fun find_named :: "'s World \<Rightarrow> bytes \<Rightarrow> ConstraintDef list \<Rightarrow> ('s Context, ConstraintDef option) act" where
  "find_named W name [] = ret None"
| "find_named W name (d # defs) =
     bnd (query (ConstraintName (Store W) d)) (\<lambda>(_, _, n). if n = name then ret (Some d) else find_named W name defs)"

definition findConstraint :: "'s World \<Rightarrow> bytes \<Rightarrow> ('s Context, ConstraintDef option) act" where
  "findConstraint W name = bnd (query (ListConstraints (Store W))) (\<lambda>defs. find_named W name defs)"

definition createConstraint :: "'s World \<Rightarrow> bytes \<Rightarrow> bytes \<Rightarrow> bytes \<Rightarrow> ('s Context, binding) act" where
  "createConstraint W name label prop =
     bnd (onTxn (InternLabel (Store W) label)) (\<lambda>labelID.
     bnd (onTxn (InternKey (Store W) prop)) (\<lambda>keyID.
     bnd (query (GetConstraint (Store W) labelID keyID)) (\<lambda>def.
       case def of
         Some d \<Rightarrow>
           bnd (query (ConstraintName (Store W) d)) (\<lambda>(_, _, existing).
             if name \<noteq> [] \<and> name \<noteq> existing then throw (ErrExec ''a constraint already exists under another name'')
             else ret Map.empty)
       | None \<Rightarrow>
           bnd (if name \<noteq> [] then findConstraint W name else ret None) (\<lambda>found.
             if found \<noteq> None then throw (ErrExec ''a constraint of this name already exists'')
             else seqA (onTxn (AddUniqueConstraint (Store W) labelID keyID name)) (ret Map.empty)))))"

definition dropConstraint :: "'s World \<Rightarrow> bytes \<Rightarrow> bool \<Rightarrow> ('s Context, binding) act" where
  "dropConstraint W name ifExists =
     bnd (findConstraint W name) (\<lambda>found.
       case found of
         None \<Rightarrow> if ifExists then ret Map.empty else throw (ErrExec ''no such constraint'')
       | Some d \<Rightarrow> seqA (onTxn (DropUniqueConstraint (Store W) (CLabel d) (CPropKey d))) (ret Map.empty))"

definition showConstraints :: "'s World \<Rightarrow> ('s Context, binding list) act" where
  "showConstraints W =
     bnd (query (ListConstraints (Store W))) (\<lambda>defs.
     bnd (mapA (\<lambda>d. bnd (query (ConstraintName (Store W) d)) (\<lambda>(label, prop, name).
            ret [str ''name'' \<mapsto> VStr name, str ''label'' \<mapsto> VStr label, str ''property'' \<mapsto> VStr prop, str ''type'' \<mapsto> VStr (str ''UNIQUE'')])) defs)
       (\<lambda>rows. ret (sort_key (\<lambda>b. str_at b (str ''name'')) rows)))"

end
