(* ===== verification/Plan_Op.thy ===== *)
theory Plan_Op
  imports Ast
begin

text \<open>
  The operators of a plan, after \<^verbatim>\<open>query/plan/op.go\<close>.
\<close>

section \<open>Operators\<close>

text \<open>
  One constructor per Go type; a type with many fields takes a record of them. The constructors carry the
  suffix \<open>Op\<close> where the name of the Go type is also that of a clause.
\<close>

record ProjItem =
  PIExpr :: Expr
  PIColumn :: bytes

record SortKey =
  SKExpr :: Expr
  SKDesc :: bool

record NodeRange =
  NRVar :: bytes
  NRLabel :: bytes
  NRKey :: bytes
  NRLower :: "Expr option"
  NRUpper :: "Expr option"
  NRLowerInclusive :: bool
  NRUpperInclusive :: bool
  NRPrefix :: "Expr option"

record ExpandArgs =
  XFrom :: bytes
  XRel :: bytes
  XTo :: bytes
  XTypes :: "bytes list"
  XDir :: Direction
  XVarLength :: bool
  XMinHops :: int
  XMaxHops :: int
  XToBound :: bool
  XToUnused :: bool
  XRelUnused :: bool

record ShortestArgs =
  SPFrom :: bytes
  SPTo :: bytes
  SPPathVar :: bytes
  SPRelVar :: bytes
  SPTypes :: "bytes list"
  SPDir :: Direction
  SPMinHops :: int
  SPMaxHops :: int
  SPAll :: bool

record RelSeek =
  RSRel :: bytes
  RSFrom :: bytes
  RSTo :: bytes
  RSDir :: Direction
  RSType :: bytes
  RSKey :: bytes
  RSValue :: Expr

text \<open>\<open>NoOp\<close> is the nil operator, which the executor reads as the source of one empty row.\<close>

datatype Op =
    NoOp
  | AllNodesScan bytes
  | NodeByLabelScan bytes bytes
  | NodeByProperty bytes bytes bytes Expr
  | NodeByPropertyRange NodeRange
  | ExpandOp Op ExpandArgs
  | FilterOp Op Expr
  | ProjectOp Op "ProjItem list" bool
  | AggregateOp Op "ProjItem list" "ProjItem list" bool
  | SortOp Op "SortKey list"
  | SkipOp Op Expr
  | LimitOp Op Expr
  | CartesianProduct Op Op
  | CreateOp Op "PatternPart list"
  | MergeOp Op PatternPart "SetClause list" "SetClause list"
  | SetItems Op "SetClause list"
  | RemoveOp Op "RemoveClause list"
  | UnwindOp Op Expr bytes
  | Argument
  | OuterApply Op Op "bytes list"
  | Apply Op Op
  | UnionOp "Op list" "bytes list" bool
  | DeleteOp Op "Expr list" bool
  | CreateIndexOp bytes bytes bytes bool
  | DropIndexOp bytes bool
  | ShowIndexesOp
  | CreateConstraintOp bytes bytes bytes
  | DropConstraintOp bytes bool
  | ShowConstraintsOp
  | ShortestPathOp Op ShortestArgs
  | RelByProperty RelSeek

end
