(* ===== verification/Exec_Agg.thy ===== *)
theory Exec_Agg
  imports Plan_Op
    Exec_Eval
begin

text \<open>
  Grouping and the aggregate functions, after \<^verbatim>\<open>internal/exec/aggregate.go\<close>.
\<close>

section \<open>Aggregates\<close>

datatype aggKind = aggCount | aggSum | aggAvg | aggMin | aggMax | aggCollect

record aggSpec =
  ag_kind :: aggKind
  ag_arg :: "Expr option"
  ag_star :: bool
  ag_distinct :: bool

text \<open>A nil value is \<open>VNull\<close>, a nil list the empty one: \<^verbatim>\<open>result\<close> makes no difference. \<open>ac_seen\<close> holds the keys
  of the map of that name.\<close>

record accumulator =
  ac_count :: i64
  ac_sum :: f64
  ac_intSum :: i64
  ac_isInt :: bool
  ac_min :: val
  ac_max :: val
  ac_list :: "val list"
  ac_seen :: "bytes list"

definition newAccumulator :: "aggSpec \<Rightarrow> accumulator" where
  "newAccumulator s =
     \<lparr>ac_count = 0, ac_sum = 0, ac_intSum = 0, ac_isInt = (ag_kind s = aggSum), ac_min = VNull, ac_max = VNull, ac_list = [], ac_seen = []\<rparr>"

definition aggKindOf :: "'s World \<Rightarrow> bytes \<Rightarrow> aggKind option" where
  "aggKindOf W name =
     (let n = ToLower W name
      in if n = str ''count'' then Some aggCount
         else if n = str ''sum'' then Some aggSum
         else if n = str ''avg'' then Some aggAvg
         else if n = str ''min'' then Some aggMin
         else if n = str ''max'' then Some aggMax
         else if n = str ''collect'' then Some aggCollect
         else None)"

definition parseAggFunc :: "'s World \<Rightarrow> ProjItem \<Rightarrow> aggSpec result" where
  "parseAggFunc W it =
     (case PIExpr it of
        FunctionCall name dist star args _ \<Rightarrow>
          (case aggKindOf W name of
             None \<Rightarrow> Inl (ErrExec ''unknown aggregate function'')
           | Some kind \<Rightarrow>
               if star then
                 (if kind \<noteq> aggCount then Inl (ErrExec ''only count takes a star'')
                  else Inr \<lparr>ag_kind = kind, ag_arg = None, ag_star = True, ag_distinct = dist\<rparr>)
               else if length args \<noteq> 1 then Inl (ErrExec ''an aggregate expects exactly one argument'')
               else Inr \<lparr>ag_kind = kind, ag_arg = Some (args ! 0), ag_star = False, ag_distinct = dist\<rparr>)
      | _ \<Rightarrow> Inl (ErrExec ''an aggregate must be a direct function call''))"

fun parseAggFuncs :: "'s World \<Rightarrow> ProjItem list \<Rightarrow> aggSpec list result" where
  "parseAggFuncs W [] = Inr []"
| "parseAggFuncs W (it # items) = bindR (parseAggFunc W it) (\<lambda>s. bindR (parseAggFuncs W items) (\<lambda>ss. Inr (s # ss)))"

definition canonKey :: "'s World \<Rightarrow> val \<Rightarrow> bytes" where
  "canonKey W v =
     (case v of
        VNull \<Rightarrow> str ''n''
      | VBool x \<Rightarrow> if x then str ''b:1'' else str ''b:0''
      | VInt i \<Rightarrow> str ''i:'' @ FormatInt i
      | VFloat f \<Rightarrow> str ''f:'' @ fmt_g W f
      | VStr s \<Rightarrow> str ''s:'' @ s
      | VNode i _ _ \<Rightarrow> str ''N:'' @ decimal (unat i)
      | VEdge i _ _ _ _ \<Rightarrow> str ''E:'' @ decimal (unat i)
      | VPath ns rs \<Rightarrow> str ''P:'' @ pathIDs ns rs
      | _ \<Rightarrow> str ''?:'' @ sprint_v W v)"

definition canonKeyList :: "'s World \<Rightarrow> val list \<Rightarrow> bytes" where
  "canonKeyList W vs = join (str ''|'') (map (canonKey W) vs)"

definition accumulate :: "aggSpec \<Rightarrow> val \<Rightarrow> accumulator \<Rightarrow> accumulator result" where
  "accumulate s v a =
     (case ag_kind s of
        aggCount \<Rightarrow> Inr (a\<lparr>ac_count := ac_count a + 1\<rparr>)
      | aggSum \<Rightarrow>
          (case v of
             VInt n \<Rightarrow>
               if ac_isInt a then bindR (wrapR (addInt (ac_intSum a) n)) (\<lambda>t. Inr (a\<lparr>ac_intSum := t\<rparr>))
               else Inr (a\<lparr>ac_sum := f_add (ac_sum a) (f_of_int (sint n))\<rparr>)
           | VFloat n \<Rightarrow>
               if ac_isInt a then Inr (a\<lparr>ac_sum := f_add (f_of_int (sint (ac_intSum a))) n, ac_isInt := False\<rparr>)
               else Inr (a\<lparr>ac_sum := f_add (ac_sum a) n\<rparr>)
           | _ \<Rightarrow> Inl (ErrExec ''sum: expected a number''))
      | aggAvg \<Rightarrow>
          (case toFloat v of
             None \<Rightarrow> Inl (ErrExec ''avg: expected a number'')
           | Some f \<Rightarrow> Inr (a\<lparr>ac_sum := f_add (ac_sum a) f, ac_count := ac_count a + 1\<rparr>))
      | aggMin \<Rightarrow>
          if ac_min a = VNull then Inr (a\<lparr>ac_min := v\<rparr>)
          else (case compareValues v (ac_min a) of (c, ok) \<Rightarrow> Inr (if ok \<and> c < 0 then a\<lparr>ac_min := v\<rparr> else a))
      | aggMax \<Rightarrow>
          if ac_max a = VNull then Inr (a\<lparr>ac_max := v\<rparr>)
          else (case compareValues v (ac_max a) of (c, ok) \<Rightarrow> Inr (if ok \<and> c > 0 then a\<lparr>ac_max := v\<rparr> else a))
      | aggCollect \<Rightarrow> Inr (a\<lparr>ac_list := ac_list a @ [v]\<rparr>))"

definition acc_add :: "'s World \<Rightarrow> binding \<Rightarrow> aggSpec \<Rightarrow> accumulator \<Rightarrow> ('s Context, accumulator) act" where
  "acc_add W row s a =
     (if ag_star s then ret (a\<lparr>ac_count := ac_count a + 1\<rparr>)
      else case ag_arg s of
        None \<Rightarrow> ret a
      | Some e \<Rightarrow>
          bnd (eval W e row) (\<lambda>v.
            if v = VNull then ret a
            else if ag_distinct s \<and> canonKey W v \<in> set (ac_seen a) then ret a
            else liftR (accumulate s v (if ag_distinct s then a\<lparr>ac_seen := canonKey W v # ac_seen a\<rparr> else a))))"

definition acc_result :: "aggKind \<Rightarrow> accumulator \<Rightarrow> val" where
  "acc_result kind a =
     (case kind of
        aggCount \<Rightarrow> VInt (ac_count a)
      | aggSum \<Rightarrow> if ac_isInt a then VInt (ac_intSum a) else VFloat (ac_sum a)
      | aggAvg \<Rightarrow> if ac_count a = 0 then VNull else VFloat (f_div (ac_sum a) (f_of_int (sint (ac_count a))))
      | aggMin \<Rightarrow> ac_min a
      | aggMax \<Rightarrow> ac_max a
      | aggCollect \<Rightarrow> VList (ac_list a))"

section \<open>Groups\<close>

text \<open>The groups in the order of their first row: the map \<^verbatim>\<open>groups\<close> and the list \<^verbatim>\<open>order\<close> of the source.\<close>

record agg_group =
  gr_key :: bytes
  gr_keys :: "val list"
  gr_accs :: "accumulator list"

definition seed_groups :: "ProjItem list \<Rightarrow> aggSpec list \<Rightarrow> agg_group list" where
  "seed_groups groupKeys specs =
     (if groupKeys = [] then [\<lparr>gr_key = [], gr_keys = [], gr_accs = map newAccumulator specs\<rparr>] else [])"

fun add_all :: "'s World \<Rightarrow> binding \<Rightarrow> aggSpec list \<Rightarrow> accumulator list \<Rightarrow> ('s Context, accumulator list) act" where
  "add_all W b (s # ss) (a # as) = bnd (acc_add W b s a) (\<lambda>a. bnd (add_all W b ss as) (\<lambda>as. ret (a # as)))"
| "add_all W b _ _ = ret []"

fun group_row :: "'s World \<Rightarrow> binding \<Rightarrow> aggSpec list \<Rightarrow> bytes \<Rightarrow> val list \<Rightarrow> agg_group list \<Rightarrow> ('s Context, agg_group list) act" where
  "group_row W b specs key keyVals [] =
     bnd (add_all W b specs (map newAccumulator specs)) (\<lambda>accs. ret [\<lparr>gr_key = key, gr_keys = keyVals, gr_accs = accs\<rparr>])"
| "group_row W b specs key keyVals (g # gs) =
     (if gr_key g = key then bnd (add_all W b specs (gr_accs g)) (\<lambda>accs. ret (g\<lparr>gr_accs := accs\<rparr> # gs))
      else bnd (group_row W b specs key keyVals gs) (\<lambda>gs. ret (g # gs)))"

definition agg_row :: "'s World \<Rightarrow> ProjItem list \<Rightarrow> aggSpec list \<Rightarrow> agg_group list \<Rightarrow> binding \<Rightarrow> ('s Context, agg_group list) act" where
  "agg_row W groupKeys specs groups b =
     bnd (mapA (\<lambda>gk. eval W (PIExpr gk) b) groupKeys) (\<lambda>keyVals.
       group_row W b specs (canonKeyList W keyVals) keyVals groups)"

definition group_out :: "ProjItem list \<Rightarrow> ProjItem list \<Rightarrow> aggSpec list \<Rightarrow> agg_group \<Rightarrow> binding" where
  "group_out groupKeys aggs specs g =
     Map.empty ++ map_of (rev (zip (map PIColumn groupKeys) (gr_keys g)))
       ++ map_of (rev (zip (map PIColumn aggs) (map2 (\<lambda>s a. acc_result (ag_kind s) a) specs (gr_accs g))))"

end
