(* ===== verification/Graph_Range.thy ===== *)
theory Graph_Range
  imports Graph_Query
    Exec_Value
begin

text \<open>
  The cursors and the property range scans of \<^verbatim>\<open>internal/graph/traversal.go\<close>: how a range of values becomes
  bands of index keys with a start and a stop, and the proof that the bands cover every value that the
  comparison of the query language accepts.
\<close>

section \<open>Cursors\<close>

text \<open>
  A cursor holds the rows its storage iterator has still to give: an iterator is a snapshot, so later
  writes of the transaction do not change them. A cursor without rows is exhausted, which is when the
  source closes it; the iterators of the engine close without an error.
\<close>

datatype NodeCursor =
    NodeRows "(bytes \<times> bytes result) list"
  | LabelRows "(bytes \<times> bytes result) list"
  | RangeSegs "((bytes \<times> bytes result) list \<times> (val \<Rightarrow> bool) option) list"

definition ScanAllNodes :: "'s Txn \<Rightarrow> 's \<Rightarrow> NodeCursor" where
  "ScanAllNodes T s = NodeRows (TScan T s NodePrefix)"

definition ScanLabel :: "'s Txn \<Rightarrow> u32 \<Rightarrow> 's \<Rightarrow> NodeCursor" where
  "ScanLabel T labelID s = LabelRows (TScan T s (LabelPrefix labelID))"

definition seg_stop :: "(val \<Rightarrow> bool) option \<Rightarrow> val \<Rightarrow> bool" where
  "seg_stop st v = (case st of None \<Rightarrow> False | Some f \<Rightarrow> f v)"

fun nextInRange ::
  "'s Txn \<Rightarrow> 's \<Rightarrow> ((bytes \<times> bytes result) list \<times> (val \<Rightarrow> bool) option) list \<Rightarrow> (Node option \<times> NodeCursor) result" where
  "nextInRange T s [] = Inr (None, RangeSegs [])"
| "nextInRange T s (([], st) # segs) = nextInRange T s segs"
| "nextInRange T s ((row # rows, st) # segs) =
     bindR (ParsePropKey (fst row)) (\<lambda>(v, i).
       if seg_stop st v then nextInRange T s segs
       else bindR (GetNode T i s) (\<lambda>node. Inr (Some node, RangeSegs ((rows, st) # segs))))"

fun Cursor_Next :: "'s Txn \<Rightarrow> NodeCursor \<Rightarrow> 's \<Rightarrow> (Node option \<times> NodeCursor) result" where
  "Cursor_Next T (RangeSegs segs) s = nextInRange T s segs"
| "Cursor_Next T (NodeRows []) s = Inr (None, NodeRows [])"
| "Cursor_Next T (LabelRows []) s = Inr (None, LabelRows [])"
| "Cursor_Next T (LabelRows (row # rows)) s =
     bindR (ParseLabelKey (fst row)) (\<lambda>(_, i).
     bindR (GetNode T i s) (\<lambda>node. Inr (Some node, LabelRows rows)))"
| "Cursor_Next T (NodeRows (row # rows)) s =
     bindR (NodeIDFromKey (fst row)) (\<lambda>i.
     bindR (snd row) (\<lambda>v.
     bindR (wrapR (DecodeNode v)) (\<lambda>rec. Inr (Some \<lparr>NID = i, NRec = rec\<rparr>, NodeRows rows))))"

fun cursor_size :: "NodeCursor \<Rightarrow> nat" where
  "cursor_size (NodeRows rows) = length rows"
| "cursor_size (LabelRows rows) = length rows"
| "cursor_size (RangeSegs segs) = sum_list (map (length \<circ> fst) segs)"

lemma nextInRange_size: "nextInRange T s segs = Inr (Some node, cur) \<Longrightarrow> cursor_size cur < cursor_size (RangeSegs segs)"
  by (induction T s segs rule: nextInRange.induct) (fastforce simp: bindR_Inr_iff split: if_splits)+

lemma Cursor_Next_size: "Cursor_Next T cur s = Inr (Some node, cur') \<Longrightarrow> cursor_size cur' < cursor_size cur"
  by (induction T cur s rule: Cursor_Next.induct) (auto simp: bindR_Inr_iff nextInRange_size simp del: cursor_size.simps(3))

text \<open>All the nodes of a cursor, read in one state: the loop of a caller that does not write.\<close>

function drain_cursor :: "'s Txn \<Rightarrow> 's \<Rightarrow> NodeCursor \<Rightarrow> Node list result" where
  "drain_cursor T s cur =
     (case Cursor_Next T cur s of
        Inl e \<Rightarrow> Inl e
      | Inr (None, _) \<Rightarrow> Inr []
      | Inr (Some node, cur') \<Rightarrow> bindR (drain_cursor T s cur') (\<lambda>ns. Inr (node # ns)))"
  by pat_completeness auto
termination
  by (relation "measure (\<lambda>(T, s, cur). cursor_size cur)") (auto dest: Cursor_Next_size)

declare drain_cursor.simps [simp del]

section \<open>Ranges\<close>

record PropRange =
  Lower :: val
  Upper :: val
  HasLower :: bool
  HasUpper :: bool
  LowerInclusive :: bool
  UpperInclusive :: bool
  RPrefix :: bytes
  HasPrefix :: bool

record bandPlan =
  band_prefix :: bytes
  band_start :: bytes
  band_stop :: "(val \<Rightarrow> bool) option"

definition valueKind :: "val \<Rightarrow> string" where
  "valueKind v =
     (case v of
        VInt _ \<Rightarrow> ''number''
      | VFloat x \<Rightarrow> if f_isNaN x then '''' else ''number''
      | VStr _ \<Rightarrow> ''string''
      | VBool _ \<Rightarrow> ''bool''
      | _ \<Rightarrow> '''')"

text \<open>The integer and the float bounds. \<^verbatim>\<open>math.Abs(x) >= maxExactInt\<close> holds of the infinities too.\<close>

definition intLowerBound :: "val \<Rightarrow> bool \<Rightarrow> i64 option" where
  "intLowerBound b inclusive =
     (case b of
        VInt x \<Rightarrow> if inclusive then Some x else if x = 0x7FFFFFFFFFFFFFFF then None else Some (x + 1)
      | VFloat x \<Rightarrow>
          if f_isInf x \<or> (\<not> f_isNaN x \<and> maxExactInt * f_unit \<le> \<bar>f_num x\<bar>) then None
          else if inclusive then Some (word_of_int (f_ceil x)) else Some (word_of_int (f_floor x) + 1)
      | _ \<Rightarrow> None)"

definition intUpperBound :: "val \<Rightarrow> bool \<Rightarrow> i64 option" where
  "intUpperBound b inclusive =
     (case b of
        VInt x \<Rightarrow> if inclusive then Some x else if x = 0x8000000000000000 then None else Some (x - 1)
      | VFloat x \<Rightarrow>
          if f_isInf x \<or> (\<not> f_isNaN x \<and> maxExactInt * f_unit \<le> \<bar>f_num x\<bar>) then None
          else if inclusive then Some (word_of_int (f_floor x)) else Some (word_of_int (f_ceil x) - 1)
      | _ \<Rightarrow> None)"

definition intBand :: "bytes \<Rightarrow> u32 \<Rightarrow> u32 \<Rightarrow> PropRange \<Rightarrow> val \<Rightarrow> val \<Rightarrow> bandPlan result" where
  "intBand pre labelID keyID r lo hi =
     bindR (case (if HasLower r then intLowerBound lo (LowerInclusive r) else None) of
              Some l \<Rightarrow> PropPrefix labelID keyID (VInt l)
            | None \<Rightarrow> Inr pre) (\<lambda>start.
     Inr \<lparr>band_prefix = pre, band_start = start,
          band_stop = (case (if HasUpper r then intUpperBound hi (UpperInclusive r) else None) of
             Some u \<Rightarrow> Some (\<lambda>v. case v of VInt i \<Rightarrow> sint u < sint i | _ \<Rightarrow> True)
           | None \<Rightarrow> None)\<rparr>)"

definition floatBound :: "val \<Rightarrow> (f64 \<times> bool) option" where
  "floatBound v =
     (case v of
        VInt x \<Rightarrow> Some (f_of_int (sint x), - maxExactInt < sint x \<and> sint x < maxExactInt)
      | VFloat x \<Rightarrow> Some (x, True)
      | _ \<Rightarrow> None)"

definition float_start :: "f64 \<Rightarrow> bool \<Rightarrow> bool \<Rightarrow> f64" where
  "float_start l exact inclusive =
     (if \<not> exact then Nextafter_down l
      else if \<not> inclusive then Nextafter_up l
      else if f_eq l 0 then f_neg_zero
      else l)"

definition float_stop :: "f64 \<Rightarrow> bool \<Rightarrow> bool \<Rightarrow> val \<Rightarrow> bool" where
  "float_stop u exact inclusive v =
     (case v of
        VFloat f \<Rightarrow>
          if \<not> exact then f_less (Nextafter_up u) f
          else if inclusive then f_less u f
          else f_less u f \<or> f_eq f u
      | _ \<Rightarrow> True)"

definition floatBand :: "bytes \<Rightarrow> u32 \<Rightarrow> u32 \<Rightarrow> PropRange \<Rightarrow> val \<Rightarrow> val \<Rightarrow> bandPlan result" where
  "floatBand pre labelID keyID r lo hi =
     bindR (case (if HasLower r then floatBound lo else None) of
              Some (l, exact) \<Rightarrow>
                if l = 0xFFF0000000000000 then Inr pre
                else PropPrefix labelID keyID (VFloat (float_start l exact (LowerInclusive r)))
            | None \<Rightarrow> Inr pre) (\<lambda>start.
     Inr \<lparr>band_prefix = pre, band_start = start,
          band_stop = (case (if HasUpper r then floatBound hi else None) of
             Some (u, exact) \<Rightarrow>
               if u = 0x7FF0000000000000 then None
               else Some (float_stop u exact (UpperInclusive r))
           | None \<Rightarrow> None)\<rparr>)"

fun range_kind :: "(val \<times> bool) list \<Rightarrow> string \<Rightarrow> string option" where
  "range_kind [] kind = Some kind"
| "range_kind ((v, has) # bs) kind =
     (if \<not> has then range_kind bs kind
      else if valueKind v = '''' \<or> (kind \<noteq> '''' \<and> valueKind v \<noteq> kind) then None
      else range_kind bs (valueKind v))"

definition rangeBands :: "u32 \<Rightarrow> u32 \<Rightarrow> PropRange \<Rightarrow> bandPlan list option result" where
  "rangeBands labelID keyID r =
     (if HasPrefix r then
        let p = AppendStringPrefix (take 9 (PropBandPrefix labelID keyID tagStr)) (RPrefix r)
        in Inr (Some [\<lparr>band_prefix = p, band_start = p, band_stop = None\<rparr>])
      else
        let lo = normalize (Lower r); hi = normalize (Upper r);
            band = PropBandPrefix labelID keyID
        in case range_kind [(lo, HasLower r), (hi, HasUpper r)] '''' of
             None \<Rightarrow> Inr None
           | Some kind \<Rightarrow>
               if kind = ''string'' then
                 bindR (if HasLower r then PropPrefix labelID keyID lo else Inr (band tagStr)) (\<lambda>start.
                 Inr (Some [\<lparr>band_prefix = band tagStr, band_start = start,
                   band_stop = (if HasUpper r then Some (\<lambda>v. case (v, hi) of (VStr s, VStr u) \<Rightarrow> u < s | _ \<Rightarrow> True) else None)\<rparr>]))
               else if kind = ''bool'' then
                 Inr (Some [\<lparr>band_prefix = band tagBool, band_start = band tagBool, band_stop = None\<rparr>])
               else
                 bindR (intBand (band tagInt) labelID keyID r lo hi) (\<lambda>ib.
                 bindR (floatBand (band tagFloat) labelID keyID r lo hi) (\<lambda>fb.
                 Inr (Some [ib, fb]))))"

definition ScanPropertyRange :: "'s Txn \<Rightarrow> u32 \<Rightarrow> u32 \<Rightarrow> PropRange \<Rightarrow> 's \<Rightarrow> NodeCursor option result" where
  "ScanPropertyRange T labelID keyID r s =
     bindR (rangeBands labelID keyID r) (\<lambda>plans.
       case plans of
         None \<Rightarrow> Inr None
       | Some ps \<Rightarrow>
           Inr (Some (RangeSegs (map (\<lambda>p. (TScanFrom T s (band_prefix p) (band_start p), band_stop p)) ps))))"

section \<open>Bounds and the order of the index\<close>

text \<open>
  \<open>range_accepts r v\<close> is the predicate the scan stands for, in the comparison of the query language.
\<close>

definition range_accepts :: "PropRange \<Rightarrow> val \<Rightarrow> bool" where
  "range_accepts r v \<longleftrightarrow>
     (if HasPrefix r then (case v of VStr t \<Rightarrow> prefix (RPrefix r) t | _ \<Rightarrow> False)
      else (HasLower r \<longrightarrow> compareOp (if LowerInclusive r then ''>='' else ''>'') v (Lower r) = VBool True) \<and>
           (HasUpper r \<longrightarrow> compareOp (if UpperInclusive r then ''<='' else ''<'') v (Upper r) = VBool True))"

lemma word_bounds: "\<bar>sint (x :: i64)\<bar> \<le> 2 ^ 63" "- (2 ^ 63) \<le> sint (x :: i64)" "sint (x :: i64) < 2 ^ 63"
  using sint_range_size [of x] by (auto simp: word_size)

lemma of_int_not_NaN: "\<not> f_isNaN (f_of_int (sint (x :: i64)))"
  using f_num_of_int(2) [of "sint x"] word_bounds(1) [of x] by simp

text \<open>A float below $2^{53}$ compares with an integer as its floor and its ceiling do.\<close>

lemma floor_bounds:
  assumes "\<not> maxExactInt * f_unit \<le> \<bar>f_num y\<bar>"
  shows "- (2 ^ 53) \<le> f_floor y" "f_floor y < 2 ^ 53" "- (2 ^ 53) < f_ceil y" "f_ceil y \<le> 2 ^ 53"
proof -
  have "f_num y < 2 ^ 53 * f_unit" "- (2 ^ 53) * f_unit < f_num y" using assms by (auto simp: maxExactInt_def)
  then show "- (2 ^ 53) \<le> f_floor y" "f_floor y < 2 ^ 53" "- (2 ^ 53) < f_ceil y" "f_ceil y \<le> 2 ^ 53"
    using int_le_div_iff [of f_unit "- (2 ^ 53)" "f_num y"] int_div_less_iff [of f_unit "f_num y" "2 ^ 53"]
      int_le_div_iff [of f_unit "- (2 ^ 53)" "- f_num y"] int_div_less_iff [of f_unit "- f_num y" "2 ^ 53"]
    by (auto simp: f_floor_def f_ceil_def)
qed

lemma of_int_floor:
  assumes "\<not> maxExactInt * f_unit \<le> \<bar>f_num y\<bar>"
  shows "f_num y \<le> f_num (f_of_int (sint (x :: i64))) \<longleftrightarrow> f_ceil y \<le> sint x"
    "f_num y < f_num (f_of_int (sint x)) \<longleftrightarrow> f_floor y < sint x"
proof -
  note b = floor_bounds [OF assms]
  have y: "f_num y < 2 ^ 53 * f_unit" "- (2 ^ 53) * f_unit < f_num y" using assms by (auto simp: maxExactInt_def)
  have "(f_num y \<le> f_num (f_of_int (sint x)) \<longleftrightarrow> f_ceil y \<le> sint x) \<and> (f_num y < f_num (f_of_int (sint x)) \<longleftrightarrow> f_floor y < sint x)"
  proof (cases "\<bar>sint x\<bar> \<le> 2 ^ 53")
    case True
    then show ?thesis
      using int_le_div_iff [of f_unit "- sint x" "- f_num y"] int_div_less_iff [of f_unit "f_num y" "sint x"]
      by (auto simp: f_of_int_exact f_ceil_def f_floor_def)
  next
    case False
    then have l: "2 ^ 53 * f_unit \<le> \<bar>f_num (f_of_int (sint x))\<bar>" "sgn (f_num (f_of_int (sint x))) = sgn (sint x)"
      using f_of_int_large [of "sint x"] word_bounds(1) [of x] by auto
    show ?thesis
    proof (cases "0 < sint x")
      case True
      then have "0 < f_num (f_of_int (sint x))" using l(2) by (simp add: sgn_if split: if_splits)
      with l(1) y b False True show ?thesis by linarith
    next
      case neg: False
      then have "f_num (f_of_int (sint x)) < 0" using l(2) False by (simp add: sgn_if split: if_splits)
      with l(1) y b False neg show ?thesis by linarith
    qed
  qed
  then show "f_num y \<le> f_num (f_of_int (sint x)) \<longleftrightarrow> f_ceil y \<le> sint x" "f_num y < f_num (f_of_int (sint x)) \<longleftrightarrow> f_floor y < sint x"
    by simp_all
qed

text \<open>What an accepted comparison says, by the kinds of its sides.\<close>

lemma compareOp_true:
  "compareOp (if i then ''>='' else ''>'') a b = VBool True \<longleftrightarrow>
     normalize a \<noteq> VNull \<and> normalize b \<noteq> VNull \<and> \<not> isNaN (normalize a) \<and> \<not> isNaN (normalize b) \<and>
     (\<exists>c. compareValues (normalize a) (normalize b) = (c, True) \<and> (if i then 0 \<le> c else 0 < c))"
  "compareOp (if i then ''<='' else ''<'') a b = VBool True \<longleftrightarrow>
     normalize a \<noteq> VNull \<and> normalize b \<noteq> VNull \<and> \<not> isNaN (normalize a) \<and> \<not> isNaN (normalize b) \<and>
     (\<exists>c. compareValues (normalize a) (normalize b) = (c, True) \<and> (if i then c \<le> 0 else c < 0))"
  by (auto simp: compareOp_def Let_def split: prod.splits if_splits)

lemmas compare_simps = compareOp_true compareValues_def Values.normalize_def isNaN_def Let_def

lemma compareOp_ints:
  "compareOp (if i then ''>='' else ''>'') (VInt x) (VInt y) = VBool True \<longleftrightarrow> (if i then sint y \<le> sint x else sint y < sint x)"
  "compareOp (if i then ''<='' else ''<'') (VInt x) (VInt y) = VBool True \<longleftrightarrow> (if i then sint x \<le> sint y else sint x < sint y)"
  by (auto simp: compare_simps cmpInt64_def)

lemma compareOp_int_float:
  "compareOp (if i then ''>='' else ''>'') (VInt x) (VFloat y) = VBool True \<longleftrightarrow>
     \<not> f_isNaN y \<and> (if i then f_num y \<le> f_num (f_of_int (sint x)) else f_num y < f_num (f_of_int (sint x)))"
  "compareOp (if i then ''<='' else ''<'') (VInt x) (VFloat y) = VBool True \<longleftrightarrow>
     \<not> f_isNaN y \<and> (if i then f_num (f_of_int (sint x)) \<le> f_num y else f_num (f_of_int (sint x)) < f_num y)"
  by (auto simp: compare_simps cmpFloat64_def f_less_def of_int_not_NaN)

lemma compareOp_float:
  assumes "floatBound w = Some (y, exact)"
  shows "compareOp (if i then ''>='' else ''>'') (VFloat x) w = VBool True \<longleftrightarrow>
     \<not> f_isNaN x \<and> \<not> f_isNaN y \<and> (if i then f_num y \<le> f_num x else f_num y < f_num x)"
  "compareOp (if i then ''<='' else ''<'') (VFloat x) w = VBool True \<longleftrightarrow>
     \<not> f_isNaN x \<and> \<not> f_isNaN y \<and> (if i then f_num x \<le> f_num y else f_num x < f_num y)"
  using assms by (auto simp: compare_simps cmpFloat64_def f_less_def of_int_not_NaN floatBound_def split: val.splits)

lemma sint_step: "x \<noteq> 0x7FFFFFFFFFFFFFFF \<Longrightarrow> sint (x + 1 :: i64) = sint x + 1" "x \<noteq> 0x8000000000000000 \<Longrightarrow> sint (x - 1 :: i64) = sint x - 1"
proof -
  assume "x \<noteq> 0x7FFFFFFFFFFFFFFF"
  then have "sint x \<noteq> 2 ^ 63 - 1" using sint_eq_iff [of x "0x7FFFFFFFFFFFFFFF"] by simp
  then have "fits (sint x + 1)" using word_bounds(2,3) [of x] unfolding fits_def by linarith
  then show "sint (x + 1 :: i64) = sint x + 1" using sint_of_int [of "sint x + 1"] by simp
next
  assume "x \<noteq> 0x8000000000000000"
  then have "sint x \<noteq> - (2 ^ 63)" using sint_eq_iff [of x "0x8000000000000000"] by simp
  then have "fits (sint x - 1)" using word_bounds(2,3) [of x] unfolding fits_def by linarith
  then show "sint (x - 1 :: i64) = sint x - 1" using sint_of_int [of "sint x - 1"] by simp
qed

lemma sint_small: "- (2 ^ 62) \<le> i \<Longrightarrow> i \<le> 2 ^ 62 \<Longrightarrow> sint (word_of_int i :: i64) = i"
  by (rule sint_of_int) (simp add: fits_def)

lemma sint_small_step:
  assumes "- (2 ^ 53) \<le> i" "i \<le> 2 ^ 53"
  shows "sint (word_of_int i + 1 :: i64) = i + 1" "sint (word_of_int i - 1 :: i64) = i - 1"
  using assms sint_small [of "i + 1"] sint_small [of "i - 1"] by simp_all

section \<open>The bands cover what is accepted\<close>

lemma int_bounds_cover:
  assumes "\<And>y. b = VFloat y \<Longrightarrow> \<not> f_isNaN y"
  shows "intLowerBound b i = Some l \<Longrightarrow> compareOp (if i then ''>='' else ''>'') (VInt x) b = VBool True \<Longrightarrow> sint l \<le> sint x"
    "intUpperBound b i = Some u \<Longrightarrow> compareOp (if i then ''<='' else ''<'') (VInt x) b = VBool True \<Longrightarrow> sint x \<le> sint u"
proof -
  have f: "sint (word_of_int (f_ceil y) :: i64) = f_ceil y" "sint (word_of_int (f_floor y) + 1 :: i64) = f_floor y + 1"
    "sint (word_of_int (f_floor y) :: i64) = f_floor y" "sint (word_of_int (f_ceil y) - 1 :: i64) = f_ceil y - 1"
    if "\<not> maxExactInt * f_unit \<le> \<bar>f_num y\<bar>" for y
    using floor_bounds [OF that] sint_small [of "f_ceil y"] sint_small [of "f_floor y"]
      sint_small_step [of "f_floor y"] sint_small_step [of "f_ceil y"] by auto
  show "intLowerBound b i = Some l \<Longrightarrow> compareOp (if i then ''>='' else ''>'') (VInt x) b = VBool True \<Longrightarrow> sint l \<le> sint x"
  proof (cases b)
    case (VFloat y)
    then show "intLowerBound b i = Some l \<Longrightarrow> compareOp (if i then ''>='' else ''>'') (VInt x) b = VBool True \<Longrightarrow> sint l \<le> sint x"
      using assms [OF VFloat] by (auto simp: intLowerBound_def compareOp_int_float of_int_floor f split: if_splits)
  qed (auto simp: intLowerBound_def compareOp_ints sint_step split: if_splits)
  show "intUpperBound b i = Some u \<Longrightarrow> compareOp (if i then ''<='' else ''<'') (VInt x) b = VBool True \<Longrightarrow> sint x \<le> sint u"
  proof (cases b)
    case (VFloat y)
    then show "intUpperBound b i = Some u \<Longrightarrow> compareOp (if i then ''<='' else ''<'') (VInt x) b = VBool True \<Longrightarrow> sint x \<le> sint u"
      using assms [OF VFloat] of_int_floor [of y x]
      by (auto simp: intUpperBound_def compareOp_int_float f split: if_splits)
  qed (auto simp: intUpperBound_def compareOp_ints sint_step split: if_splits)
qed

text \<open>Neighbours in the order of the floats.\<close>

lemma bits_step:
  assumes "f_abs_bits b + 1 < 2 ^ 63"
  shows "f_neg (b + 1) \<longleftrightarrow> f_neg b" "f_abs_bits (b + 1) = f_abs_bits b + 1"
proof -
  have u: "uint (b + 1) = uint b + 1"
    using assms uint_f64 [of b] f_abs_bits_bounds [of b] by (simp add: uint_word_ariths mod_pos_pos_trivial split: if_splits)
  have n: "f_neg (b + 1) \<longleftrightarrow> 2 ^ 63 \<le> uint b + 1" unfolding f_neg_def u ..
  show "f_neg (b + 1) \<longleftrightarrow> f_neg b" unfolding n using assms uint_f64 [of b] f_abs_bits_bounds [of b] by (cases "f_neg b") simp_all
  then show "f_abs_bits (b + 1) = f_abs_bits b + 1"
    using u uint_f64 [of b] uint_f64 [of "b + 1"] by simp
qed

lemma bits_back:
  assumes "f_abs_bits b \<noteq> 0"
  shows "f_neg (b - 1) \<longleftrightarrow> f_neg b" "f_abs_bits (b - 1) = f_abs_bits b - 1"
proof -
  have u: "uint (b - 1) = uint b - 1"
    using assms uint_f64 [of b] f_abs_bits_bounds [of b] by (simp add: uint_word_ariths mod_pos_pos_trivial split: if_splits)
  have n: "f_neg (b - 1) \<longleftrightarrow> 2 ^ 63 \<le> uint b - 1" unfolding f_neg_def u ..
  show "f_neg (b - 1) \<longleftrightarrow> f_neg b" unfolding n using assms uint_f64 [of b] f_abs_bits_bounds [of b] by (cases "f_neg b") simp_all
  then show "f_abs_bits (b - 1) = f_abs_bits b - 1"
    using u uint_f64 [of b] uint_f64 [of "b - 1"] by simp
qed

lemma inf_fields: "f_neg 0x7FF0000000000000 = False" "f_abs_bits 0x7FF0000000000000 = inf_bits" "f_neg 0xFFF0000000000000" "f_abs_bits 0xFFF0000000000000 = inf_bits"
  by (simp_all add: f_neg_def f_abs_bits_def)

lemma zero_fields: "f_neg 1 = False" "f_abs_bits 1 = 1" "f_neg 0x8000000000000001" "f_abs_bits 0x8000000000000001 = 1" "f_rank f_neg_zero = - 1"
  by (simp_all add: f_neg_def f_abs_bits_def f_rank_def f_neg_zero_def)

lemma rank_eqI: "f_neg a = f_neg b \<Longrightarrow> f_abs_bits a = f_abs_bits b \<Longrightarrow> a = b"
  by (metis f_rank_inject f_rank_def)

lemma Nextafter_rank:
  assumes "\<not> f_isNaN b"
  shows "f_rank (Nextafter_up b) \<le> (if f_abs_bits b = 0 then 1 else f_rank b + 1)" "f_rank b \<le> f_rank (Nextafter_up b)"
    "f_rank (Nextafter_down b) \<le> f_rank b"
proof -
  have n: "f_abs_bits b \<le> inf_bits" using assms by (simp add: f_isNaN_def)
  then have m: "f_abs_bits b + 1 < 2 ^ 63" by simp
  note s = bits_step [OF m] and k = bits_back [of b] and p = f_abs_bits_bounds(1) [of b]
  show "f_rank (Nextafter_up b) \<le> (if f_abs_bits b = 0 then 1 else f_rank b + 1)" "f_rank b \<le> f_rank (Nextafter_up b)"
    "f_rank (Nextafter_down b) \<le> f_rank b"
    using s k p by (auto simp: Nextafter_up_def Nextafter_down_def f_rank_def zero_fields inf_fields)
qed

lemma float_start_covers:
  assumes "\<not> f_isNaN l" "\<not> f_isNaN x" "if i then f_num l \<le> f_num x else f_num l < f_num x"
  shows "f_rank (float_start l exact i) \<le> f_rank x"
proof -
  have le: "f_num l \<le> f_num x" using assms(3) by (cases i) auto
  have z: "f_num b = 0 \<longleftrightarrow> f_abs_bits b = 0" for b using f_num_0_iff [of b] f_abs_bits_0_iff [of b] by simp
  have r: "f_rank l \<le> f_rank x" if "f_abs_bits l \<noteq> 0"
  proof (cases "f_num l = f_num x")
    case True
    then show ?thesis using that by (auto simp: f_num_eq_iff)
  qed (use le f_num_less_rank [of l x] in auto)
  have zero: "- 1 \<le> f_rank x" if "0 \<le> f_num x"
  proof (rule ccontr)
    assume "\<not> - 1 \<le> f_rank x"
    then have "f_neg x" "f_abs_bits x \<noteq> 0" using f_abs_bits_bounds(1) [of x] by (auto simp: f_rank_def split: if_splits)
    then have "f_num x < 0" using z [of x] mag_nonneg [OF f_abs_bits_bounds(1) [of x]] by (auto simp: f_num_def)
    with that show False by simp
  qed
  have down: "f_rank (Nextafter_down l) \<le> f_rank x"
  proof (cases "f_abs_bits l = 0")
    case True
    then have "f_rank (Nextafter_down l) = - 2"
      by (auto simp: Nextafter_down_def f_rank_def zero_fields inf_fields)
    with zero True le z [of l] show ?thesis by simp
  qed (use r Nextafter_rank(3) [OF assms(1)] in auto)
  have up: "f_rank (Nextafter_up l) \<le> f_rank x" if "f_num l < f_num x"
  proof (cases "f_abs_bits l = 0")
    case True
    then have "0 < f_num x" using that z [of l] by simp
    then have "\<not> f_neg x" "f_abs_bits x \<noteq> 0" using z [of x] mag_nonneg [OF f_abs_bits_bounds(1) [of x]] by (auto simp: f_num_def split: if_splits)
    with True show ?thesis using Nextafter_rank(1) [OF assms(1)] f_abs_bits_bounds(1) [of x] by (simp add: f_rank_def)
  qed (use Nextafter_rank(1) [OF assms(1)] f_num_less_rank [OF that] in auto)
  have same: "f_rank (if f_eq l 0 then f_neg_zero else l) \<le> f_rank x"
  proof (cases "f_abs_bits l = 0")
    case True
    then show ?thesis using zero le z [of l] assms(1) by (auto simp: f_eq_def zero_fields f_isNaN_def f_num_0_iff f_abs_bits_def)
  next
    case False
    then show ?thesis using r z [of l] f_num_0_iff [of 0] by (auto simp: f_eq_def)
  qed
  show ?thesis using down up same assms(3) by (cases i) (auto simp: float_start_def)
qed

lemma float_stop_covers:
  assumes "\<not> f_isNaN u" "if i then f_num x \<le> f_num u else f_num x < f_num u" "f_rank w \<le> f_rank x"
  shows "\<not> float_stop u exact i (VFloat w)"
  using assms f_rank_mono [OF assms(3)] f_rank_mono [OF Nextafter_rank(2) [OF assms(1)]]
  by (auto simp: float_stop_def f_less_def f_eq_def split: if_splits)

text \<open>The index keys of one label and property share their first nine bytes.\<close>

definition ix_base :: "u32 \<Rightarrow> u32 \<Rightarrow> bytes" where
  "ix_base l k = KeyProp # PutUint32 l @ PutUint32 k"

lemma ix_base_keys:
  "p_key l k v n = ix_base l k @ ienc v @ PutUint64 n" "PropBandPrefix l k t = ix_base l k @ [t]"
  "take 9 (PropBandPrefix l k t) = ix_base l k"
  "IsIndexable v \<Longrightarrow> PropPrefix l k v = Inr (ix_base l k @ ienc v)"
  by (simp_all add: ix_base_def p_key_def PropBandPrefix_def append_int_defs PropPrefix_eq)

lemma base_less: "(xs :: bytes) @ ys < xs @ zs \<longleftrightarrow> ys < zs"
  by (induction xs) auto

lemma base_le: "(xs :: bytes) @ ys \<le> xs @ zs \<longleftrightarrow> ys \<le> zs"
  by (auto simp: base_less order_le_less)

definition covers :: "bandPlan \<Rightarrow> u32 \<Rightarrow> u32 \<Rightarrow> val \<Rightarrow> bool" where
  "covers p l k v \<longleftrightarrow>
     (\<forall>n. prefix (band_prefix p) (p_key l k v n) \<and> band_start p \<le> p_key l k v n) \<and>
     (\<forall>w n. IsIndexable w \<longrightarrow> prefix (band_prefix p) (p_key l k w n) \<longrightarrow> w = v \<or> ival_less w v \<longrightarrow> \<not> seg_stop (band_stop p) w)"

lemma covers_iff:
  assumes "band_prefix p = ix_base l k @ q" "band_start p = ix_base l k @ st"
    "\<And>zs. prefix q (ienc v @ zs)" "\<And>zs. st \<le> ienc v @ zs"
    "\<And>w zs. IsIndexable w \<Longrightarrow> prefix q (ienc w @ zs) \<Longrightarrow> w = v \<or> ival_less w v \<Longrightarrow> \<not> seg_stop (band_stop p) w"
  shows "covers p l k v"
  unfolding covers_def assms(1,2) ix_base_keys(1) same_prefix_prefix base_le
  using assms(3-5) by blast

lemma start_le:
  assumes "IsIndexable v" "IsIndexable w" "ival_less v w \<or> v = w"
  shows "ienc v \<le> ienc w @ zs"
proof (cases "v = w")
  case True
  then show ?thesis using prefix_le [of "ienc w" "ienc w @ zs"] by simp
qed (use assms ienc_less [OF assms(1,2), of "[]" zs] in auto)

lemma tag_prefix:
  assumes "IsIndexable w"
  shows "prefix [tagInt] (ienc w @ zs) \<longleftrightarrow> (\<exists>x. w = VInt x)" "prefix [tagFloat] (ienc w @ zs) \<longleftrightarrow> (\<exists>x. w = VFloat x)"
    "prefix [tagStr] (ienc w @ zs) \<longleftrightarrow> (\<exists>x. w = VStr x)" "prefix [tagBool] (ienc w @ zs) \<longleftrightarrow> (\<exists>x. w = VBool x)"
  by (rule IsIndexable_cases [OF assms]; simp add: ienc_simps tag_defs)+

lemma intBand_covers:
  assumes "intBand (PropBandPrefix l k tagInt) l k r lo hi = Inr p"
    and "HasLower r \<Longrightarrow> compareOp (if LowerInclusive r then ''>='' else ''>'') (VInt x) lo = VBool True"
    and "HasUpper r \<Longrightarrow> compareOp (if UpperInclusive r then ''<='' else ''<'') (VInt x) hi = VBool True"
  shows "covers p l k (VInt x)"
proof -
  have ix: "IsIndexable (VInt y)" for y by (simp add: IsIndexable_def)
  obtain st where p: "band_prefix p = ix_base l k @ [tagInt]" "band_start p = ix_base l k @ st"
    and st: "st = (case (if HasLower r then intLowerBound lo (LowerInclusive r) else None) of Some b \<Rightarrow> ienc (VInt b) | None \<Rightarrow> [tagInt])"
    and stop: "band_stop p = (case (if HasUpper r then intUpperBound hi (UpperInclusive r) else None) of
       Some u \<Rightarrow> Some (\<lambda>v. case v of VInt i \<Rightarrow> sint u < sint i | _ \<Rightarrow> True) | None \<Rightarrow> None)"
    using assms(1) by (auto simp: intBand_def bindR_Inr_iff ix_base_keys ix split: option.splits)
  have nlo: "\<not> f_isNaN y" if "HasLower r" "lo = VFloat y" for y
    using assms(2) [OF that(1)] compareOp_int_float(1) [of "LowerInclusive r" x y] that(2) by simp
  have nhi: "\<not> f_isNaN y" if "HasUpper r" "hi = VFloat y" for y
    using assms(3) [OF that(1)] compareOp_int_float(2) [of "UpperInclusive r" x y] that(2) by simp
  show ?thesis
  proof (rule covers_iff [OF p])
    show t: "prefix [tagInt] (ienc (VInt x) @ zs)" for zs by (simp add: ienc_simps)
    show "st \<le> ienc (VInt x) @ zs" for zs
    proof (cases "if HasLower r then intLowerBound lo (LowerInclusive r) else None")
      case (Some b)
      then have h: "HasLower r" "intLowerBound lo (LowerInclusive r) = Some b" by (simp_all split: if_splits)
      then have "sint b \<le> sint x" using int_bounds_cover(1) [OF nlo [OF h(1)] h(2)] assms(2) by simp
      then have "ival_less (VInt b) (VInt x) \<or> VInt b = VInt x" using sint_eq_iff [of b x] by auto
      from start_le [OF ix ix this] Some show ?thesis by (simp add: st)
    qed (use prefix_le [OF t] in \<open>simp add: st\<close>)
    show "\<not> seg_stop (band_stop p) w" if "IsIndexable w" "prefix [tagInt] (ienc w @ zs)" "w = VInt x \<or> ival_less w (VInt x)" for w zs
    proof (cases "if HasUpper r then intUpperBound hi (UpperInclusive r) else None")
      case (Some u)
      then have h: "HasUpper r" "intUpperBound hi (UpperInclusive r) = Some u" by (simp_all split: if_splits)
      then have "sint x \<le> sint u" using int_bounds_cover(2) [OF nhi [OF h(1)] h(2)] assms(3) by simp
      then show ?thesis using that Some by (auto simp: tag_prefix stop seg_stop_def)
    qed (simp add: stop seg_stop_def)
  qed
qed

lemma floatBand_covers:
  assumes "floatBand (PropBandPrefix l k tagFloat) l k r lo hi = Inr p" "\<not> f_isNaN x"
    and lo: "HasLower r \<Longrightarrow> compareOp (if LowerInclusive r then ''>='' else ''>'') (VFloat x) lo = VBool True"
    and hi: "HasUpper r \<Longrightarrow> compareOp (if UpperInclusive r then ''<='' else ''<'') (VFloat x) hi = VBool True"
  shows "covers p l k (VFloat x)"
proof -
  have ix: "IsIndexable (VFloat y)" for y by (simp add: IsIndexable_def)
  obtain st where p: "band_prefix p = ix_base l k @ [tagFloat]" "band_start p = ix_base l k @ st"
    and st: "st = (case (if HasLower r then floatBound lo else None) of
        Some (b, exact) \<Rightarrow> if b = 0xFFF0000000000000 then [tagFloat] else ienc (VFloat (float_start b exact (LowerInclusive r)))
      | None \<Rightarrow> [tagFloat])"
    and stop: "band_stop p = (case (if HasUpper r then floatBound hi else None) of
       Some (u, exact) \<Rightarrow> if u = 0x7FF0000000000000 then None else Some (float_stop u exact (UpperInclusive r)) | None \<Rightarrow> None)"
    using assms(1) by (auto simp: floatBand_def bindR_Inr_iff ix_base_keys ix split: option.splits if_splits)
  show ?thesis
  proof (rule covers_iff [OF p])
    show t: "prefix [tagFloat] (ienc (VFloat x) @ zs)" for zs by (simp add: ienc_simps)
    show "st \<le> ienc (VFloat x) @ zs" for zs
    proof (cases "if HasLower r then floatBound lo else None")
      case (Some be)
      obtain b exact where be: "be = (b, exact)" by (cases be)
      with Some have "HasLower r" "floatBound lo = Some (b, exact)" by (auto split: if_splits)
      with lo compareOp_float(1) [of lo b exact "LowerInclusive r" x]
      have "f_rank (float_start b exact (LowerInclusive r)) \<le> f_rank x" by (intro float_start_covers) auto
      then have "ival_less (VFloat (float_start b exact (LowerInclusive r))) (VFloat x) \<or> VFloat (float_start b exact (LowerInclusive r)) = VFloat x"
        by (auto simp: order_le_less)
      from start_le [OF ix ix this] Some be prefix_le [OF t] show ?thesis by (simp add: st)
    qed (use prefix_le [OF t] in \<open>simp add: st\<close>)
    show "\<not> seg_stop (band_stop p) w" if h: "IsIndexable w" "prefix [tagFloat] (ienc w @ zs)" "w = VFloat x \<or> ival_less w (VFloat x)" for w zs
    proof (cases "if HasUpper r then floatBound hi else None")
      case (Some ue)
      obtain u exact where ue: "ue = (u, exact)" by (cases ue)
      obtain y where y: "w = VFloat y" using h(1,2) by (auto simp: tag_prefix)
      from ue Some have "HasUpper r" "floatBound hi = Some (u, exact)" by (auto split: if_splits)
      with hi compareOp_float(2) [of hi u exact "UpperInclusive r" x]
      have u: "\<not> f_isNaN u" "if UpperInclusive r then f_num x \<le> f_num u else f_num x < f_num u" by auto
      have "f_rank y \<le> f_rank x" using h(3) y by auto
      from float_stop_covers [OF u this] show ?thesis using Some ue y by (simp add: stop seg_stop_def)
    qed (simp add: stop seg_stop_def)
  qed
qed

lemma accepted_kind:
  assumes "compareOp (if i then ''>='' else ''>'') v b = VBool True \<or> compareOp (if i then ''<='' else ''<'') v b = VBool True" "normalize v = v"
  shows "valueKind (normalize b) = valueKind v" "valueKind v \<noteq> ''''"
proof -
  have c: "snd (compareValues (normalize v) (normalize b))" "\<not> isNaN (normalize v)" "\<not> isNaN (normalize b)"
    using assms(1) by (auto simp: compareOp_true)
  then show "valueKind (normalize b) = valueKind v" "valueKind v \<noteq> ''''"
    unfolding assms(2)
    by (cases rule: compareValues_cases; simp add: valueKind_def isNaN_def assms(2))+
qed

lemma compareOp_normalize: "compareOp op v (normalize b) = compareOp op v b"
proof -
  have "normalize (normalize b) = normalize b" by (simp add: Values.normalize_def split: val.splits)
  then show ?thesis by (simp add: compareOp_def)
qed

lemma range_kind_accepts:
  assumes "range_accepts r v" "\<not> HasPrefix r" "normalize v = v" "HasLower r \<or> HasUpper r"
  shows "range_kind [(normalize (Lower r), HasLower r), (normalize (Upper r), HasUpper r)] '''' = Some (valueKind v)"
  using assms accepted_kind [of "LowerInclusive r" v "Lower r"] accepted_kind [of "UpperInclusive r" v "Upper r"]
  by (auto simp: range_accepts_def)

lemma numeric_covers:
  assumes "range_accepts r v" "\<not> HasPrefix r" "valueKind v = ''number''" "HasLower r \<or> HasUpper r" "normalize v = v"
    and ib: "intBand (PropBandPrefix l k tagInt) l k r (normalize (Lower r)) (normalize (Upper r)) = Inr ib"
    and fb: "floatBand (PropBandPrefix l k tagFloat) l k r (normalize (Lower r)) (normalize (Upper r)) = Inr fb"
  shows "covers ib l k v \<or> covers fb l k v"
proof -
  have lo: "HasLower r \<Longrightarrow> compareOp (if LowerInclusive r then ''>='' else ''>'') v (normalize (Lower r)) = VBool True"
    and hi: "HasUpper r \<Longrightarrow> compareOp (if UpperInclusive r then ''<='' else ''<'') v (normalize (Upper r)) = VBool True"
    using assms(1,2) by (simp_all add: range_accepts_def compareOp_normalize)
  show ?thesis
  proof (cases v)
    case (VInt x)
    then have "covers ib l k (VInt x)" using lo hi by (intro intBand_covers [OF ib]) simp_all
    with VInt show ?thesis by simp
  next
    case (VFloat x)
    then have "\<not> f_isNaN x" using assms(3) by (simp add: valueKind_def split: if_splits)
    with VFloat floatBand_covers [OF fb] lo hi show ?thesis by simp
  qed (use assms(3) in \<open>simp_all add: valueKind_def\<close>)
qed

lemma string_covers:
  assumes "start = (if hl then ienc (VStr b) else [tagStr])" "hl \<Longrightarrow> b \<le> x" "hu \<Longrightarrow> x \<le> u"
  shows "covers \<lparr>band_prefix = ix_base l k @ [tagStr], band_start = ix_base l k @ start,
    band_stop = (if hu then Some (\<lambda>v. case (v, VStr u) of (VStr s, VStr u) \<Rightarrow> u < s | _ \<Rightarrow> True) else None)\<rparr> l k (VStr x)"
proof (rule covers_iff)
  have ix: "IsIndexable (VStr y)" for y by (simp add: IsIndexable_def)
  show t: "prefix [tagStr] (ienc (VStr x) @ zs)" for zs by (simp add: ienc_simps)
  show "start \<le> ienc (VStr x) @ zs" for zs
    using assms(1,2) start_le [OF ix ix, of b x] prefix_le [OF t] by (auto simp: order_le_less)
  show "\<not> seg_stop (band_stop \<lparr>band_prefix = ix_base l k @ [tagStr], band_start = ix_base l k @ start,
    band_stop = (if hu then Some (\<lambda>v. case (v, VStr u) of (VStr s, VStr u) \<Rightarrow> u < s | _ \<Rightarrow> True) else None)\<rparr>) w"
    if h: "IsIndexable w" "prefix [tagStr] (ienc w @ zs)" "w = VStr x \<or> ival_less w (VStr x)" for w zs
    using h assms(3) by (auto simp: tag_prefix seg_stop_def)
qed simp_all

lemma accepted_strings:
  assumes "range_accepts r (VStr x)" "\<not> HasPrefix r"
  shows "HasLower r \<Longrightarrow> \<exists>b. normalize (Lower r) = VStr b \<and> b \<le> x" "HasUpper r \<Longrightarrow> \<exists>u. normalize (Upper r) = VStr u \<and> x \<le> u"
proof -
  have n: "normalize (VStr x) = VStr x" by (simp add: Values.normalize_def)
  show "HasLower r \<Longrightarrow> \<exists>b. normalize (Lower r) = VStr b \<and> b \<le> x" "HasUpper r \<Longrightarrow> \<exists>u. normalize (Upper r) = VStr u \<and> x \<le> u"
    using assms unfolding range_accepts_def compareOp_true n
    by (auto simp: compareValues_def Values.normalize_def strings_Compare_def Let_def not_less split: val.splits if_splits)
qed

lemma numeric_plans:
  assumes "rangeBands l k r = Inr plans" "\<not> HasPrefix r"
    "range_kind [(normalize (Lower r), HasLower r), (normalize (Upper r), HasUpper r)] '''' = Some ''number''"
  obtains ib fb where "intBand (PropBandPrefix l k tagInt) l k r (normalize (Lower r)) (normalize (Upper r)) = Inr ib"
    "floatBand (PropBandPrefix l k tagFloat) l k r (normalize (Lower r)) (normalize (Upper r)) = Inr fb" "plans = Some [ib, fb]"
  using assms(1,2) unfolding rangeBands_def Let_def assms(3) by (auto simp: bindR_Inr_iff)

lemma range_covers:
  assumes "rangeBands l k r = Inr plans" "range_accepts r v" "normalize v = v" "HasPrefix r \<or> HasLower r \<or> HasUpper r"
  shows "\<exists>ps. plans = Some ps \<and> (\<exists>p \<in> set ps. covers p l k v)"
proof (cases "HasPrefix r")
  case True
  then obtain t where t: "v = VStr t" "prefix (RPrefix r) t" using assms(2) by (auto simp: range_accepts_def split: val.splits)
  let ?q = "tagStr # ord_body (RPrefix r)"
  have "covers \<lparr>band_prefix = ix_base l k @ ?q, band_start = ix_base l k @ ?q, band_stop = None\<rparr> l k v"
  proof (rule covers_iff)
    show p: "prefix ?q (ienc v @ zs)" for zs using t by (simp add: ienc_simps ord_body_prefix)
    show "?q \<le> ienc v @ zs" for zs by (rule prefix_le [OF p])
  qed (simp_all add: seg_stop_def)
  then show ?thesis using assms(1) True by (auto simp: rangeBands_def Let_def ix_base_keys(3) AppendStringPrefix_eq)
next
  case np: False
  note k = range_kind_accepts [OF assms(2) np assms(3)]
  show ?thesis
  proof (cases v)
    case (VStr x)
    note s = accepted_strings [OF assms(2) [unfolded VStr] np]
    obtain b u where b: "HasLower r \<Longrightarrow> normalize (Lower r) = VStr b \<and> b \<le> x" and u: "HasUpper r \<Longrightarrow> normalize (Upper r) = VStr u \<and> x \<le> u"
      using s by metis
    have ix: "IsIndexable (VStr y)" for y by (simp add: IsIndexable_def)
    have kk: "range_kind [(normalize (Lower r), HasLower r), (normalize (Upper r), HasUpper r)] '''' = Some ''string''"
      using k assms(4) np VStr by (simp add: valueKind_def)
    have "plans = Some [\<lparr>band_prefix = ix_base l k @ [tagStr], band_start = ix_base l k @ (if HasLower r then ienc (VStr b) else [tagStr]),
      band_stop = (if HasUpper r then Some (\<lambda>v. case (v, VStr u) of (VStr s, VStr u) \<Rightarrow> u < s | _ \<Rightarrow> True) else None)\<rparr>]"
      using assms(1) np b u unfolding rangeBands_def Let_def kk
      by (cases "HasLower r"; cases "HasUpper r") (simp_all add: ix_base_keys ix)
    then show ?thesis using string_covers [OF refl, of "HasLower r" b x "HasUpper r" u l k] b u VStr by simp
  next
    case (VBool x)
    have "covers \<lparr>band_prefix = ix_base l k @ [tagBool], band_start = ix_base l k @ [tagBool], band_stop = None\<rparr> l k v"
      using VBool by (intro covers_iff) (auto simp: seg_stop_def ienc_simps tag_defs)
    moreover have kk: "range_kind [(normalize (Lower r), HasLower r), (normalize (Upper r), HasUpper r)] '''' = Some ''bool''"
      using k assms(4) np VBool by (simp add: valueKind_def)
    ultimately show ?thesis using assms(1) np unfolding rangeBands_def Let_def kk by (auto simp: ix_base_keys(2))
  next
    case (VInt x)
    then have v: "valueKind v = ''number''" "HasLower r \<or> HasUpper r" using assms(4) np by (auto simp: valueKind_def)
    from numeric_plans [OF assms(1) np k [OF v(2), unfolded v(1)]] numeric_covers [OF assms(2) np v assms(3)]
    show ?thesis by (metis list.set_intros)
  next
    case (VFloat x)
    then have "\<not> f_isNaN x" using assms(2-4) np accepted_kind(2) [of "LowerInclusive r" v "Lower r"] accepted_kind(2) [of "UpperInclusive r" v "Upper r"]
      by (auto simp: range_accepts_def valueKind_def split: if_splits)
    then have v: "valueKind v = ''number''" "HasLower r \<or> HasUpper r" using assms(4) np VFloat by (auto simp: valueKind_def)
    from numeric_plans [OF assms(1) np k [OF v(2), unfolded v(1)]] numeric_covers [OF assms(2) np v assms(3)]
    show ?thesis by (metis list.set_intros)
  qed (use assms(2-4) np accepted_kind(2) [of "LowerInclusive r" v "Lower r"] accepted_kind(2) [of "UpperInclusive r" v "Upper r"]
    in \<open>auto simp: range_accepts_def valueKind_def\<close>)
qed

section \<open>What a range scan returns\<close>

definition plan_ok :: "u32 \<Rightarrow> u32 \<Rightarrow> bandPlan \<Rightarrow> bool" where
  "plan_ok l k p \<longleftrightarrow> prefix (ix_base l k) (band_prefix p) \<and> prefix (band_prefix p) (band_start p)"

definition bands_apart :: "bandPlan \<Rightarrow> bandPlan \<Rightarrow> bool" where
  "bands_apart p q \<longleftrightarrow> (\<forall>key. \<not> (prefix (band_prefix p) key \<and> prefix (band_prefix q) key))"

lemma band_total:
  "\<exists>p. intBand (PropBandPrefix l k tagInt) l k r lo hi = Inr p \<and> plan_ok l k p \<and> band_prefix p = ix_base l k @ [tagInt]"
  "\<exists>p. floatBand (PropBandPrefix l k tagFloat) l k r lo hi = Inr p \<and> plan_ok l k p \<and> band_prefix p = ix_base l k @ [tagFloat]"
  by (auto simp: intBand_def floatBand_def ix_base_keys IsIndexable_def plan_ok_def ienc_simps split: option.splits)

lemma range_kind_string:
  assumes "range_kind [(lo, hl), (hi, hu)] '''' = Some ''string''" "hl"
  shows "\<exists>s. lo = VStr s"
proof -
  have "valueKind lo = ''string''" using assms by (auto split: if_splits)
  then show ?thesis by (simp add: valueKind_def split: val.splits if_splits)
qed

lemma rangeBands_total:
  "\<exists>plans. rangeBands l k r = Inr plans \<and> (\<forall>ps. plans = Some ps \<longrightarrow> (\<forall>p \<in> set ps. plan_ok l k p) \<and> sorted_wrt bands_apart ps)"
proof (cases "HasPrefix r")
  case True
  then show ?thesis by (simp add: rangeBands_def Let_def ix_base_keys(3) AppendStringPrefix_eq plan_ok_def)
next
  case False
  show ?thesis
  proof (cases "range_kind [(normalize (Lower r), HasLower r), (normalize (Upper r), HasUpper r)] ''''")
    case None
    then show ?thesis using False unfolding rangeBands_def Let_def None by simp
  next
    case (Some kind)
    obtain ib fb where b: "intBand (PropBandPrefix l k tagInt) l k r (normalize (Lower r)) (normalize (Upper r)) = Inr ib" "plan_ok l k ib"
      "band_prefix ib = ix_base l k @ [tagInt]"
      "floatBand (PropBandPrefix l k tagFloat) l k r (normalize (Lower r)) (normalize (Upper r)) = Inr fb" "plan_ok l k fb" "band_prefix fb = ix_base l k @ [tagFloat]"
      using band_total by blast
    have "bands_apart ib fb" by (auto simp: bands_apart_def b(3,6) prefix_def tag_defs)
    moreover have "\<exists>s. normalize (Lower r) = VStr s" if "kind = ''string''" "HasLower r"
      using range_kind_string Some that by blast
    ultimately show ?thesis using False b unfolding rangeBands_def Let_def Some
      by (auto simp: ix_base_keys plan_ok_def IsIndexable_def ienc_simps)
  qed
qed

definition row_hit :: "(bytes \<rightharpoonup> bytes) \<Rightarrow> bytes \<times> bytes result \<Rightarrow> Node" where
  "row_hit m row = (case ParsePropKey (fst row) of Inr (v, n) \<Rightarrow> \<lparr>NID = n, NRec = the (nodes m n)\<rparr> | Inl _ \<Rightarrow> \<lparr>NID = 0, NRec = the (nodes m 0)\<rparr>)"

definition row_passes :: "(val \<Rightarrow> bool) option \<Rightarrow> bytes \<times> bytes result \<Rightarrow> bool" where
  "row_passes st row = (case ParsePropKey (fst row) of Inr (v, n) \<Rightarrow> \<not> seg_stop st v | Inl _ \<Rightarrow> False)"

context reliable_txn
begin

lemma drain_segs:
  assumes "usable s"
    "\<And>rows st row. (rows, st) \<in> set segs \<Longrightarrow> row \<in> set rows \<Longrightarrow> \<exists>v n. fst row = p_key l k v n \<and> IsIndexable v \<and> nodes (content s) n \<noteq> None"
  shows "drain_cursor T s (RangeSegs segs) =
    Inr (concat (map (\<lambda>(rows, st). map (row_hit (content s)) (takeWhile (row_passes st) rows)) segs))"
  using assms(2)
proof (induction segs)
  case Nil
  show ?case by (simp add: drain_cursor.simps)
next
  case (Cons seg segs)
  obtain rows st where seg: "seg = (rows, st)" by (cases seg)
  have IH: "drain_cursor T s (RangeSegs segs) = Inr (concat (map (\<lambda>(rows, st). map (row_hit (content s)) (takeWhile (row_passes st) rows)) segs))"
    using Cons by (meson list.set_intros(2))
  have "\<forall>row \<in> set rows. \<exists>v n. fst row = p_key l k v n \<and> IsIndexable v \<and> nodes (content s) n \<noteq> None"
    using Cons.prems [of rows st] seg by simp
  then have "drain_cursor T s (RangeSegs ((rows, st) # segs)) = Inr (map (row_hit (content s)) (takeWhile (row_passes st) rows) @
      concat (map (\<lambda>(rows, st). map (row_hit (content s)) (takeWhile (row_passes st) rows)) segs))"
  proof (induction rows)
    case Nil
    show ?case using IH by (simp add: drain_cursor.simps [of T s "RangeSegs (([], st) # segs)"] drain_cursor.simps [of T s "RangeSegs segs"])
  next
    case (Cons row rows)
    then obtain v n r where v: "fst row = p_key l k v n" "IsIndexable v" "nodes (content s) n = Some r" by auto
    note g = GetNode_total [OF assms(1) v(3)]
    have h: "row_passes st row \<longleftrightarrow> \<not> seg_stop st v" "row_hit (content s) row = \<lparr>NID = n, NRec = r\<rparr>"
      using v by (simp_all add: row_passes_def row_hit_def)
    show ?case
      using Cons v g IH h
      by (simp add: drain_cursor.simps [of T s "RangeSegs ((row # rows, st) # segs)"] drain_cursor.simps [of T s "RangeSegs segs"])
  qed
  then show ?case by (simp add: seg)
qed

end

context reliable_txn
begin

text \<open>The rows a band reads are index entries of the label and the property.\<close>

lemma band_rows:
  assumes "usable s" "consistent (content s)" "plan_ok l k p" "row \<in> set (TScanFrom T s (band_prefix p) (band_start p))"
  shows "\<exists>v n. fst row = p_key l k v n \<and> IsIndexable v \<and> (l, k, v) \<in> node_entries (content s) n"
proof -
  have pb: "prefix (ix_base l k) (band_prefix p)" "prefix (band_prefix p) (band_start p)" using assms(3) by (simp_all add: plan_ok_def)
  have "fst row \<in> fst ` set (TScanFrom T s (band_prefix p) (band_start p))" using assms(4) by blast
  then have h: "content s (fst row) \<noteq> None" "prefix (band_prefix p) (fst row)" unfolding scanFrom_keys [OF assms(1) pb(2)] by simp_all
  have b: "prefix (ix_base l k) (fst row)" using prefix_order.trans [OF pb(1) h(2)] .
  then have "hd (fst row) = 0x70" using prefix_hd [OF b] by (simp add: ix_base_def key_tag_defs)
  then obtain l' k' v n where r: "fst row = p_key l' k' v n" "IsIndexable v"
    using rows_shape(1) [OF consistentD(1) [OF assms(2)] h(1)] by blast
  then have "l = l'" "k = k'" using b by (simp_all add: ix_base_def p_key_def)
  with h(1) r assms(2) show ?thesis by (auto simp: consistent_def tables_ok_def p_ok_def)
qed

lemma band_hit:
  assumes "usable s" "consistent (content s)" "plan_ok l k p" "covers p l k v" "content s (indexKey l k) \<noteq> None"
    "(l, k, v) \<in> node_entries (content s) n" "IsIndexable v"
  shows "\<exists>row \<in> set (takeWhile (row_passes (band_stop p)) (TScanFrom T s (band_prefix p) (band_start p))). fst row = p_key l k v n"
proof -
  let ?rows = "TScanFrom T s (band_prefix p) (band_start p)"
  have st: "prefix (band_prefix p) (band_start p)" using assms(3) by (simp add: plan_ok_def)
  have "content s (p_key l k v n) \<noteq> None" using assms(2,5-7) by (simp add: consistent_def tables_ok_def p_ok_def)
  then have "p_key l k v n \<in> fst ` set ?rows" unfolding scanFrom_keys [OF assms(1) st] using assms(4) by (simp add: covers_def)
  then obtain row where row: "row \<in> set ?rows" "fst row = p_key l k v n" by (metis imageE)
  then obtain us vs where split: "?rows = us @ row # vs" by (meson split_list)
  have "sorted_wrt (<) (map fst ?rows)" by (rule scanFrom_sorted [OF assms(1) st])
  then have before: "fst x < fst row" if "x \<in> set us" for x using that by (simp add: split sorted_wrt_append)
  have ok: "row_passes (band_stop p) x" if x: "x \<in> set us \<or> x = row" for x
  proof -
    have xr: "x \<in> set ?rows" using x by (auto simp: split)
    from band_rows [OF assms(1-3) xr] obtain w i where w: "fst x = p_key l k w i" "IsIndexable w" by blast
    have "fst x \<in> fst ` set ?rows" using xr by blast
    then have pre: "prefix (band_prefix p) (p_key l k w i)" unfolding scanFrom_keys [OF assms(1) st] w(1) by simp
    have "w = v \<or> ival_less w v"
    proof (cases "x = row")
      case True
      then show ?thesis using w row(2) assms(7) by simp
    next
      case False
      then have "p_key l k w i < p_key l k v n" using before [of x] x w row(2) by simp
      then show ?thesis using value_key_less(1) [OF w(2) assms(7)] by blast
    qed
    then have "\<not> seg_stop (band_stop p) w" using assms(4) w(2) pre unfolding covers_def by blast
    then show ?thesis using w by (simp add: row_passes_def)
  qed
  then have "takeWhile (row_passes (band_stop p)) ?rows = us @ takeWhile (row_passes (band_stop p)) (row # vs)"
    unfolding split by (intro takeWhile_append2) blast
  with ok [of row] have "row \<in> set (takeWhile (row_passes (band_stop p)) ?rows)" by simp
  with row(2) show ?thesis by blast
qed

text \<open>No node is returned twice: it has one value under the key, and the bands are apart.\<close>

lemma bands_distinct:
  assumes "usable s" "consistent (content s)" "\<forall>p \<in> set ps. plan_ok l k p" "sorted_wrt bands_apart ps"
  shows "distinct (map NID (concat (map (\<lambda>p. map (row_hit (content s)) (takeWhile (row_passes (band_stop p)) (TScanFrom T s (band_prefix p) (band_start p)))) ps)))"
  using assms(3,4)
proof (induction ps)
  case (Cons p ps)
  let ?rows = "\<lambda>p. TScanFrom T s (band_prefix p) (band_start p)"
  let ?hits = "\<lambda>p. map NID (map (row_hit (content s)) (takeWhile (row_passes (band_stop p)) (?rows p)))"
  have key: "\<exists>v. fst row = p_key l k v (NID (row_hit (content s) row)) \<and> IsIndexable v \<and> (l, k, v) \<in> node_entries (content s) (NID (row_hit (content s) row))"
    if "plan_ok l k q" "row \<in> set (?rows q)" for q row
  proof -
    from band_rows [OF assms(1,2) that] obtain v n where v: "fst row = p_key l k v n" "IsIndexable v" "(l, k, v) \<in> node_entries (content s) n" by blast
    then have "NID (row_hit (content s) row) = n" by (simp add: row_hit_def)
    with v show ?thesis by auto
  qed
  have one: "v = w" if "(l, k, v) \<in> node_entries (content s) n" "(l, k, w) \<in> node_entries (content s) n" for v w n
    using that by (auto simp: node_entries_def prop_entries_def split: option.splits)
  have same: "fst row = fst row'" if "plan_ok l k q" "row \<in> set (?rows q)" "plan_ok l k q'" "row' \<in> set (?rows q')"
    "NID (row_hit (content s) row) = NID (row_hit (content s) row')" for q row q' row'
    using key [OF that(1,2)] key [OF that(3,4)] one that(5) by metis
  have ordered: "sorted_wrt (<) (map fst (?rows p))" using Cons.prems(1) by (intro scanFrom_sorted [OF assms(1)]) (simp add: plan_ok_def)
  then have inj: "inj_on fst (set (?rows p))" and dist: "distinct (?rows p)" by (simp_all add: strict_sorted_iff distinct_map)
  have "inj_on (NID \<circ> row_hit (content s)) (set (?rows p))"
  proof (rule inj_onI)
    fix x y
    assume x: "x \<in> set (?rows p)" and y: "y \<in> set (?rows p)" and e: "(NID \<circ> row_hit (content s)) x = (NID \<circ> row_hit (content s)) y"
    have "plan_ok l k p" using Cons.prems(1) by simp
    from same [OF this x this y] e have "fst x = fst y" by simp
    with inj x y show "x = y" by (simp add: inj_on_eq_iff)
  qed
  moreover have "set (takeWhile (row_passes (band_stop p)) (?rows p)) \<subseteq> set (?rows p)" by (auto dest: set_takeWhileD)
  ultimately have "inj_on (NID \<circ> row_hit (content s)) (set (takeWhile (row_passes (band_stop p)) (?rows p)))" by (rule inj_on_subset)
  with dist have d: "distinct (?hits p)" by (simp add: distinct_map distinct_takeWhile)
  have apart: "set (?hits p) \<inter> set (?hits q) = {}" if "q \<in> set ps" for q
  proof (rule ccontr)
    assume "set (?hits p) \<inter> set (?hits q) \<noteq> {}"
    then obtain row row' where r: "row \<in> set (?rows p)" "row' \<in> set (?rows q)" "NID (row_hit (content s) row) = NID (row_hit (content s) row')"
      by (auto dest!: set_takeWhileD)
    have po: "plan_ok l k p" "plan_ok l k q" "bands_apart p q" using Cons.prems that by auto
    have pre: "prefix (band_prefix q) (fst row)" if "plan_ok l k q" "row \<in> set (?rows q)" for q row
      using scanFrom_keys [OF assms(1), of "band_prefix q" "band_start q"] that by (auto simp: plan_ok_def)
    have "fst row = fst row'" using same [OF po(1) r(1) po(2) r(2,3)] .
    with pre [OF po(1) r(1)] pre [OF po(2) r(2)] po(3) show False by (simp add: bands_apart_def)
  qed
  have "set (?hits p) \<inter> set (map NID (concat (map (\<lambda>p. map (row_hit (content s)) (takeWhile (row_passes (band_stop p)) (?rows p))) ps))) = {}"
    using apart by fastforce
  with d Cons.IH Cons.prems show ?case by simp
qed simp

end

context reliable_txn
begin

lemma range_scan_nodes:
  assumes "usable s" "consistent (content s)" "\<forall>p \<in> set ps. plan_ok l k p" "sorted_wrt bands_apart ps"
  obtains ns where
    "drain_cursor T s (RangeSegs (map (\<lambda>p. (TScanFrom T s (band_prefix p) (band_start p), band_stop p)) ps)) = Inr ns" "distinct (map NID ns)"
    "\<And>nd. nd \<in> set ns \<Longrightarrow> nodes (content s) (NID nd) = Some (NRec nd) \<and> (\<exists>v. (l, k, v) \<in> node_entries (content s) (NID nd))"
    "\<And>p v n r. p \<in> set ps \<Longrightarrow> covers p l k v \<Longrightarrow> content s (indexKey l k) \<noteq> None \<Longrightarrow> (l, k, v) \<in> node_entries (content s) n \<Longrightarrow> IsIndexable v \<Longrightarrow>
       nodes (content s) n = Some r \<Longrightarrow> \<lparr>NID = n, NRec = r\<rparr> \<in> set ns"
proof
  let ?rows = "\<lambda>p. TScanFrom T s (band_prefix p) (band_start p)"
  let ?ns = "concat (map (\<lambda>p. map (row_hit (content s)) (takeWhile (row_passes (band_stop p)) (?rows p))) ps)"
  have entry: "nodes (content s) n \<noteq> None" if "(l, k, v) \<in> node_entries (content s) n" for v n
    using that by (auto simp: node_entries_def split: option.splits)
  have "\<exists>v n. fst row = p_key l k v n \<and> IsIndexable v \<and> nodes (content s) n \<noteq> None" if "p \<in> set ps" "row \<in> set (?rows p)" for p row
    using band_rows [OF assms(1,2) _ that(2)] assms(3) that(1) entry by blast
  then show "drain_cursor T s (RangeSegs (map (\<lambda>p. (?rows p, band_stop p)) ps)) = Inr ?ns"
    by (subst drain_segs [OF assms(1), of _ l k]) (auto simp: comp_def)
  show "distinct (map NID ?ns)" by (rule bands_distinct [OF assms])
  show "nodes (content s) (NID nd) = Some (NRec nd) \<and> (\<exists>v. (l, k, v) \<in> node_entries (content s) (NID nd))" if nd: "nd \<in> set ?ns" for nd
  proof -
    obtain p row where p: "p \<in> set ps" "row \<in> set (?rows p)" "nd = row_hit (content s) row" using nd by (auto dest: set_takeWhileD)
    then obtain v n where "fst row = p_key l k v n" "IsIndexable v" "(l, k, v) \<in> node_entries (content s) n"
      using band_rows [OF assms(1,2)] assms(3) by blast
    then show ?thesis using entry p(3) by (auto simp: row_hit_def)
  qed
  show "\<lparr>NID = n, NRec = r\<rparr> \<in> set ?ns" if h: "p \<in> set ps" "covers p l k v" "content s (indexKey l k) \<noteq> None" "(l, k, v) \<in> node_entries (content s) n"
    "IsIndexable v" "nodes (content s) n = Some r" for p v n r
  proof -
    from band_hit [OF assms(1,2) _ h(2-5)] assms(3) h(1) obtain row where
      row: "row \<in> set (takeWhile (row_passes (band_stop p)) (?rows p))" "fst row = p_key l k v n" by blast
    then have "row_hit (content s) row = \<lparr>NID = n, NRec = r\<rparr>" using h(5,6) by (simp add: row_hit_def)
    with row(1) h(1) show ?thesis by force
  qed
qed

end

section \<open>Properties\<close>

text \<open>
  C13. A range scan, in a consistent database on an engine that does not fail, ends without an error and
  returns each node at most once, and only stored nodes that have the label and the property. With an index on
  the label and the property, and a bound or a prefix given, it misses nothing: every node whose value satisfies
  the bounds of the scan (or the prefix), in the comparison of the query language where integers and floats
  compare as numbers, is among the nodes returned; a scan that opens no cursor returns none.
\<close>

theorem range_scan_covers:
  assumes "reliable_txn T content usable writable" and "usable s" and "consistent (content s)"
  shows "\<exists>cur ns. ScanPropertyRange T l k r s = Inr cur \<and>
    (case cur of None \<Rightarrow> ns = [] | Some c \<Rightarrow> drain_cursor T s c = Inr ns) \<and> distinct (map NID ns) \<and>
    (\<forall>nd \<in> set ns. nodes (content s) (NID nd) = Some (NRec nd) \<and> l \<in> set (Labels (NRec nd)) \<and> map_of (Props (NRec nd)) k \<noteq> None) \<and>
    (content s (indexKey l k) \<noteq> None \<and> (HasPrefix r \<or> HasLower r \<or> HasUpper r) \<longrightarrow>
      (\<forall>n rec v. nodes (content s) n = Some rec \<and> l \<in> set (Labels rec) \<and> map_of (Props rec) k = Some v \<and> range_accepts r v \<longrightarrow>
         \<lparr>NID = n, NRec = rec\<rparr> \<in> set ns))"
proof -
  obtain plans where plans: "rangeBands l k r = Inr plans" "\<forall>ps. plans = Some ps \<longrightarrow> (\<forall>p \<in> set ps. plan_ok l k p) \<and> sorted_wrt bands_apart ps"
    using rangeBands_total by blast
  have entry: "IsIndexable v \<and> (l, k, v) \<in> node_entries (content s) n \<and> (\<exists>ps p. plans = Some ps \<and> p \<in> set ps \<and> covers p l k v)"
    if b: "HasPrefix r \<or> HasLower r \<or> HasUpper r" and n: "nodes (content s) n = Some rec" "l \<in> set (Labels rec)"
      "map_of (Props rec) k = Some v" "range_accepts r v" for n rec v
  proof -
    have nv: "normalize v = v" using node_facts(1) [OF assms(3) n(1)] n(3) by (auto simp: ok_node_def dest!: ok_props_value)
    then have "IsIndexable v"
      using b n(4) accepted_kind(2) [of "LowerInclusive r" v "Lower r"] accepted_kind(2) [of "UpperInclusive r" v "Upper r"]
      by (auto simp: range_accepts_def valueKind_def IsIndexable_def split: val.splits if_splits)
    with n range_covers [OF plans(1) n(4) nv b] show ?thesis by (auto simp: node_entries_def prop_entries_def)
  qed
  show ?thesis
  proof (cases plans)
    case None
    have "ScanPropertyRange T l k r s = Inr None" by (simp add: ScanPropertyRange_def plans(1) None)
    with entry None show ?thesis by fastforce
  next
    case (Some ps)
    have ok: "\<forall>p \<in> set ps. plan_ok l k p" "sorted_wrt bands_apart ps" using plans(2) Some by auto
    show ?thesis
    proof (rule reliable_txn.range_scan_nodes [OF assms ok])
      fix ns
      let ?cur = "RangeSegs (map (\<lambda>p. (TScanFrom T s (band_prefix p) (band_start p), band_stop p)) ps)"
      assume ns: "drain_cursor T s ?cur = Inr ns" "distinct (map NID ns)"
        "\<And>nd. nd \<in> set ns \<Longrightarrow> nodes (content s) (NID nd) = Some (NRec nd) \<and> (\<exists>v. (l, k, v) \<in> node_entries (content s) (NID nd))"
        "\<And>p v n r. p \<in> set ps \<Longrightarrow> covers p l k v \<Longrightarrow> content s (indexKey l k) \<noteq> None \<Longrightarrow> (l, k, v) \<in> node_entries (content s) n \<Longrightarrow> IsIndexable v \<Longrightarrow>
           nodes (content s) n = Some r \<Longrightarrow> \<lparr>NID = n, NRec = r\<rparr> \<in> set ns"
      have "\<forall>nd \<in> set ns. nodes (content s) (NID nd) = Some (NRec nd) \<and> l \<in> set (Labels (NRec nd)) \<and> map_of (Props (NRec nd)) k \<noteq> None"
        using ns(3) by (fastforce simp: node_entries_def prop_entries_def)
      moreover have "ScanPropertyRange T l k r s = Inr (Some ?cur)" by (simp add: ScanPropertyRange_def plans(1) Some)
      moreover have "\<lparr>NID = n, NRec = rec\<rparr> \<in> set ns"
        if "content s (indexKey l k) \<noteq> None" "HasPrefix r \<or> HasLower r \<or> HasUpper r" "nodes (content s) n = Some rec" "l \<in> set (Labels rec)"
          "map_of (Props rec) k = Some v" "range_accepts r v" for n rec v
        using entry [OF that(2-6)] ns(4) [OF _ _ that(1) _ _ that(3)] Some by blast
      ultimately show ?thesis using ns(1,2) by (intro exI [of _ "Some ?cur"] exI [of _ ns]) simp
    qed
  qed
qed

theorem range_scan_covers_witness:
  "\<exists>cur ns. ScanPropertyRange (boltTxn memBucket) 1 1
      \<lparr>Lower = VStr [0x31], Upper = VNull, HasLower = True, HasUpper = False, LowerInclusive = False, UpperInclusive = False,
       RPrefix = [], HasPrefix = False\<rparr> constrained = Inr cur \<and>
    (case cur of None \<Rightarrow> ns = [] | Some c \<Rightarrow> drain_cursor (boltTxn memBucket) constrained c = Inr ns) \<and>
    \<lparr>NID = 2, NRec = \<lparr>Labels = [1], Props = [(1, VStr [0x32])]\<rparr>\<rparr> \<in> set ns"
proof -
  let ?r = "\<lparr>Lower = VStr [0x31], Upper = VNull, HasLower = True, HasUpper = False, LowerInclusive = False, UpperInclusive = False,
    RPrefix = [], HasPrefix = False\<rparr>"
  have i: "bolt_content memBucket constrained (indexKey 1 1) \<noteq> None" by code_simp
  have a: "range_accepts ?r (VStr [0x32])" by code_simp
  have h: "nodes (bolt_content memBucket constrained) 2 = Some \<lparr>Labels = [1], Props = [(1, VStr [0x32])]\<rparr> \<and>
    1 \<in> set (Labels \<lparr>Labels = [1], Props = [(1, VStr [0x32])]\<rparr>) \<and>
    map_of (Props \<lparr>Labels = [1], Props = [(1, VStr [0x32])]\<rparr>) 1 = Some (VStr [0x32]) \<and> range_accepts ?r (VStr [0x32])"
    using a constrained_nodes(2) by simp
  have b: "HasPrefix ?r \<or> HasLower ?r \<or> HasUpper ?r" by simp
  from range_scan_covers [OF mem.bolt.reliable_txn_axioms mem.bolt.writable_usable [OF constrained_ok(1)] constrained_ok(2), of 1 1 ?r] i b h
  show ?thesis by blast
qed

end
