(* ===== verification/Graph_Shortest.thy ===== *)
theory Graph_Shortest
  imports Graph_Query
begin

text \<open>
  The bidirectional breadth-first search of \<^verbatim>\<open>internal/graph/shortest.go\<close>. The loop is a total function: every
  layer reaches new nodes or empties a frontier.
\<close>

section \<open>The search\<close>

text \<open>
  A path found by the search carries identifiers only: the nodes it visits and the adjacency entries it
  follows. The fields \<^verbatim>\<open>Out\<close>, \<^verbatim>\<open>In\<close>, \<^verbatim>\<open>Types\<close> (\<open>None\<close> is nil: any type), \<^verbatim>\<open>MinHops\<close>, \<^verbatim>\<open>MaxHops\<close> and \<^verbatim>\<open>All\<close> are those
  of the source; the callback \<^verbatim>\<open>Check\<close> is the action \<open>chk\<close>, and \<open>rd\<close> runs a read of the transaction in the
  state the callback lives in.
\<close>

type_synonym id_path = "u64 list \<times> EdgeRef list"

record PathSpec =
  POut :: bool
  PIn :: bool
  PTypes :: "u32 list option"
  PMinHops :: int
  PMaxHops :: int
  PAll :: bool

record bfsSide =
  sd_depth :: "u64 \<rightharpoonup> nat"
  sd_preds :: "u64 \<Rightarrow> (u64 \<times> EdgeRef) list"
  frontier :: "u64 list"
  sd_level :: nat
  sd_out :: bool
  sd_in :: bool

definition newSide :: "u64 \<Rightarrow> bool \<Rightarrow> bool \<Rightarrow> bfsSide" where
  "newSide start out inn =
     \<lparr>sd_depth = [start \<mapsto> 0], sd_preds = (\<lambda>_. []), frontier = [start], sd_level = 0, sd_out = out, sd_in = inn\<rparr>"

fun scan_types :: "(u32 \<Rightarrow> EdgeRef list result) \<Rightarrow> u32 list \<Rightarrow> EdgeRef list result" where
  "scan_types f [] = Inr []"
| "scan_types f (t # ts) = bindR (f t) (\<lambda>es. bindR (scan_types f ts) (\<lambda>rest. Inr (es @ rest)))"

definition neighbors :: "'s Txn \<Rightarrow> u64 \<Rightarrow> bool \<Rightarrow> bool \<Rightarrow> u32 list option \<Rightarrow> 's \<Rightarrow> EdgeRef list result" where
  "neighbors T n out inn types s =
     (let scan = (\<lambda>f. case types of None \<Rightarrow> f 0 | Some ts \<Rightarrow> scan_types f ts)
      in bindR (if out then scan (\<lambda>t. OutEdges T n t s) else Inr []) (\<lambda>os.
         bindR (if inn then scan (\<lambda>t. InEdges T n t s) else Inr []) (\<lambda>is.
         Inr (os @ is))))"

text \<open>One edge of the layer: the other end is new, reached again in this layer, or settled before.\<close>

definition visit :: "u64 \<Rightarrow> EdgeRef \<Rightarrow> bfsSide \<times> u64 list \<Rightarrow> bfsSide \<times> u64 list" where
  "visit n e acc =
     (case acc of (sd, next) \<Rightarrow>
        let m = (if RefSrc e = n then RefDst e else RefSrc e);
            found = sd\<lparr>sd_preds := (sd_preds sd)(m := sd_preds sd m @ [(n, e)])\<rparr>
        in if m = n then (sd, next)
           else case sd_depth sd m of
             None \<Rightarrow> (found\<lparr>sd_depth := (sd_depth sd)(m \<mapsto> sd_level sd)\<rparr>, next @ [m])
           | Some d \<Rightarrow> if d \<noteq> sd_level sd then (sd, next) else (found, next))"

fun expand_nodes ::
  "('c, unit) act \<Rightarrow> (u64 \<Rightarrow> ('c, EdgeRef list) act) \<Rightarrow> u64 list \<Rightarrow> bfsSide \<times> u64 list \<Rightarrow> ('c, bfsSide \<times> u64 list) act" where
  "expand_nodes chk nbrs [] acc = ret acc"
| "expand_nodes chk nbrs (n # ns) acc =
     seqA chk (bnd (nbrs n) (\<lambda>es. expand_nodes chk nbrs ns (fold (visit n) es acc)))"

fun meet_best :: "(u64 \<rightharpoonup> nat) \<Rightarrow> u64 list \<Rightarrow> nat option \<Rightarrow> u64 list \<Rightarrow> u64 list" where
  "meet_best other [] best meet = meet"
| "meet_best other (m # ms) best meet =
     (case other m of
        None \<Rightarrow> meet_best other ms best meet
      | Some od \<Rightarrow>
          if best = None \<or> od < the best then meet_best other ms (Some od) [m]
          else if od = the best then meet_best other ms best (meet @ [m])
          else meet_best other ms best meet)"

definition expandSide ::
  "'s Txn \<Rightarrow> (('s \<Rightarrow> EdgeRef list result) \<Rightarrow> ('c, EdgeRef list) act) \<Rightarrow> ('c, unit) act \<Rightarrow> PathSpec \<Rightarrow> bfsSide \<Rightarrow> bfsSide \<Rightarrow>
   ('c, bfsSide \<times> u64 list) act" where
  "expandSide T rd chk spec sd other =
     (let sd = sd\<lparr>sd_level := sd_level sd + 1\<rparr>
      in bnd (expand_nodes chk (\<lambda>n. rd (neighbors T n (sd_out sd) (sd_in sd) (PTypes spec))) (frontier sd) (sd, [])) (\<lambda>(sd, next).
         ret (sd\<lparr>frontier := next\<rparr>, meet_best (sd_depth other) next None [])))"

text \<open>
  The recursion of \<^verbatim>\<open>walks\<close> goes to predecessors, which lie one layer closer to the start; the first
  argument bounds it by the number of layers.
\<close>

fun walks :: "nat \<Rightarrow> bfsSide \<Rightarrow> u64 \<Rightarrow> bool \<Rightarrow> id_path list" where
  "walks d sd m one =
     (let ps = sd_preds sd m
      in if ps = [] then [([m], [])]
         else case d of
           0 \<Rightarrow> []
         | Suc d \<Rightarrow>
             concat (map (\<lambda>(p, e). map (\<lambda>(ns, es). (ns @ [m], es @ [e])) (walks d sd p one))
               (if one then take 1 ps else ps)))"

declare walks.simps [simp del]

definition concat_path :: "id_path \<Rightarrow> id_path \<Rightarrow> id_path" where
  "concat_path head tail =
     (fst head @ rev (take (length (snd tail)) (fst tail)), snd head @ rev (snd tail))"

definition joinPaths :: "bfsSide \<Rightarrow> bfsSide \<Rightarrow> u64 list \<Rightarrow> bool \<Rightarrow> id_path list" where
  "joinPaths fwd bwd meet all =
     (let paths = concat (map (\<lambda>m. concat (map (\<lambda>h. map (concat_path h) (walks (sd_level bwd) bwd m (\<not> all)))
        (walks (sd_level fwd) fwd m (\<not> all)))) meet)
      in if all then paths else take 1 paths)"

text \<open>A layer reaches new nodes only, and there are finitely many identifiers, so the search ends.\<close>

definition grows :: "bfsSide \<times> u64 list \<Rightarrow> bfsSide \<times> u64 list \<Rightarrow> bool" where
  "grows a b \<longleftrightarrow> dom (sd_depth (fst a)) \<subseteq> dom (sd_depth (fst b)) \<and> set (snd a) \<subseteq> set (snd b) \<and>
     set (snd b) - set (snd a) \<subseteq> dom (sd_depth (fst b)) - dom (sd_depth (fst a))"

lemma grows_trans: "grows a b \<Longrightarrow> grows b c \<Longrightarrow> grows a c"
  unfolding grows_def by (elim conjE, intro conjI; blast)

lemma grows_visit: "grows acc (visit n e acc)"
proof -
  obtain sd next1 where acc: "acc = (sd, next1)" by (cases acc)
  let ?m = "if RefSrc e = n then RefDst e else RefSrc e"
  show ?thesis
  proof (cases "sd_depth sd ?m")
    case None
    then show ?thesis by (cases "?m = n") (auto simp: grows_def visit_def Let_def acc)
  qed (simp add: grows_def visit_def Let_def acc)
qed

lemma grows_fold: "grows acc (fold (visit n) es acc)"
proof (induction es arbitrary: acc)
  case Nil
  show ?case by (simp add: grows_def)
next
  case (Cons e es)
  show ?case using grows_trans [OF grows_visit Cons.IH] by simp
qed

lemma grows_expand: "expand_nodes chk nbrs ns acc c = (Inr acc', c') \<Longrightarrow> grows acc acc'"
proof (induction ns arbitrary: acc c)
  case Nil
  then show ?case by (simp add: grows_def ret_def)
next
  case (Cons n ns)
  then obtain es c1 where "expand_nodes chk nbrs ns (fold (visit n) es acc) c1 = (Inr acc', c')"
    by (auto simp: seqA_def bnd_def split: prod.splits sum.splits)
  from Cons.IH [OF this] show ?case using grows_trans [OF grows_fold] by blast
qed

lemma expandSide_grows:
  assumes "expandSide T rd chk spec sd other c = (Inr (sd', meet), c')"
  shows "dom (sd_depth sd) \<subseteq> dom (sd_depth sd') \<and> set (frontier sd') \<subseteq> dom (sd_depth sd') - dom (sd_depth sd)"
proof -
  let ?sd = "sd\<lparr>sd_level := sd_level sd + 1\<rparr>"
  from assms obtain sd1 next1 where
    e: "expand_nodes chk (\<lambda>n. rd (neighbors T n (sd_out ?sd) (sd_in ?sd) (PTypes spec))) (frontier ?sd) (?sd, []) c = (Inr (sd1, next1), c')"
    and sd: "sd' = sd1\<lparr>frontier := next1\<rparr>"
    by (auto simp: expandSide_def Let_def bnd_def ret_def split: prod.splits sum.splits)
  from grows_expand [OF e] show ?thesis by (auto simp: grows_def sd)
qed

definition unseen :: "bfsSide \<Rightarrow> nat" where
  "unseen sd = card (- dom (sd_depth sd))"

definition pending_side :: "bfsSide \<Rightarrow> nat" where
  "pending_side sd = (if frontier sd = [] then 0 else 1)"

lemma expandSide_progress:
  assumes "expandSide T rd chk spec sd other c = (Inr (sd', meet), c')" "frontier sd \<noteq> []"
  shows "unseen sd' < unseen sd \<or> unseen sd' = unseen sd \<and> pending_side sd' < pending_side sd"
proof -
  note g = expandSide_grows [OF assms(1)]
  show ?thesis
  proof (cases "frontier sd'")
    case Nil
    have "unseen sd' \<le> unseen sd" unfolding unseen_def using g by (intro card_mono) auto
    with Nil assms(2) show ?thesis by (auto simp: pending_side_def)
  next
    case (Cons m ms)
    then have "m \<in> - dom (sd_depth sd)" "m \<notin> - dom (sd_depth sd')" using g by auto
    with g have "- dom (sd_depth sd') \<subset> - dom (sd_depth sd)" by blast
    then have "unseen sd' < unseen sd" unfolding unseen_def by (intro psubset_card_mono) auto
    then show ?thesis ..
  qed
qed

function search ::
  "'s Txn \<Rightarrow> (('s \<Rightarrow> EdgeRef list result) \<Rightarrow> ('c, EdgeRef list) act) \<Rightarrow> ('c, unit) act \<Rightarrow> PathSpec \<Rightarrow> bfsSide \<Rightarrow> bfsSide \<Rightarrow>
   ('c, id_path list) act" where
  "search T rd chk spec fwd bwd c =
     (if frontier fwd = [] \<or> frontier bwd = [] then (Inr [], c)
      else if PMaxHops spec > 0 \<and> int (sd_level fwd + sd_level bwd + 1) > PMaxHops spec then (Inr [], c)
      else if length (frontier bwd) < length (frontier fwd) then
        (case expandSide T rd chk spec bwd fwd c of
           (Inl e, c') \<Rightarrow> (Inl e, c')
         | (Inr (bwd', meet), c') \<Rightarrow>
             if meet \<noteq> [] then (Inr (joinPaths fwd bwd' meet (PAll spec)), c')
             else search T rd chk spec fwd bwd' c')
      else
        (case expandSide T rd chk spec fwd bwd c of
           (Inl e, c') \<Rightarrow> (Inl e, c')
         | (Inr (fwd', meet), c') \<Rightarrow>
             if meet \<noteq> [] then (Inr (joinPaths fwd' bwd meet (PAll spec)), c')
             else search T rd chk spec fwd' bwd c'))"
  by pat_completeness auto
termination
  by (relation "measures [\<lambda>(T, rd, chk, spec, fwd, bwd, c). unseen fwd + unseen bwd, \<lambda>(T, rd, chk, spec, fwd, bwd, c). pending_side fwd + pending_side bwd]")
    (auto dest: expandSide_progress [OF sym])

declare search.simps [simp del]

definition ShortestPaths ::
  "'s Txn \<Rightarrow> (('s \<Rightarrow> EdgeRef list result) \<Rightarrow> ('c, EdgeRef list) act) \<Rightarrow> ('c, unit) act \<Rightarrow> u64 \<Rightarrow> u64 \<Rightarrow> PathSpec \<Rightarrow> ('c, id_path list) act" where
  "ShortestPaths T rd chk src dst spec =
     (if src = dst then ret (if PMinHops spec = 0 then [([src], [])] else [])
      else if PMaxHops spec = 0 \<or> PTypes spec = Some [] then ret []
      else search T rd chk spec (newSide src (POut spec) (PIn spec)) (newSide dst (PIn spec) (POut spec)))"

end
