(* ===== verification/Exec_Op.thy ===== *)
theory Exec_Op
  imports Exec_Write
    Exec_Agg
    Graph_Range
    Graph_Shortest
begin

text \<open>
  The operators of the executor, after \<^verbatim>\<open>internal/exec/exec.go\<close>, \<^verbatim>\<open>expand.go\<close>, \<^verbatim>\<open>relseek.go\<close>, \<^verbatim>\<open>shortest.go\<close>, \<^verbatim>\<open>outer.go\<close>,
  \<^verbatim>\<open>union.go\<close> and \<^verbatim>\<open>unwind.go\<close>. An operator is a value of type \<open>op\<close>; \<open>op_next\<close> is the method \<^verbatim>\<open>next\<close>, which gives the
  next row and the operator in its new state, and \<open>Run\<close> builds the operators of a plan and drains them. A
  loop of the source that goes on to its next iteration calls \<open>op_next\<close> again on the new state.
\<close>

section \<open>Actions with fuel\<close>

text \<open>
  An operator pulls rows from others until it has one to return, so \<^verbatim>\<open>next\<close> is defined with fuel: \<open>None\<close> says
  that the fuel ran out. \<open>lft\<close> takes an action that always ends into such a computation.
\<close>

type_synonym ('c, 'a) run = "'c \<Rightarrow> ('a result \<times> 'c) option"

definition lft :: "('c, 'a) act \<Rightarrow> ('c, 'a) run" where
  "lft m c = Some (m c)"

definition retO :: "'a \<Rightarrow> ('c, 'a) run" where
  "retO x = lft (ret x)"

definition throwO :: "error \<Rightarrow> ('c, 'a) run" where
  "throwO e = lft (throw e)"

definition bndO :: "('c, 'a) run \<Rightarrow> ('a \<Rightarrow> ('c, 'b) run) \<Rightarrow> ('c, 'b) run" where
  "bndO m f c = (case m c of None \<Rightarrow> None | Some (Inl e, c') \<Rightarrow> Some (Inl e, c') | Some (Inr x, c') \<Rightarrow> f x c')"

section \<open>Operators\<close>

text \<open>
  The row an inner plan of \<^verbatim>\<open>Apply\<close> starts from, and whether it has been taken: the \<^verbatim>\<open>argumentOp\<close> that the leaves
  of one inner plan share. A position in a list of pending rows is the rest of the list.
\<close>

type_synonym argument = "(binding \<times> bool) option"

datatype agg_state = NotLoaded | Loading "aggSpec list" "agg_group list" | Loaded "binding list"

datatype op =
    EUnit bool
  | ENodeScan bytes "NodeCursor + u64 list"
  | EArgument
  | EFilter op Expr
  | EProject op "ProjItem list" "bytes list option"
  | ESort op "SortKey list" "binding list" bool
  | ESkip op nat
  | ELimit op i64 i64
  | ECartesian op op "binding list" bool "binding option" "binding list"
  | EAggregate op "ProjItem list" "ProjItem list" agg_state
  | ECreate op "PatternPart list"
  | EMerge op PatternPart "SetClause list" "SetClause list" "binding list"
  | ESet op "SetClause list"
  | ERemove op "RemoveClause list"
  | EDelete op "Expr list" bool
  | EUnwind op Expr bytes binding "val list"
  | ECreateIndex bytes bytes bytes bool bool
  | EDropIndex bytes bool bool
  | EShowIndexes "binding list option"
  | ECreateConstraint bytes bytes bytes bool
  | EDropConstraint bytes bool bool
  | EShowConstraints "binding list option"
  | EOuterApply op Op "bytes list" bool "(binding \<times> op \<times> argument \<times> bool) option" bool
  | EUnion "op list" "bytes list" "bytes list option"
  | EExpand op ExpandArgs "u32 list" binding "(EdgeRef \<times> u64) list"
  | EVarExpand op ExpandArgs "u32 list" binding "(u64 \<times> u64 list) list"
  | ERelSeek RelSeek "u64 list" "binding list"
  | EShortest op ShortestArgs PathSpec binding "id_path list"

type_synonym 's pull = "op \<Rightarrow> argument \<Rightarrow> ('s Context, binding option \<times> op \<times> argument) run"

text \<open>\<^verbatim>\<open>b, ok, err := input.next(); if err != nil || !ok { return nil, ok, err }\<close>\<close>

definition pull ::
  "('s Context, binding option \<times> op \<times> argument) run \<Rightarrow> (op \<Rightarrow> op) \<Rightarrow>
   (binding \<Rightarrow> op \<Rightarrow> argument \<Rightarrow> ('s Context, binding option \<times> op \<times> argument) run) \<Rightarrow>
   ('s Context, binding option \<times> op \<times> argument) run" where
  "pull m wrap k = bndO m (\<lambda>(r, i, a). case r of None \<Rightarrow> retO (None, wrap i, a) | Some b \<Rightarrow> k b i a)"

section \<open>Scans\<close>

definition nodeScan_next :: "'s World \<Rightarrow> bytes \<Rightarrow> NodeCursor + u64 list \<Rightarrow> argument \<Rightarrow> ('s Context, binding option \<times> op \<times> argument) act" where
  "nodeScan_next W x src a =
     bnd (check W) (\<lambda>_.
       case src of
         Inl cur \<Rightarrow>
           bnd (query (Cursor_Next (Store W) cur)) (\<lambda>(r, cur).
             case r of
               None \<Rightarrow> ret (None, ENodeScan x (Inl cur), a)
             | Some node \<Rightarrow> ret (Some [x \<mapsto> node_val node], ENodeScan x (Inl cur), a))
       | Inr [] \<Rightarrow> ret (None, ENodeScan x (Inr []), a)
       | Inr (i # is) \<Rightarrow>
           bnd (loadNode W i) (\<lambda>node. ret (Some [x \<mapsto> node], ENodeScan x (Inr is), a)))"

fun filter_equal :: "'s World \<Rightarrow> u32 \<Rightarrow> val \<Rightarrow> u64 list \<Rightarrow> ('s Context, u64 list) act" where
  "filter_equal W keyID v [] = ret []"
| "filter_equal W keyID v (i # is) =
     bnd (query (GetNode (Store W) i)) (\<lambda>node.
     bnd (filter_equal W keyID v is) (\<lambda>out.
       ret (case map_of (Props (NRec node)) keyID of
              Some w \<Rightarrow> if equals w v then i # out else out
            | None \<Rightarrow> out)))"

definition nodesWithEqualProperty :: "'s World \<Rightarrow> u32 \<Rightarrow> u32 \<Rightarrow> val \<Rightarrow> ('s Context, u64 list) act" where
  "nodesWithEqualProperty W labelID keyID v =
     bnd (query (NodesByLabel (Store W) labelID)) (\<lambda>ids. filter_equal W keyID v ids)"

definition propertyScanIDs :: "'s World \<Rightarrow> bytes \<Rightarrow> bytes \<Rightarrow> Expr \<Rightarrow> binding \<Rightarrow> ('s Context, u64 list) act" where
  "propertyScanIDs W label key value row =
     bnd (query (LookupLabel (Store W) label)) (\<lambda>(labelID, found).
       if \<not> found then ret []
       else bnd (query (LookupKey (Store W) key)) (\<lambda>(keyID, found).
         if \<not> found then ret []
         else bnd (eval W value row) (\<lambda>v.
           let v = normalize v
           in if v = VNull then ret []
              else if \<not> IsIndexable v then nodesWithEqualProperty W labelID keyID v
              else query (NodesByProperty (Store W) labelID keyID v))))"

definition eval_opt :: "'s World \<Rightarrow> Expr option \<Rightarrow> binding \<Rightarrow> ('s Context, val) act" where
  "eval_opt W e row = (case e of None \<Rightarrow> ret VNull | Some e \<Rightarrow> eval W e row)"

definition propertyRangeScan :: "'s World \<Rightarrow> NodeRange \<Rightarrow> binding \<Rightarrow> ('s Context, op) act" where
  "propertyRangeScan W x row =
     (let empty = ENodeScan (NRVar x) (Inr [])
      in bnd (query (LookupLabel (Store W) (NRLabel x))) (\<lambda>(labelID, found).
         if \<not> found then ret empty
         else bnd (query (LookupKey (Store W) (NRKey x))) (\<lambda>(keyID, found).
           if \<not> found then ret empty
           else bnd (eval_opt W (NRPrefix x) row) (\<lambda>pre.
             if NRPrefix x \<noteq> None \<and> (case pre of VStr _ \<Rightarrow> False | _ \<Rightarrow> True) then ret empty
             else bnd (eval_opt W (NRLower x) row) (\<lambda>lo.
               bnd (eval_opt W (NRUpper x) row) (\<lambda>hi.
               bnd (query (ScanPropertyRange (Store W) labelID keyID
                     \<lparr>Lower = lo, Upper = hi, HasLower = (NRLower x \<noteq> None), HasUpper = (NRUpper x \<noteq> None),
                      LowerInclusive = (NRLower x \<noteq> None \<and> NRLowerInclusive x), UpperInclusive = (NRUpper x \<noteq> None \<and> NRUpperInclusive x),
                      RPrefix = (case pre of VStr s \<Rightarrow> s | _ \<Rightarrow> []), HasPrefix = (NRPrefix x \<noteq> None)\<rparr>)) (\<lambda>cur.
                 ret (case cur of None \<Rightarrow> empty | Some c \<Rightarrow> ENodeScan (NRVar x) (Inl c)))))))))"

section \<open>Expansion\<close>

fun lookup_types :: "'s World \<Rightarrow> bytes list \<Rightarrow> ('s Context, u32 list) act" where
  "lookup_types W [] = ret []"
| "lookup_types W (name # names) =
     bnd (query (LookupType (Store W) name)) (\<lambda>(i, found).
     bnd (lookup_types W names) (\<lambda>ids. ret (if found then i # ids else ids)))"

definition typeFilter :: "ExpandArgs \<Rightarrow> u32 list \<Rightarrow> u32 list" where
  "typeFilter x typeIDs = (if XTypes x = [] then [0] else typeIDs)"

definition gather :: "'s World \<Rightarrow> ExpandArgs \<Rightarrow> u32 list \<Rightarrow> u64 \<Rightarrow> ('s Context, (EdgeRef \<times> u64) list) act" where
  "gather W x typeIDs nodeID =
     bnd (if XDir x = DirOut \<or> XDir x = DirBoth then mapA (\<lambda>t. query (OutEdges (Store W) nodeID t)) (typeFilter x typeIDs) else ret []) (\<lambda>os.
     bnd (if XDir x = DirIn \<or> XDir x = DirBoth then mapA (\<lambda>t. query (InEdges (Store W) nodeID t)) (typeFilter x typeIDs) else ret []) (\<lambda>is.
     ret (map (\<lambda>r. (r, RefDst r)) (concat os) @ map (\<lambda>r. (r, RefSrc r)) (concat is))))"

definition expand_hit :: "'s World \<Rightarrow> ExpandArgs \<Rightarrow> binding \<Rightarrow> EdgeRef \<times> u64 \<Rightarrow> ('s Context, binding option) act" where
  "expand_hit W x cur hit =
     (case hit of (r, other) \<Rightarrow>
        if XToBound x \<and> (case node_at cur (XTo x) of Some n \<Rightarrow> element_id n \<noteq> other | None \<Rightarrow> False) then ret None
        else
          bnd (case (if XToBound x then node_at cur (XTo x) else None) of
                 Some existing \<Rightarrow> ret existing
               | None \<Rightarrow> if XToUnused x then ret (VNode other [] []) else loadNode W other) (\<lambda>toNode.
          bnd (if XRelUnused x then ret (VEdge (RefID r) (RefType r) (RefSrc r) (RefDst r) []) else loadEdge W (RefID r)) (\<lambda>edge.
          ret (Some (cur(XTo x \<mapsto> toNode, XRel x \<mapsto> edge))))))"

definition expand_next ::
  "'s World \<Rightarrow> 's pull \<Rightarrow> op \<Rightarrow> ExpandArgs \<Rightarrow> u32 list \<Rightarrow> binding \<Rightarrow> (EdgeRef \<times> u64) list \<Rightarrow> argument \<Rightarrow>
   ('s Context, binding option \<times> op \<times> argument) run" where
  "expand_next W nx i x tids cur pend a =
     bndO (lft (check W)) (\<lambda>_.
       case pend of
         [] \<Rightarrow>
           pull (nx i a) (\<lambda>i. EExpand i x tids cur []) (\<lambda>b i a.
             case node_at b (XFrom x) of
               None \<Rightarrow> throwO (ErrExec ''expand source is not a node'')
             | Some node \<Rightarrow> bndO (lft (gather W x tids (element_id node))) (\<lambda>hits. nx (EExpand i x tids b hits) a))
       | hit # pend \<Rightarrow>
           bndO (lft (expand_hit W x cur hit)) (\<lambda>out.
             case out of
               None \<Rightarrow> nx (EExpand i x tids cur pend) a
             | Some b \<Rightarrow> retO (Some b, EExpand i x tids cur pend, a)))"

definition varExpandMaxDepth :: int where
  "varExpandMaxDepth = 100"

definition var_neighbors :: "'s World \<Rightarrow> ExpandArgs \<Rightarrow> u32 list \<Rightarrow> u64 \<Rightarrow> ('s Context, (u64 \<times> u64) list) act" where
  "var_neighbors W x typeIDs nodeID =
     bnd (if XDir x = DirOut \<or> XDir x = DirBoth then mapA (\<lambda>t. query (OutEdges (Store W) nodeID t)) (typeFilter x typeIDs) else ret []) (\<lambda>os.
     bnd (if XDir x = DirIn \<or> XDir x = DirBoth then mapA (\<lambda>t. query (InEdges (Store W) nodeID t)) (typeFilter x typeIDs) else ret []) (\<lambda>is.
     ret (map (\<lambda>r. (RefID r, RefDst r)) (concat os) @ map (\<lambda>r. (RefID r, RefSrc r)) (concat is))))"

fun bfs_front :: "'s World \<Rightarrow> ExpandArgs \<Rightarrow> u32 list \<Rightarrow> (u64 \<times> u64 list) list \<Rightarrow> ('s Context, (u64 \<times> u64 list) list) act" where
  "bfs_front W x tids [] = ret []"
| "bfs_front W x tids ((node, es) # front) =
     bnd (var_neighbors W x tids node) (\<lambda>nbs.
     bnd (bfs_front W x tids front) (\<lambda>rest_hits.
     ret (map (\<lambda>(e, other). (other, es @ [e])) (filter (\<lambda>(e, other). e \<notin> set es) nbs) @ rest_hits)))"

text \<open>The layers of the search: at depth \<open>d\<close>, with as many layers to go as the first argument.\<close>

fun bfs_layers :: "nat \<Rightarrow> 's World \<Rightarrow> ExpandArgs \<Rightarrow> u32 list \<Rightarrow> int \<Rightarrow> int \<Rightarrow> (u64 \<times> u64 list) list \<Rightarrow> ('s Context, (u64 \<times> u64 list) list) act" where
  "bfs_layers 0 W x tids minH d front = ret []"
| "bfs_layers (Suc k) W x tids minH d front =
     bnd (check W) (\<lambda>_.
     bnd (bfs_front W x tids front) (\<lambda>nxt.
       if nxt = [] then ret []
       else bnd (bfs_layers k W x tids minH (d + 1) nxt) (\<lambda>hits. ret ((if minH \<le> d then nxt else []) @ hits))))"

definition bfs :: "'s World \<Rightarrow> ExpandArgs \<Rightarrow> u32 list \<Rightarrow> u64 \<Rightarrow> ('s Context, (u64 \<times> u64 list) list) act" where
  "bfs W x tids fromID =
     (let minH = (if XMinHops x < 0 then 1 else XMinHops x);
          maxH = (if XMaxHops x < 0 then varExpandMaxDepth else XMaxHops x);
          hits = (if minH \<le> 0 \<and> 0 \<le> maxH then [(fromID, [])] else [])
      in if maxH = 0 then ret hits
         else bnd (bfs_layers (nat maxH) W x tids minH 1 [(fromID, [])]) (\<lambda>rest_hits. ret (hits @ rest_hits)))"

definition fetchEdges :: "'s World \<Rightarrow> u64 list \<Rightarrow> ('s Context, val list) act" where
  "fetchEdges W ids = mapA (loadEdge W) ids"

definition var_hit :: "'s World \<Rightarrow> ExpandArgs \<Rightarrow> binding \<Rightarrow> u64 \<times> u64 list \<Rightarrow> ('s Context, binding option) act" where
  "var_hit W x cur hit =
     (case hit of (toID, es) \<Rightarrow>
        if XToBound x \<and> (case node_at cur (XTo x) of Some n \<Rightarrow> element_id n \<noteq> toID | None \<Rightarrow> False) then ret None
        else bnd (loadNode W toID) (\<lambda>toNode. bnd (fetchEdges W es) (\<lambda>rels.
          ret (Some (cur(XTo x \<mapsto> toNode, XRel x \<mapsto> VRels rels))))))"

definition varExpand_next ::
  "'s World \<Rightarrow> 's pull \<Rightarrow> op \<Rightarrow> ExpandArgs \<Rightarrow> u32 list \<Rightarrow> binding \<Rightarrow> (u64 \<times> u64 list) list \<Rightarrow> argument \<Rightarrow>
   ('s Context, binding option \<times> op \<times> argument) run" where
  "varExpand_next W nx i x tids cur pend a =
     bndO (lft (check W)) (\<lambda>_.
       case pend of
         [] \<Rightarrow>
           pull (nx i a) (\<lambda>i. EVarExpand i x tids cur []) (\<lambda>b i a.
             case node_at b (XFrom x) of
               None \<Rightarrow> throwO (ErrExec ''var-length expand source is not a node'')
             | Some node \<Rightarrow> bndO (lft (bfs W x tids (element_id node))) (\<lambda>hits. nx (EVarExpand i x tids b hits) a))
       | hit # pend \<Rightarrow>
           bndO (lft (var_hit W x cur hit)) (\<lambda>out.
             case out of
               None \<Rightarrow> nx (EVarExpand i x tids cur pend) a
             | Some b \<Rightarrow> retO (Some b, EVarExpand i x tids cur pend, a)))"

section \<open>Relationship seeks and shortest paths\<close>

definition buildRelSeek :: "'s World \<Rightarrow> RelSeek \<Rightarrow> binding \<Rightarrow> ('s Context, op) act" where
  "buildRelSeek W x row =
     bnd (query (LookupType (Store W) (RSType x))) (\<lambda>(typeID, found).
       if \<not> found then ret (ERelSeek x [] [])
       else bnd (query (LookupKey (Store W) (RSKey x))) (\<lambda>(keyID, found).
         if \<not> found then ret (ERelSeek x [] [])
         else bnd (eval W (RSValue x) row) (\<lambda>v.
           let v = normalize v
           in if v = VNull then ret (ERelSeek x [] [])
              else if \<not> IsIndexable v then
                bnd (query (\<lambda>s. edges_of_type typeID (TScan (Store W) s EdgePrefix))) (\<lambda>es.
                  ret (ERelSeek x (map EID (filter (\<lambda>e. case map_of (EProps (ERec e)) keyID of Some w \<Rightarrow> equals w v | None \<Rightarrow> False) es)) []))
              else bnd (query (EdgesByProperty (Store W) typeID keyID v)) (\<lambda>ids. ret (ERelSeek x ids [])))))"

definition seek_rows :: "'s World \<Rightarrow> RelSeek \<Rightarrow> u64 \<Rightarrow> ('s Context, binding list) act" where
  "seek_rows W x i =
     bnd (query (GetEdge (Store W) i)) (\<lambda>e.
     bnd (loadNode W (Src (ERec e))) (\<lambda>src.
     bnd (if Dst (ERec e) \<noteq> Src (ERec e) then loadNode W (Dst (ERec e)) else ret src) (\<lambda>dst.
       let pairs = (if RSDir x = DirOut \<or> RSDir x = DirBoth then [(src, dst)] else []) @
                   (if RSDir x = DirIn \<or> RSDir x = DirBoth then [(dst, src)] else [])
       in ret (map (\<lambda>(f, t). [RSRel x \<mapsto> edge_val e, RSFrom x \<mapsto> f, RSTo x \<mapsto> t])
            (filter (\<lambda>(f, t). \<not> (RSFrom x = RSTo x \<and> element_id f \<noteq> element_id t)) pairs)))))"

definition relSeek_next :: "'s World \<Rightarrow> 's pull \<Rightarrow> RelSeek \<Rightarrow> u64 list \<Rightarrow> binding list \<Rightarrow> argument \<Rightarrow> ('s Context, binding option \<times> op \<times> argument) run" where
  "relSeek_next W nx x ids rows a =
     bndO (lft (check W)) (\<lambda>_.
       case rows of
         r # rows \<Rightarrow> retO (Some r, ERelSeek x ids rows, a)
       | [] \<Rightarrow>
           (case ids of
              [] \<Rightarrow> retO (None, ERelSeek x [] [], a)
            | i # is \<Rightarrow> bndO (lft (seek_rows W x i)) (\<lambda>rows. nx (ERelSeek x is rows) a)))"

definition shortest_spec :: "ShortestArgs \<Rightarrow> u32 list \<Rightarrow> PathSpec" where
  "shortest_spec x ids =
     \<lparr>POut = (SPDir x = DirOut \<or> SPDir x = DirBoth), PIn = (SPDir x = DirIn \<or> SPDir x = DirBoth),
      PTypes = (if SPTypes x = [] then None else Some (rev (remdups (rev ids)))),
      PMinHops = (if SPMinHops x < 0 then 1 else SPMinHops x), PMaxHops = SPMaxHops x, PAll = SPAll x\<rparr>"

definition load_path :: "'s World \<Rightarrow> id_path \<Rightarrow> ('s Context, val list \<times> val list) act" where
  "load_path W p = bnd (mapA (loadNode W) (fst p)) (\<lambda>ns. bnd (mapA (\<lambda>r. loadEdge W (RefID r)) (snd p)) (\<lambda>es. ret (ns, es)))"

definition shortest_next ::
  "'s World \<Rightarrow> 's pull \<Rightarrow> op \<Rightarrow> ShortestArgs \<Rightarrow> PathSpec \<Rightarrow> binding \<Rightarrow> id_path list \<Rightarrow> argument \<Rightarrow> ('s Context, binding option \<times> op \<times> argument) run" where
  "shortest_next W nx i x spec cur pend a =
     bndO (lft (check W)) (\<lambda>_.
       case pend of
         p # pend \<Rightarrow>
           bndO (lft (load_path W p)) (\<lambda>(ns, rs).
             retO (Some (bind_var (bind_var cur (SPPathVar x) (VPath ns rs)) (SPRelVar x) (VRels rs)), EShortest i x spec cur pend, a))
       | [] \<Rightarrow>
           pull (nx i a) (\<lambda>i. EShortest i x spec cur []) (\<lambda>b i a.
             let f = (case b (SPFrom x) of None \<Rightarrow> VNull | Some v \<Rightarrow> v); t = (case b (SPTo x) of None \<Rightarrow> VNull | Some v \<Rightarrow> v)
             in if f = VNull \<or> t = VNull then nx (EShortest i x spec cur []) a
                else case (f, t) of
                  (VNode m _ _, VNode n _ _) \<Rightarrow>
                    bndO (lft (ShortestPaths (Store W) query (check W) m n spec)) (\<lambda>paths. nx (EShortest i x spec b paths) a)
                | _ \<Rightarrow> throwO (ErrExec ''shortestPath endpoints must be nodes'')))"

section \<open>Filtering, projecting and sorting\<close>

definition filter_next :: "'s World \<Rightarrow> 's pull \<Rightarrow> op \<Rightarrow> Expr \<Rightarrow> argument \<Rightarrow> ('s Context, binding option \<times> op \<times> argument) run" where
  "filter_next W nx i p a =
     bndO (lft (check W)) (\<lambda>_.
     pull (nx i a) (\<lambda>i. EFilter i p) (\<lambda>b i a.
     bndO (lft (eval W p b)) (\<lambda>v.
       if truthy v then retO (Some b, EFilter i p, a) else nx (EFilter i p) a)))"

fun project_row :: "'s World \<Rightarrow> ProjItem list \<Rightarrow> binding \<Rightarrow> binding \<Rightarrow> ('s Context, binding) act" where
  "project_row W [] b out = ret out"
| "project_row W (it # items) b out = bnd (eval W (PIExpr it) b) (\<lambda>v. project_row W items b (out(PIColumn it \<mapsto> v)))"

definition col :: "binding \<Rightarrow> bytes \<Rightarrow> val" where
  "col b c = (case b c of None \<Rightarrow> VNull | Some v \<Rightarrow> v)"

definition rowKey :: "'s World \<Rightarrow> binding \<Rightarrow> ProjItem list \<Rightarrow> bytes" where
  "rowKey W b items = sprint_v W (VList (map (\<lambda>it. col b (PIColumn it)) items))"

definition project_next :: "'s World \<Rightarrow> 's pull \<Rightarrow> op \<Rightarrow> ProjItem list \<Rightarrow> bytes list option \<Rightarrow> argument \<Rightarrow> ('s Context, binding option \<times> op \<times> argument) run" where
  "project_next W nx i items seen a =
     bndO (lft (check W)) (\<lambda>_.
     pull (nx i a) (\<lambda>i. EProject i items seen) (\<lambda>b i a.
     bndO (lft (project_row W items b Map.empty)) (\<lambda>out.
       case seen of
         None \<Rightarrow> retO (Some out, EProject i items None, a)
       | Some keys \<Rightarrow>
           if rowKey W out items \<in> set keys then nx (EProject i items seen) a
           else retO (Some out, EProject i items (Some (rowKey W out items # keys)), a))))"

definition columnKey :: "Expr \<Rightarrow> bytes" where
  "columnKey e =
     (case e of
        Variable x _ \<Rightarrow> x
      | PropertyAccess (Variable x _) k _ \<Rightarrow> x @ str ''.'' @ k
      | _ \<Rightarrow> [])"

definition sortValue :: "'s World \<Rightarrow> binding \<Rightarrow> Expr \<Rightarrow> ('s Context, val) act" where
  "sortValue W b e =
     (case (if columnKey e \<noteq> [] then b (columnKey e) else None) of
        Some v \<Rightarrow> ret v
      | None \<Rightarrow> (\<lambda>c. case eval W e b c of (Inl _, c') \<Rightarrow> (Inr VNull, c') | (Inr v, c') \<Rightarrow> (Inr v, c')))"

fun sort_less :: "'s World \<Rightarrow> SortKey list \<Rightarrow> binding \<Rightarrow> binding \<Rightarrow> ('s Context, bool) act" where
  "sort_less W [] bi bj = ret False"
| "sort_less W (k # keys) bi bj =
     bnd (sortValue W bi (SKExpr k)) (\<lambda>vi.
     bnd (sortValue W bj (SKExpr k)) (\<lambda>vj.
       case compareValues vi vj of
         (c, ok) \<Rightarrow> if \<not> ok \<or> c = 0 then sort_less W keys bi bj else ret (if SKDesc k then c > 0 else c < 0)))"

text \<open>
  \<^verbatim>\<open>sort.SliceStable\<close> as a stable insertion sort: each row moves left past the rows it is less than. This is what
  the library does with up to twenty rows; beyond that it merges such blocks, with the same result as long as
  the comparison is an order.
\<close>

fun insert_back :: "('b \<Rightarrow> 'b \<Rightarrow> ('c, bool) act) \<Rightarrow> 'b \<Rightarrow> 'b list \<Rightarrow> ('c, 'b list) act" where
  "insert_back lt x [] = ret [x]"
| "insert_back lt x (y # ys) =
     bnd (lt x y) (\<lambda>l. if l then bnd (insert_back lt x ys) (\<lambda>zs. ret (y # zs)) else ret (x # y # ys))"

fun insertion_sort :: "('b \<Rightarrow> 'b \<Rightarrow> ('c, bool) act) \<Rightarrow> 'b list \<Rightarrow> 'b list \<Rightarrow> ('c, 'b list) act" where
  "insertion_sort lt acc [] = ret (rev acc)"
| "insertion_sort lt acc (x # xs) = bnd (insert_back lt x acc) (\<lambda>acc. insertion_sort lt acc xs)"

definition sort_next :: "'s World \<Rightarrow> 's pull \<Rightarrow> op \<Rightarrow> SortKey list \<Rightarrow> binding list \<Rightarrow> bool \<Rightarrow> argument \<Rightarrow> ('s Context, binding option \<times> op \<times> argument) run" where
  "sort_next W nx i keys rows loaded a =
     (if loaded then
        (case rows of
           [] \<Rightarrow> retO (None, ESort i keys [] True, a)
         | r # rows \<Rightarrow> retO (Some r, ESort i keys rows True, a))
      else
        bndO (lft (check W)) (\<lambda>_.
        bndO (nx i a) (\<lambda>(r, i, a).
          case r of
            Some b \<Rightarrow> nx (ESort i keys (rows @ [b]) False) a
          | None \<Rightarrow> bndO (lft (insertion_sort (sort_less W keys) [] rows)) (\<lambda>rows. nx (ESort i keys rows True) a))))"

section \<open>Counting, products and grouping\<close>

definition skip_next :: "'s World \<Rightarrow> 's pull \<Rightarrow> op \<Rightarrow> nat \<Rightarrow> argument \<Rightarrow> ('s Context, binding option \<times> op \<times> argument) run" where
  "skip_next W nx i n a =
     (case n of
        0 \<Rightarrow> pull (nx i a) (\<lambda>i. ESkip i 0) (\<lambda>b i a. retO (Some b, ESkip i 0, a))
      | Suc k \<Rightarrow> bndO (lft (check W)) (\<lambda>_. pull (nx i a) (\<lambda>i. ESkip i 0) (\<lambda>b i a. nx (ESkip i k) a)))"

definition limit_next :: "'s World \<Rightarrow> 's pull \<Rightarrow> op \<Rightarrow> i64 \<Rightarrow> i64 \<Rightarrow> argument \<Rightarrow> ('s Context, binding option \<times> op \<times> argument) run" where
  "limit_next W nx i n cnt a =
     bndO (lft (check W)) (\<lambda>_.
       if sint n \<le> sint cnt then retO (None, ELimit i n cnt, a)
       else pull (nx i a) (\<lambda>i. ELimit i n cnt) (\<lambda>b i a. retO (Some b, ELimit i n (cnt + 1), a)))"

definition cartesian_next ::
  "'s World \<Rightarrow> 's pull \<Rightarrow> op \<Rightarrow> op \<Rightarrow> binding list \<Rightarrow> bool \<Rightarrow> binding option \<Rightarrow> binding list \<Rightarrow> argument \<Rightarrow>
   ('s Context, binding option \<times> op \<times> argument) run" where
  "cartesian_next W nx l r rights loaded curLeft todo a =
     (let emit = (\<lambda>l b todo a. case todo of
            [] \<Rightarrow> nx (ECartesian l r rights True None []) a
          | m # todo \<Rightarrow> retO (Some (b ++ m), ECartesian l r rights True (Some b) todo, a))
      in if \<not> loaded then
           (case curLeft of
              None \<Rightarrow> pull (nx l a) (\<lambda>l. ECartesian l r rights False None []) (\<lambda>b l a. nx (ECartesian l r rights False (Some b) []) a)
            | Some b \<Rightarrow>
                bndO (lft (check W)) (\<lambda>_.
                bndO (nx r a) (\<lambda>(row, r, a).
                  case row of
                    Some m \<Rightarrow> nx (ECartesian l r (rights @ [m]) False (Some b) []) a
                  | None \<Rightarrow> nx (ECartesian l r rights True (Some b) rights) a)))
         else
           bndO (lft (check W)) (\<lambda>_.
             case curLeft of
               None \<Rightarrow> pull (nx l a) (\<lambda>l. ECartesian l r rights True None []) (\<lambda>b l a. emit l b rights a)
             | Some b \<Rightarrow> emit l b todo a))"

definition aggregate_next ::
  "'s World \<Rightarrow> 's pull \<Rightarrow> op \<Rightarrow> ProjItem list \<Rightarrow> ProjItem list \<Rightarrow> agg_state \<Rightarrow> argument \<Rightarrow> ('s Context, binding option \<times> op \<times> argument) run" where
  "aggregate_next W nx i gks aggs st a =
     (case st of
        NotLoaded \<Rightarrow>
          bndO (lft (liftR (parseAggFuncs W aggs))) (\<lambda>specs. nx (EAggregate i gks aggs (Loading specs (seed_groups gks specs))) a)
      | Loading specs groups \<Rightarrow>
          bndO (lft (check W)) (\<lambda>_.
          bndO (nx i a) (\<lambda>(r, i, a).
            case r of
              Some b \<Rightarrow> bndO (lft (agg_row W gks specs groups b)) (\<lambda>groups. nx (EAggregate i gks aggs (Loading specs groups)) a)
            | None \<Rightarrow> nx (EAggregate i gks aggs (Loaded (map (group_out gks aggs specs) groups))) a))
      | Loaded [] \<Rightarrow> retO (None, EAggregate i gks aggs (Loaded []), a)
      | Loaded (r # rows) \<Rightarrow> retO (Some r, EAggregate i gks aggs (Loaded rows), a))"

section \<open>Writing operators\<close>

text \<open>CREATE, SET, REMOVE and DELETE return one row for each input row.\<close>

definition write_next ::
  "'s pull \<Rightarrow> op \<Rightarrow> (op \<Rightarrow> op) \<Rightarrow> (binding \<Rightarrow> ('s Context, binding) act) \<Rightarrow> argument \<Rightarrow> ('s Context, binding option \<times> op \<times> argument) run" where
  "write_next nx i wrap row a =
     pull (nx i a) wrap (\<lambda>b i a. bndO (lft (row b)) (\<lambda>out. retO (Some out, wrap i, a)))"

definition create_next :: "'s World \<Rightarrow> 's pull \<Rightarrow> op \<Rightarrow> PatternPart list \<Rightarrow> argument \<Rightarrow> ('s Context, binding option \<times> op \<times> argument) run" where
  "create_next W nx i parts a = write_next nx i (\<lambda>i. ECreate i parts) (create_row W parts) a"

definition set_next :: "'s World \<Rightarrow> 's pull \<Rightarrow> op \<Rightarrow> SetClause list \<Rightarrow> argument \<Rightarrow> ('s Context, binding option \<times> op \<times> argument) run" where
  "set_next W nx i items a = write_next nx i (\<lambda>i. ESet i items) (\<lambda>b. applySetClauses W b items) a"

definition remove_next :: "'s World \<Rightarrow> 's pull \<Rightarrow> op \<Rightarrow> RemoveClause list \<Rightarrow> argument \<Rightarrow> ('s Context, binding option \<times> op \<times> argument) run" where
  "remove_next W nx i items a = write_next nx i (\<lambda>i. ERemove i items) (remove_row W items) a"

definition delete_next :: "'s World \<Rightarrow> 's pull \<Rightarrow> op \<Rightarrow> Expr list \<Rightarrow> bool \<Rightarrow> argument \<Rightarrow> ('s Context, binding option \<times> op \<times> argument) run" where
  "delete_next W nx i exprs detach a = write_next nx i (\<lambda>i. EDelete i exprs detach) (delete_row W exprs detach) a"

definition merge_next ::
  "'s World \<Rightarrow> 's pull \<Rightarrow> op \<Rightarrow> PatternPart \<Rightarrow> SetClause list \<Rightarrow> SetClause list \<Rightarrow> binding list \<Rightarrow> argument \<Rightarrow>
   ('s Context, binding option \<times> op \<times> argument) run" where
  "merge_next W nx i part onCreate onMatch out a =
     (case out of
        r # out \<Rightarrow> retO (Some r, EMerge i part onCreate onMatch out, a)
      | [] \<Rightarrow>
          pull (nx i a) (\<lambda>i. EMerge i part onCreate onMatch []) (\<lambda>b i a.
          bndO (lft (merge_run W part onCreate onMatch b)) (\<lambda>rows. nx (EMerge i part onCreate onMatch rows) a)))"

text \<open>A schema statement runs once and returns one row.\<close>

definition once :: "bool \<Rightarrow> (bool \<Rightarrow> op) \<Rightarrow> ('s Context, binding) act \<Rightarrow> argument \<Rightarrow> ('s Context, binding option \<times> op \<times> argument) run" where
  "once finished wrap m a =
     (if finished then retO (None, wrap True, a) else bndO (lft m) (\<lambda>b. retO (Some b, wrap True, a)))"

definition listing ::
  "binding list option \<Rightarrow> (binding list option \<Rightarrow> op) \<Rightarrow> ('s Context, binding list) act \<Rightarrow> argument \<Rightarrow>
   ('s Context, binding option \<times> op \<times> argument) run" where
  "listing rows wrap m a =
     bndO (case rows of None \<Rightarrow> lft m | Some rs \<Rightarrow> retO rs) (\<lambda>rs.
       case rs of
         [] \<Rightarrow> retO (None, wrap (Some []), a)
       | r # rs \<Rightarrow> retO (Some r, wrap (Some rs), a))"

section \<open>UNWIND, Apply and UNION\<close>

definition unwind_next :: "'s World \<Rightarrow> 's pull \<Rightarrow> op \<Rightarrow> Expr \<Rightarrow> bytes \<Rightarrow> binding \<Rightarrow> val list \<Rightarrow> argument \<Rightarrow> ('s Context, binding option \<times> op \<times> argument) run" where
  "unwind_next W nx i e x cur pend a =
     bndO (lft (check W)) (\<lambda>_.
       case pend of
         v # pend \<Rightarrow> retO (Some (cur(x \<mapsto> v)), EUnwind i e x cur pend, a)
       | [] \<Rightarrow>
           pull (nx i a) (\<lambda>i. EUnwind i e x cur []) (\<lambda>b i a.
           bndO (lft (eval W e b)) (\<lambda>v.
             case v of
               VNull \<Rightarrow> nx (EUnwind i e x cur []) a
             | VList vs \<Rightarrow> nx (EUnwind i e x b vs) a
             | _ \<Rightarrow> throwO (ErrExec ''UNWIND expects a list''))))"

definition argument_next :: "argument \<Rightarrow> ('s Context, binding option \<times> op \<times> argument) run" where
  "argument_next a =
     (case a of
        Some (row, False) \<Rightarrow> retO (Some row, EArgument, Some (row, True))
      | _ \<Rightarrow> retO (None, EArgument, a))"

definition null_row :: "binding \<Rightarrow> bytes list \<Rightarrow> binding" where
  "null_row b xs = fold (\<lambda>x b. b(x \<mapsto> VNull)) xs b"

definition outerApply_next ::
  "'s World \<Rightarrow> (Op \<Rightarrow> argument \<Rightarrow> ('s Context, op) act) \<Rightarrow> 's pull \<Rightarrow> op \<Rightarrow> Op \<Rightarrow> bytes list \<Rightarrow> bool \<Rightarrow>
   (binding \<times> op \<times> argument \<times> bool) option \<Rightarrow> bool \<Rightarrow> argument \<Rightarrow> ('s Context, binding option \<times> op \<times> argument) run" where
  "outerApply_next W build nx outer plan newVars inner cur pendingEmpty a =
     (let advance = (\<lambda>a.
        pull (nx outer a) (\<lambda>outer. EOuterApply outer plan newVars inner None False) (\<lambda>b outer a.
        bndO (lft (build plan (Some (b, False)))) (\<lambda>o1.
          nx (EOuterApply outer plan newVars inner (Some (b, o1, Some (b, False), False)) False) a)))
      in bndO (lft (check W)) (\<lambda>_.
           case cur of
             None \<Rightarrow> advance a
           | Some (b, o1, a1, emitted) \<Rightarrow>
               if pendingEmpty then retO (Some (null_row b newVars), EOuterApply outer plan newVars inner None False, a)
               else
                 bndO (nx o1 a1) (\<lambda>(r, o1, a1).
                   case r of
                     Some row \<Rightarrow> retO (Some row, EOuterApply outer plan newVars inner (Some (b, o1, a1, True)) False, a)
                   | None \<Rightarrow>
                       if \<not> emitted \<and> \<not> inner then nx (EOuterApply outer plan newVars inner (Some (b, o1, a1, emitted)) True) a
                       else advance a)))"

definition unionKey :: "'s World \<Rightarrow> binding \<Rightarrow> bytes list \<Rightarrow> bytes" where
  "unionKey W b columns = canonKeyList W (map (col b) columns)"

definition union_next :: "'s World \<Rightarrow> 's pull \<Rightarrow> op list \<Rightarrow> bytes list \<Rightarrow> bytes list option \<Rightarrow> argument \<Rightarrow> ('s Context, binding option \<times> op \<times> argument) run" where
  "union_next W nx parts columns seen a =
     (case parts of
        [] \<Rightarrow> retO (None, EUnion [] columns seen, a)
      | p # ps \<Rightarrow>
          bndO (lft (check W)) (\<lambda>_.
          bndO (nx p a) (\<lambda>(r, p, a).
            case r of
              None \<Rightarrow> nx (EUnion ps columns seen) a
            | Some b \<Rightarrow>
                (case seen of
                   None \<Rightarrow> retO (Some b, EUnion (p # ps) columns None, a)
                 | Some keys \<Rightarrow>
                     if unionKey W b columns \<in> set keys then nx (EUnion (p # ps) columns seen) a
                     else retO (Some b, EUnion (p # ps) columns (Some (unionKey W b columns # keys)), a)))))"

section \<open>Building the operators\<close>

definition evalCount :: "'s World \<Rightarrow> Expr \<Rightarrow> ('s Context, i64) act" where
  "evalCount W e =
     bnd (eval W e Map.empty) (\<lambda>v. case normalize v of VInt n \<Rightarrow> ret n | _ \<Rightarrow> throw (ErrExec ''SKIP/LIMIT requires an integer''))"

definition arg_row :: "argument \<Rightarrow> binding" where
  "arg_row a = (case a of None \<Rightarrow> Map.empty | Some (row, _) \<Rightarrow> row)"

fun buildWith :: "'s World \<Rightarrow> Op \<Rightarrow> argument \<Rightarrow> ('s Context, op) act" where
  "buildWith W Argument a = (case a of None \<Rightarrow> throw (ErrExec ''Argument outside an OuterApply'') | Some _ \<Rightarrow> ret EArgument)"
| "buildWith W NoOp a = ret (EUnit False)"
| "buildWith W (AllNodesScan x) a = bnd (query (\<lambda>s. Inr (ScanAllNodes (Store W) s))) (\<lambda>cur. ret (ENodeScan x (Inl cur)))"
| "buildWith W (NodeByLabelScan x label) a =
     bnd (query (LookupLabel (Store W) label)) (\<lambda>(i, found).
       if \<not> found then ret (ENodeScan x (Inr []))
       else bnd (query (\<lambda>s. Inr (ScanLabel (Store W) i s))) (\<lambda>cur. ret (ENodeScan x (Inl cur))))"
| "buildWith W (NodeByPropertyRange x) a = propertyRangeScan W x (arg_row a)"
| "buildWith W (NodeByProperty x label key value) a =
     bnd (propertyScanIDs W label key value (arg_row a)) (\<lambda>ids. ret (ENodeScan x (Inr ids)))"
| "buildWith W (ExpandOp p x) a =
     bnd (buildWith W p a) (\<lambda>i. bnd (lookup_types W (XTypes x)) (\<lambda>tids.
       ret (if XVarLength x then EVarExpand i x tids Map.empty [] else EExpand i x tids Map.empty [])))"
| "buildWith W (RelByProperty x) a = buildRelSeek W x (arg_row a)"
| "buildWith W (ShortestPathOp p x) a =
     bnd (buildWith W p a) (\<lambda>i. bnd (lookup_types W (SPTypes x)) (\<lambda>ids. ret (EShortest i x (shortest_spec x ids) Map.empty [])))"
| "buildWith W (FilterOp p e) a = bnd (buildWith W p a) (\<lambda>i. ret (EFilter i e))"
| "buildWith W (ProjectOp p items dist) a = bnd (buildWith W p a) (\<lambda>i. ret (EProject i items (if dist then Some [] else None)))"
| "buildWith W (SortOp p keys) a = bnd (buildWith W p a) (\<lambda>i. ret (ESort i keys [] False))"
| "buildWith W (SkipOp p e) a = bnd (buildWith W p a) (\<lambda>i. bnd (evalCount W e) (\<lambda>n. ret (ESkip i (nat (sint n)))))"
| "buildWith W (LimitOp p e) a = bnd (buildWith W p a) (\<lambda>i. bnd (evalCount W e) (\<lambda>n. ret (ELimit i n 0)))"
| "buildWith W (CartesianProduct p q) a =
     bnd (buildWith W p a) (\<lambda>l. bnd (buildWith W q a) (\<lambda>r. ret (ECartesian l r [] False None [])))"
| "buildWith W (AggregateOp p gks aggs _) a = bnd (buildWith W p a) (\<lambda>i. ret (EAggregate i gks aggs NotLoaded))"
| "buildWith W (CreateOp p parts) a = bnd (buildWith W p a) (\<lambda>i. ret (ECreate i parts))"
| "buildWith W (MergeOp p part onCreate onMatch) a = bnd (buildWith W p a) (\<lambda>i. ret (EMerge i part onCreate onMatch []))"
| "buildWith W (SetItems p items) a = bnd (buildWith W p a) (\<lambda>i. ret (ESet i items))"
| "buildWith W (RemoveOp p items) a = bnd (buildWith W p a) (\<lambda>i. ret (ERemove i items))"
| "buildWith W (UnwindOp p e x) a = bnd (buildWith W p a) (\<lambda>i. ret (EUnwind i e x Map.empty []))"
| "buildWith W (DeleteOp p exprs detach) a = bnd (buildWith W p a) (\<lambda>i. ret (EDelete i exprs detach))"
| "buildWith W (CreateIndexOp name label prop rel) a = ret (ECreateIndex name label prop rel False)"
| "buildWith W (DropIndexOp name ifExists) a = ret (EDropIndex name ifExists False)"
| "buildWith W ShowIndexesOp a = ret (EShowIndexes None)"
| "buildWith W (CreateConstraintOp name label prop) a = ret (ECreateConstraint name label prop False)"
| "buildWith W (DropConstraintOp name ifExists) a = ret (EDropConstraint name ifExists False)"
| "buildWith W ShowConstraintsOp a = ret (EShowConstraints None)"
| "buildWith W (Apply p q) a = bnd (buildWith W p a) (\<lambda>i. ret (EOuterApply i q [] True None False))"
| "buildWith W (OuterApply p q newVars) a = bnd (buildWith W p a) (\<lambda>i. ret (EOuterApply i q newVars False None False))"
| "buildWith W (UnionOp ps columns all) a =
     bnd (mapA (\<lambda>p. buildWith W p a) ps) (\<lambda>is. ret (EUnion is columns (if all then None else Some [])))"

section \<open>Running a plan\<close>

fun step :: "'s World \<Rightarrow> 's pull \<Rightarrow> op \<Rightarrow> argument \<Rightarrow> ('s Context, binding option \<times> op \<times> argument) run" where
  "step W nx (EUnit finished) a = retO (if finished then None else Some Map.empty, EUnit True, a)"
| "step W nx (ENodeScan x src) a = lft (nodeScan_next W x src a)"
| "step W nx EArgument a = argument_next a"
| "step W nx (EFilter i p) a = filter_next W nx i p a"
| "step W nx (EProject i items seen) a = project_next W nx i items seen a"
| "step W nx (ESort i keys rows loaded) a = sort_next W nx i keys rows loaded a"
| "step W nx (ESkip i n) a = skip_next W nx i n a"
| "step W nx (ELimit i n cnt) a = limit_next W nx i n cnt a"
| "step W nx (ECartesian l r rights loaded curLeft todo) a = cartesian_next W nx l r rights loaded curLeft todo a"
| "step W nx (EAggregate i gks aggs st) a = aggregate_next W nx i gks aggs st a"
| "step W nx (ECreate i parts) a = create_next W nx i parts a"
| "step W nx (EMerge i part onCreate onMatch out) a = merge_next W nx i part onCreate onMatch out a"
| "step W nx (ESet i items) a = set_next W nx i items a"
| "step W nx (ERemove i items) a = remove_next W nx i items a"
| "step W nx (EDelete i exprs detach) a = delete_next W nx i exprs detach a"
| "step W nx (EUnwind i e x cur pend) a = unwind_next W nx i e x cur pend a"
| "step W nx (ECreateIndex name label prop rel finished) a =
     once finished (ECreateIndex name label prop rel) (createIndex W name label prop rel) a"
| "step W nx (EDropIndex name ifExists finished) a = once finished (EDropIndex name ifExists) (dropIndex W name ifExists) a"
| "step W nx (EShowIndexes rows) a = listing rows EShowIndexes (showIndexes W) a"
| "step W nx (ECreateConstraint name label prop finished) a =
     once finished (ECreateConstraint name label prop) (createConstraint W name label prop) a"
| "step W nx (EDropConstraint name ifExists finished) a = once finished (EDropConstraint name ifExists) (dropConstraint W name ifExists) a"
| "step W nx (EShowConstraints rows) a = listing rows EShowConstraints (showConstraints W) a"
| "step W nx (EOuterApply outer plan newVars inner cur pendingEmpty) a =
     outerApply_next W (buildWith W) nx outer plan newVars inner cur pendingEmpty a"
| "step W nx (EUnion parts columns seen) a = union_next W nx parts columns seen a"
| "step W nx (EExpand i x tids cur pend) a = expand_next W nx i x tids cur pend a"
| "step W nx (EVarExpand i x tids cur pend) a = varExpand_next W nx i x tids cur pend a"
| "step W nx (ERelSeek x ids rows) a = relSeek_next W nx x ids rows a"
| "step W nx (EShortest i x spec cur pend) a = shortest_next W nx i x spec cur pend a"

fun op_next :: "nat \<Rightarrow> 's World \<Rightarrow> 's pull" where
  "op_next 0 W o1 a = (\<lambda>c. None)"
| "op_next (Suc n) W o1 a = step W (op_next n W) o1 a"

fun drain :: "nat \<Rightarrow> 's World \<Rightarrow> op \<Rightarrow> argument \<Rightarrow> ('s Context, val list list) run" where
  "drain 0 W o1 a = (\<lambda>c. None)"
| "drain (Suc n) W o1 a =
     bndO (lft (check W)) (\<lambda>_.
     bndO (op_next n W o1 a) (\<lambda>(r, o1, a). case r of None \<Rightarrow> retO [] | Some _ \<Rightarrow> drain n W o1 a))"

text \<open>The loop that collects the rows: \<open>mx\<close> is \<^verbatim>\<open>ctx.MaxRows\<close>, which no operator changes.\<close>

fun collect_rows :: "nat \<Rightarrow> 's World \<Rightarrow> bytes list \<Rightarrow> i64 \<Rightarrow> op \<Rightarrow> argument \<Rightarrow> val list list \<Rightarrow> ('s Context, val list list) run" where
  "collect_rows 0 W columns mx o1 a rows = (\<lambda>c. None)"
| "collect_rows (Suc n) W columns mx o1 a rows =
     bndO (lft (check W)) (\<lambda>_.
     bndO (op_next n W o1 a) (\<lambda>(r, o1, a).
       case r of
         None \<Rightarrow> retO rows
       | Some b \<Rightarrow>
           let rows = rows @ [map (col b) columns]
           in if 0 < sint mx \<and> sint mx \<le> int (length rows) then
                bndO (op_next n W o1 a) (\<lambda>(r, o1, a). if r \<noteq> None then throwO ErrResultLimit else retO rows)
              else collect_rows n W columns mx o1 a rows))"

definition Run :: "nat \<Rightarrow> 's World \<Rightarrow> Op \<Rightarrow> bytes list \<Rightarrow> ('s Context, val list list) run" where
  "Run n W root columns c =
     bndO (lft (buildWith W root None)) (\<lambda>o1.
       if columns = [] then drain n W o1 None else collect_rows n W columns (MaxRows c) o1 None []) c"

end
