(* ===== verification/Exec_Change.thy ===== *)
theory Exec_Change
  imports Exec_Write
begin

text \<open>
  What statements do to the database. Every writing clause and schema statement of \<open>Exec_Write\<close> is, as far as
  the transaction is concerned, a sequence of changes: calls of the graph layer, new names in the catalog
  and schema operations. The changes keep the graph consistent as long as the values they store are storable.
\<close>

section \<open>Changes\<close>

text \<open>
  What a statement can do to the transaction: the mutations of the graph, new names, and the schema
  operations, the two that rely on the absence of a constraint with the check that precedes them.
\<close>

datatype change =
    Mutate mutation
  | NewLabel bytes
  | NewType bytes
  | NewKey bytes
  | NewIndex u32 u32 bytes
  | NewRelIndex u32 u32 bytes
  | NewUnique u32 u32 bytes
  | EndIndex u32 u32
  | EndRelIndex u32 u32
  | EndUnique u32 u32

definition unconstrained :: "'s Txn \<Rightarrow> u32 \<Rightarrow> u32 \<Rightarrow> ('s, unit) act \<Rightarrow> ('s, unit) act" where
  "unconstrained T l k a =
     bnd (reads (GetConstraint T l k)) (\<lambda>d. if d = None then a else throw (ErrExec ''index backs a constraint''))"

fun perform :: "'s Txn \<Rightarrow> change \<Rightarrow> ('s, unit) act" where
  "perform T (Mutate mu) = mutate T mu"
| "perform T (NewLabel name) = bnd (InternLabel T name) (\<lambda>_. ret ())"
| "perform T (NewType name) = bnd (InternType T name) (\<lambda>_. ret ())"
| "perform T (NewKey name) = bnd (InternKey T name) (\<lambda>_. ret ())"
| "perform T (NewIndex l k name) = BuildIndex T l k name"
| "perform T (NewRelIndex t k name) = BuildRelIndex T t k name"
| "perform T (NewUnique l k name) = unconstrained T l k (AddUniqueConstraint T l k name)"
| "perform T (EndIndex l k) = unconstrained T l k (DropIndexEntries T l k)"
| "perform T (EndRelIndex t k) = DropRelIndexEntries T t k"
| "perform T (EndUnique l k) = DropUniqueConstraint T l k"

text \<open>Indexes come and go among the changes, so here \<^verbatim>\<open>SetProperty\<close> is not given null for any key.\<close>

fun wf_change :: "change \<Rightarrow> bool" where
  "wf_change (Mutate mu) = (wf_mutation Map.empty mu \<and> (case mu of MSetProperty n key v \<Rightarrow> v \<noteq> VNull | _ \<Rightarrow> True))"
| "wf_change _ = True"

lemma wf_change_mutation: "wf_change (Mutate mu) \<Longrightarrow> wf_mutation m mu"
  by (cases mu) auto

definition mutations_of :: "change list \<Rightarrow> mutation list" where
  "mutations_of chs = concat (map (\<lambda>ch. case ch of Mutate mu \<Rightarrow> [mu] | _ \<Rightarrow> []) chs)"

lemma mutations_of_simps [simp]:
  "mutations_of [] = []" "mutations_of (Mutate mu # chs) = mu # mutations_of chs"
  "(\<And>mu. ch \<noteq> Mutate mu) \<Longrightarrow> mutations_of (ch # chs) = mutations_of chs"
  by (auto simp: mutations_of_def split: change.split)

lemma runs_unconstrained:
  "runs (unconstrained T l k a) s u s' \<longleftrightarrow> GetConstraint T l k s = Inr None \<and> runs a s u s'"
  by (auto simp: unconstrained_def runs_bnd runs_reads split: if_splits)

lemma counter_key_apart [simp]:
  "counterKey kind \<noteq> indexKey l k" "counterKey kind \<noteq> constraintKey l k" "counterKey kind \<noteq> relIndexKey l k"
  "counterKey kind \<noteq> formatKey" "\<not> prefix (PropIndexPrefix l k) (counterKey kind)"
  "\<not> prefix (UniquePrefix l k) (counterKey kind)" "\<not> prefix (RelPropIndexPrefix l k) (counterKey kind)"
  by (auto dest: arg_cong [where f = hd] prefix_hd)

context txn_store
begin

lemma within_deletePrefix: "\<not> prefix p k \<Longrightarrow> within (same_row k) (deletePrefix T p)"
  unfolding within_def same_row_def using deletePrefix_content by fastforce

lemma within_schema:
  assumes "kind \<in> {kindNode, kindEdge}" "\<And>mu. ch \<noteq> Mutate mu"
  shows "within (same_row (counterKey kind)) (perform T ch)"
proof -
  have a: "apart (counterKey kind)" using assms(1) by auto
  note [within_rules] = within_deletePrefix within_liftR chains within_relations(1) [OF a]
  note u = unconstrained_def BuildIndex_def AddNamedIndex_def forEachLabelValue_def BuildRelIndex_def RequireRelIndexFormat_def
    AddRelIndex_def ScanEdgesOfType_def AddUniqueConstraint_def RequireUniqueFormat_def AddConstraint_def claimValue_def violation_def
    DropIndexEntries_def RemoveIndex_def DropRelIndexEntries_def RemoveRelIndex_def DropUniqueConstraint_def RemoveConstraint_def requireFormat_def Let_def
  have t: "hd x \<noteq> 0x63 \<Longrightarrow> same_row (counterKey kind) m (m(x := v))" for x m v
    by (auto simp: same_row_def)
  show ?thesis
    using assms(2) by (cases ch) (auto simp: u PropKey_eq UniqueKey_eq RelPropKey_eq split: if_splits intro!: within_rules t)
qed

end

context txn_store
begin

lemma schema_ok:
  assumes "\<And>mu. ch \<noteq> Mutate mu" "runs (perform T ch) s u s'" "usable s" "consistent (content s)"
  shows "usable s' \<and> consistent (content s') \<and> graph_of (content s') = graph_of (content s)"
proof -
  have intern: "usable s' \<and> consistent (content s') \<and> graph_of (content s') = graph_of (content s)"
    if h: "is_dict tag kind" "runs (bnd (internDict T tag kind name) (\<lambda>_. ret ())) s u s'" for tag kind name
  proof -
    obtain i where i: "runs (internDict T tag kind name) s i s'" using h(2) by (auto simp: runs_bnd)
    note r = internDict_interns [OF i assms(3) consistentD(3) [OF assms(4)] h(1)]
    with intern_consistent [OF _ assms(4)] show ?thesis by blast
  qed
  show ?thesis
  proof (cases ch)
    case (NewUnique l k name)
    then have "GetConstraint T l k s = Inr None" "runs (AddUniqueConstraint T l k name) s u s'" using assms(2) by (simp_all add: runs_unconstrained)
    with AddUniqueConstraint_ok [OF _ assms(3,4)] GetConstraint_content [OF _ assms(3)] show ?thesis by blast
  next
    case (EndIndex l k)
    then have "GetConstraint T l k s = Inr None" "runs (DropIndexEntries T l k) s u s'" using assms(2) by (simp_all add: runs_unconstrained)
    with DropIndexEntries_ok [OF _ assms(3,4)] GetConstraint_content [OF _ assms(3)] show ?thesis by blast
  next
    case (NewLabel name)
    then show ?thesis using intern [OF dict_names(1)] assms(2) by (simp add: InternLabel_def)
  next
    case (NewType name)
    then show ?thesis using intern [OF dict_names(2)] assms(2) by (simp add: InternType_def)
  next
    case (NewKey name)
    then show ?thesis using intern [OF dict_names(3)] assms(2) by (simp add: InternKey_def)
  next
    case (NewIndex l k name)
    then show ?thesis using BuildIndex_ok [OF _ assms(3,4)] assms(2) by simp
  next
    case (NewRelIndex t k name)
    then show ?thesis using BuildRelIndex_ok [OF _ assms(3,4)] assms(2) by simp
  next
    case (EndRelIndex t k)
    then show ?thesis using DropRelIndexEntries_ok [OF _ assms(3,4)] assms(2) by simp
  next
    case (EndUnique l k)
    then show ?thesis using DropUniqueConstraint_ok [OF _ assms(3,4)] assms(2) by simp
  qed (use assms(1) in simp)
qed

lemma schema_room:
  assumes "\<And>mu. ch \<noteq> Mutate mu" "runs (perform T ch) s u s'" "usable s" "room (content s) (Suc n)"
  shows "room (content s') n"
proof -
  have "same_row (counterKey kind) (content s) (content s')" if "kind \<in> {kindNode, kindEdge}" for kind
    using withinD [OF within_schema [OF that assms(1)] assms(2,3)] by simp
  then show ?thesis using assms(4) by (auto simp: room_def counter_def same_row_def)
qed

lemma changes_ok:
  assumes "runs (each (perform T) chs) s u s'" "usable s" "consistent (content s)" "\<forall>ch \<in> set chs. wf_change ch" "room (content s) (length chs)"
  shows "usable s' \<and> consistent (content s') \<and> a_run (mutations_of chs) (graph_of (content s)) (graph_of (content s'))"
  using assms
proof (induction chs arbitrary: s)
  case (Cons ch chs)
  then obtain t where t: "runs (perform T ch) s () t" "runs (each (perform T) chs) t u s'" by (auto simp: runs_seqA)
  show ?case
  proof (cases "\<exists>mu. ch = Mutate mu")
    case True
    then obtain mu where mu: "ch = Mutate mu" by blast
    then have "usable t \<and> consistent (content t) \<and> room (content t) (length chs) \<and> a_step mu (graph_of (content s)) (graph_of (content t))"
      using mutate_ok [OF _ Cons.prems(2,3) wf_change_mutation] t(1) Cons.prems(4,5) by simp
    with Cons.IH [OF t(2)] Cons.prems(4) mu show ?thesis by (auto intro: a_next)
  next
    case False
    then have n: "\<And>mu. ch \<noteq> Mutate mu" by blast
    have "room (content s) (Suc (length chs))" using Cons.prems(5) by simp
    note r = schema_room [OF n t(1) Cons.prems(2) this] and o = schema_ok [OF n t(1) Cons.prems(2,3)]
    with Cons.IH [OF t(2)] Cons.prems(4) n show ?thesis by simp
  qed
qed (auto intro: a_done)

end

section \<open>Reading actions\<close>

lemma reading_each [reading_intros]: "(\<And>x. reading W (f x)) \<Longrightarrow> reading W (each f xs)"
  by (induction xs) (auto intro!: reading_intros)

lemma reading_list [reading_intros]:
  "reading W a \<Longrightarrow> (\<And>y ys. v = y # ys \<Longrightarrow> reading W (f y ys)) \<Longrightarrow> reading W (case v of [] \<Rightarrow> a | y # ys \<Rightarrow> f y ys)"
  by (cases v) auto

lemma reading_load [reading_intros]: "reading W (loadNode W i)" "reading W (loadEdge W i)"
  unfolding loadNode_def loadEdge_def by (intro reading_intros)+

lemma reading_evalProps [reading_intros]: "reading W (evalProps W props b)"
  unfolding evalProps_def by (auto intro!: reading_intros reading_eval)

lemma reading_propsMatch [reading_intros]: "reading W (propsMatch W h want b)"
  by (induction want) (auto intro!: reading_intros reading_eval)

lemma reading_resolveLabels [reading_intros]: "reading W (resolveLabels W names)"
proof -
  have "reading W (resolve_labels W names ids)" for ids
    by (induction names arbitrary: ids) (auto intro!: reading_intros)
  then show ?thesis by (simp add: resolveLabels_def)
qed

lemma reading_rejectNull [reading_intros]: "reading W (rejectNullMergeProps W b part)"
proof -
  have "reading W (reject_null W b props)" for props
    by (induction props) (auto intro!: reading_intros reading_eval)
  then show ?thesis unfolding rejectNullMergeProps_def by (intro reading_intros)
qed

lemma reading_merge_candidates [reading_intros]: "reading W (merge_candidates W b n ids is)"
  by (induction "is") (auto intro!: reading_intros)

lemma reading_merge_edges [reading_intros]: "reading W (merge_edges W b rel e endNode ls refs)"
  by (induction refs) (auto simp: Let_def intro!: reading_intros split: option.split)

lemma reading_indexes [reading_intros]: "reading W (listAllIndexes W)" "reading W (findAnyIndex W name)" "reading W (showIndexes W)"
  unfolding findAnyIndex_def showIndexes_def listAllIndexes_def by (auto intro!: reading_intros)

lemma reading_constraints [reading_intros]: "reading W (findConstraint W name)" "reading W (showConstraints W)"
proof -
  have "reading W (find_named W name defs)" for defs by (induction defs) (auto intro!: reading_intros)
  then show "reading W (findConstraint W name)" unfolding findConstraint_def by (intro reading_intros)
  show "reading W (showConstraints W)" unfolding showConstraints_def by (auto intro!: reading_intros)
qed

section \<open>Actions that move along a relation\<close>

text \<open>
  \<open>R\<close> relates the transaction before an action with the transaction after it, \<open>E\<close> when it fails, in a statement
  with the parameters \<open>P\<close>. With the laws below an action stays in the relations as soon as its parts do.
\<close>

named_theorems via_rules \<open>rules for actions that move along a relation\<close>

locale txn_relation =
  fixes R :: "'s \<Rightarrow> 's \<Rightarrow> bool"
    and E :: "'s \<Rightarrow> 's \<Rightarrow> bool"
    and P :: "bytes \<rightharpoonup> val"
  assumes R_refl: "R s s"
    and R_trans: "R s t \<Longrightarrow> R t u \<Longrightarrow> R s u"
    and E_refl: "E s s"
    and E_trans: "R s t \<Longrightarrow> E t u \<Longrightarrow> E s u"
begin

definition moves :: "'a result \<Rightarrow> 's Context \<Rightarrow> 's Context \<Rightarrow> bool" where
  "moves r c c' \<longleftrightarrow> (case r of Inr _ \<Rightarrow> R (ctxTxn c) (ctxTxn c') \<and> Params c' = P | Inl _ \<Rightarrow> E (ctxTxn c) (ctxTxn c'))"

definition via :: "('s Context, 'a) act \<Rightarrow> bool" where
  "via m \<longleftrightarrow> (\<forall>c. Params c = P \<longrightarrow> moves (fst (m c)) c (snd (m c)))"

lemma via_reading: "reading W m \<Longrightarrow> via m"
  using reading_kept [of W m] by (auto simp: via_def moves_def kept_def R_refl E_refl split: sum.split)

lemma via_ret [via_rules]: "via (ret x)" "via (throw e)" "via (liftR r)" "via (query f)"
  by (auto simp: via_def moves_def ret_def throw_def liftR_def query_def R_refl E_refl split: sum.split)

lemma moves_trans: "moves (Inr x) c c1 \<Longrightarrow> moves r c1 c' \<Longrightarrow> moves r c c'"
  by (auto simp: moves_def split: sum.splits intro: R_trans E_trans)

lemma via_bind:
  assumes m: "via m" and f: "\<And>x c c'. Params c = P \<Longrightarrow> runs m c x c' \<Longrightarrow> via (f x)"
  shows "via (bnd m f)"
  unfolding via_def
proof (intro allI impI)
  fix c :: "'s Context"
  assume p: "Params c = P"
  obtain r c1 where r: "m c = (r, c1)" by (cases "m c")
  have a: "moves r c c1" using m p r by (metis fst_conv snd_conv via_def)
  show "moves (fst (bnd m f c)) c (snd (bnd m f c))"
  proof (cases r)
    case (Inr x)
    have "via (f x)" using f p r Inr by (auto simp: runs_def)
    then have "moves (fst (f x c1)) c1 (snd (f x c1))" using a Inr by (simp add: via_def moves_def)
    with a Inr r show ?thesis using moves_trans by (fastforce simp: bnd_def)
  qed (use a r in \<open>simp add: moves_def bnd_def\<close>)
qed

lemma via_bnd [via_rules]: "via m \<Longrightarrow> (\<And>x. via (f x)) \<Longrightarrow> via (bnd m f)"
  by (rule via_bind)

lemma via_seqA [via_rules]: "via m \<Longrightarrow> via n \<Longrightarrow> via (seqA m n)"
  unfolding seqA_def by (rule via_bnd)

lemma via_onTxn: "(\<And>s. case a s of (Inr _, s') \<Rightarrow> R s s' | (Inl _, s') \<Rightarrow> E s s') \<Longrightarrow> via (onTxn a)"
  by (fastforce simp: via_def onTxn_def moves_def split: prod.splits sum.splits)

lemma via_cases [via_rules]:
  "via m \<Longrightarrow> via n \<Longrightarrow> via (if Q then m else n)"
  "via m \<Longrightarrow> (\<And>x. via (f x)) \<Longrightarrow> via (case v of None \<Rightarrow> m | Some x \<Rightarrow> f x)"
  "(\<And>x y. via (g x y)) \<Longrightarrow> via (case p of (x, y) \<Rightarrow> g x y)"
  "via m \<Longrightarrow> (\<And>y ys. via (h y ys)) \<Longrightarrow> via (case l of [] \<Rightarrow> m | y # ys \<Rightarrow> h y ys)"
  by (auto split: option.split prod.split list.split)

lemma via_mapA [via_rules]: "(\<And>x. via (f x)) \<Longrightarrow> via (mapA f xs)"
  by (induction xs) (auto intro!: via_rules)

end

section \<open>Writes with storable values\<close>

text \<open>The writing clauses and schema statements of a plan.\<close>

datatype effect =
    WCreate "PatternPart list"
  | WMerge PatternPart "SetClause list" "SetClause list"
  | WSet "SetClause list"
  | WRemove "RemoveClause list"
  | WDelete "Expr list" bool
  | WCreateIndex bytes bytes bytes bool
  | WDropIndex bytes bool
  | WCreateConstraint bytes bytes bytes
  | WDropConstraint bytes bool

text \<open>
  The expressions of a clause whose values are stored give storable values, in every row and context with the
  parameters \<open>P\<close>: property maps with distinct keys, values that a record can hold, and no null for \<^verbatim>\<open>SET n.k = e\<close>.
\<close>

definition storable_props :: "'s World \<Rightarrow> (bytes \<rightharpoonup> val) \<Rightarrow> (bytes \<times> Expr) list \<Rightarrow> bool" where
  "storable_props W P props \<longleftrightarrow> (\<forall>b c vs c'. Params c = P \<longrightarrow> runs (evalProps W props b) c vs c' \<longrightarrow> wf_args vs)"

fun storable_set :: "'s World \<Rightarrow> (bytes \<rightharpoonup> val) \<Rightarrow> SetClause \<Rightarrow> bool" where
  "storable_set W P (SetPropertyC t key e) = (\<forall>b c v c'. Params c = P \<longrightarrow> runs (eval W e b) c v c' \<longrightarrow> wf_val v \<and> v \<noteq> VNull)"
| "storable_set W P (SetMapC x e rep pos) = (\<forall>b c m c'. Params c = P \<longrightarrow> runs (eval W e b) c (VMap m) c' \<longrightarrow> wf_args m)"
| "storable_set W P (SetLabelsC x labels pos) = True"

definition storable_part :: "'s World \<Rightarrow> (bytes \<rightharpoonup> val) \<Rightarrow> PatternPart \<Rightarrow> bool" where
  "storable_part W P part \<longleftrightarrow> storable_props W P (NodePattern.NProps (Start part)) \<and>
     (\<forall>ch \<in> set (Chain part). storable_props W P (NodePattern.NProps (ChainNode ch)) \<and> storable_props W P (RProps (ChainRel ch)))"

fun storable :: "'s World \<Rightarrow> (bytes \<rightharpoonup> val) \<Rightarrow> effect \<Rightarrow> bool" where
  "storable W P (WCreate parts) = (\<forall>part \<in> set parts. storable_part W P part)"
| "storable W P (WMerge part onCreate onMatch) = (storable_part W P part \<and> (\<forall>item \<in> set onCreate \<union> set onMatch. storable_set W P item))"
| "storable W P (WSet items) = (\<forall>item \<in> set items. storable_set W P item)"
| "storable W P _ = True"

context txn_relation
begin

fun via_effect :: "'s World \<Rightarrow> effect \<Rightarrow> bool" where
  "via_effect W (WCreate parts) = (\<forall>b. via (create_row W parts b))"
| "via_effect W (WMerge part onCreate onMatch) = (\<forall>b. via (merge_run W part onCreate onMatch b))"
| "via_effect W (WSet items) = (\<forall>b. via (applySetClauses W b items))"
| "via_effect W (WRemove items) = (\<forall>b. via (remove_row W items b))"
| "via_effect W (WDelete es detach) = (\<forall>b. via (delete_row W es detach b))"
| "via_effect W (WCreateIndex name label prop rel) = via (createIndex W name label prop rel)"
| "via_effect W (WDropIndex name ifExists) = via (dropIndex W name ifExists)"
| "via_effect W (WCreateConstraint name label prop) = via (createConstraint W name label prop)"
| "via_effect W (WDropConstraint name ifExists) = via (dropConstraint W name ifExists)"

end

text \<open>The writing clauses move along every relation that the calls they make, with storable values, move along.\<close>

locale write_relation = txn_relation R E P for R E :: "'s \<Rightarrow> 's \<Rightarrow> bool" and P :: "bytes \<rightharpoonup> val" +
  fixes W :: "'s World"
  assumes via_stores:
    "wf_args props \<Longrightarrow> via (onTxn (CreateNode (Store W) labels props))" "wf_args props \<Longrightarrow> via (onTxn (CreateEdge (Store W) ty src dst props))"
    "wf_val v \<Longrightarrow> v \<noteq> VNull \<Longrightarrow> via (onTxn (SetProperty (Store W) n key v))" "wf_args props \<Longrightarrow> via (onTxn (SetNodeProperties (Store W) n props rep))"
  and via_calls:
    "via (onTxn (AddLabels (Store W) n labels))" "via (onTxn (RemoveProperty (Store W) n key))"
    "via (onTxn (RemoveLabels (Store W) n labels))" "via (onTxn (DeleteEdge (Store W) n))"
    "via (onTxn (DeleteNode (Store W) n))" "via (onTxn (DetachDeleteNode (Store W) n))"
    "via (createIndex W name label prop rel)" "via (dropIndex W name ifExists)"
    "via (createConstraint W name label prop)" "via (dropConstraint W name ifExists)"
begin

lemmas via_reads [via_rules] = reading_load [THEN via_reading, of W]
  reading_eval [THEN via_reading, of W]
  reading_propsMatch [THEN via_reading, of W] reading_resolveLabels [THEN via_reading, of W] reading_rejectNull [THEN via_reading, of W]
  reading_merge_candidates [THEN via_reading, of W] reading_merge_edges [THEN via_reading, of W]

lemma via_props: "storable_props W P props \<Longrightarrow> (\<And>vs. wf_args vs \<Longrightarrow> via (f vs)) \<Longrightarrow> via (bnd (evalProps W props b) f)"
  by (rule via_bind [OF via_reading [OF reading_evalProps]]) (auto simp: storable_props_def)

lemma via_createOrReuseNode: "storable_props W P (NodePattern.NProps n) \<Longrightarrow> via (createOrReuseNode W b n)"
  unfolding createOrReuseNode_def by (auto intro!: via_rules via_props via_stores)

lemma via_createRel: "storable_props W P (RProps r) \<Longrightarrow> via (createRel W b r f t)"
  unfolding createRel_def by (auto simp: Let_def intro!: via_rules via_props via_stores)

lemma via_create_row: "\<forall>part \<in> set parts. storable_part W P part \<Longrightarrow> via (create_row W parts b)"
proof (induction parts arbitrary: b)
  case (Cons part parts)
  have "\<forall>ch \<in> set chs. storable_props W P (NodePattern.NProps (ChainNode ch)) \<and> storable_props W P (RProps (ChainRel ch)) \<Longrightarrow>
      via (create_chain W b prev chs)" for b prev chs
    by (induction chs arbitrary: b prev) (auto intro!: via_rules via_createOrReuseNode via_createRel)
  then have "via (createPart W b part)"
    using Cons.prems unfolding createPart_def by (auto simp: storable_part_def intro!: via_rules via_createOrReuseNode)
  with Cons show ?case by (auto intro!: via_rules)
qed (auto intro!: via_rules)

lemma via_value: "storable_set W P (SetPropertyC t key e) \<Longrightarrow> (\<And>v. wf_val v \<Longrightarrow> v \<noteq> VNull \<Longrightarrow> via (f v)) \<Longrightarrow> via (bnd (eval W e b) f)"
  by (rule via_bind [OF via_reading [OF reading_eval]]) auto

lemma via_map:
  assumes "storable_set W P (SetMapC x e rep pos)" "\<And>v. \<forall>m. v = VMap m \<longrightarrow> wf_args m \<Longrightarrow> via (f v)"
  shows "via (bnd (eval W e b) f)"
proof (rule via_bind [OF via_reading [OF reading_eval]])
  fix v and c c' :: "'s Context"
  assume "Params c = P" "runs (eval W e b) c v c'"
  then have "\<forall>m. v = VMap m \<longrightarrow> wf_args m" using assms(1) by auto
  then show "via (f v)" by (rule assms(2))
qed

lemma via_applySetClauses: "\<forall>item \<in> set items. storable_set W P item \<Longrightarrow> via (applySetClauses W b items)"
proof (induction items arbitrary: b)
  case (Cons item items)
  have n: "wf_args []" by (simp add: wf_args_def)
  have i: "storable_set W P item" "\<And>b. via (applySetClauses W b items)" using Cons by auto
  show ?case
  proof (cases item)
    case (SetPropertyC t key e)
    note r = via_value [OF i(1) [unfolded SetPropertyC]] via_rules via_stores i(2)
    show ?thesis unfolding SetPropertyC applySetClauses.simps by (cases t; simp; intro r; assumption)
  next
    case (SetLabelsC x labels pos)
    then show ?thesis using i(2) by (auto intro!: via_rules via_calls)
  next
    case (SetMapC x e rep pos)
    have m: "via (case v of VNull \<Rightarrow> if rep then onTxn (SetNodeProperties (Store W) node [] True) else ret ()
        | VMap m \<Rightarrow> onTxn (SetNodeProperties (Store W) node m rep) | _ \<Rightarrow> throw err)" if "\<forall>m. v = VMap m \<longrightarrow> wf_args m" for v node err
      using that n by (auto intro!: via_rules via_stores split: val.split)
    note r = via_map [OF i(1) [unfolded SetMapC]] m via_rules i(2)
    show ?thesis unfolding SetMapC applySetClauses.simps by (simp, intro r; assumption)
  qed
qed (auto intro!: via_rules)

lemma via_remove_row: "via (remove_row W items b)"
proof (induction items arbitrary: b)
  case (Cons item items)
  show ?case
  proof (cases item)
    case (RemovePropertyC t key)
    then show ?thesis using Cons by (cases t) (auto intro!: via_rules via_calls)
  next
    case (RemoveLabelsC x labels pos)
    then show ?thesis using Cons by (auto intro!: via_rules via_calls)
  qed
qed (auto intro!: via_rules)

lemma via_delete_row: "via (delete_row W es detach b)"
proof (induction es)
  case (Cons e es)
  have "via (delete_value W detach v)" for v
    unfolding delete_value_def by (cases v) (auto intro!: via_rules via_calls)
  with Cons show ?case by (auto intro!: via_rules)
qed (auto intro!: via_rules)

lemma via_merge_run:
  assumes "storable_part W P part" "\<forall>item \<in> set onCreate \<union> set onMatch. storable_set W P item"
  shows "via (merge_run W part onCreate onMatch b)"
proof -
  have n: "via (mergeNode W b n)" if "storable_props W P (NodePattern.NProps n)" for n
    unfolding mergeNode_def using that by (auto intro!: via_rules via_createOrReuseNode)
  have r: "via (mergeRel W b start ch)" if "storable_props W P (NodePattern.NProps (ChainNode ch))" "storable_props W P (RProps (ChainRel ch))" for start ch
    unfolding mergeRel_def Let_def using that by (auto intro!: via_rules via_props via_stores via_createRel)
  have s: "via (applySetClauses W row (if m then onMatch else onCreate))" for row m
    using assms(2) by (auto intro: via_applySetClauses)
  show ?thesis
    unfolding merge_run_def using assms(1) by (auto simp: storable_part_def intro!: via_rules n r s split: list.split)
qed

lemma storable_via: "storable W P wr \<Longrightarrow> via_effect W wr"
  by (cases wr) (auto intro: via_create_row via_merge_run via_applySetClauses via_remove_row via_delete_row via_calls)

end

section \<open>Statements are sequences of changes\<close>

definition leads :: "'s Txn \<Rightarrow> 's \<Rightarrow> 's \<Rightarrow> bool" where
  "leads T s s' \<longleftrightarrow> (\<exists>chs. (\<forall>ch \<in> set chs. wf_change ch) \<and> runs (each (perform T) chs) s () s')"

lemma leads_refl: "leads T s s"
  unfolding leads_def by (rule exI [of _ "[]"]) simp

lemma runs_each_append: "runs (each f (xs @ ys)) s () s' \<longleftrightarrow> (\<exists>t. runs (each f xs) s () t \<and> runs (each f ys) t () s')"
  by (induction xs arbitrary: s) (auto simp: runs_seqA)

lemma leads_trans: "leads T s t \<Longrightarrow> leads T t u \<Longrightarrow> leads T s u"
  unfolding leads_def
proof (elim exE conjE)
  fix xs ys
  assume "\<forall>ch \<in> set xs. wf_change ch" "\<forall>ch \<in> set ys. wf_change ch" "runs (each (perform T) xs) s () t" "runs (each (perform T) ys) t () u"
  then show "\<exists>chs. (\<forall>ch \<in> set chs. wf_change ch) \<and> runs (each (perform T) chs) s () u"
    by (intro exI [of _ "xs @ ys"]) (auto simp: runs_each_append)
qed

lemma leads_perform: "runs (perform T ch) s () s' \<Longrightarrow> wf_change ch \<Longrightarrow> leads T s s'"
  unfolding leads_def by (rule exI [of _ "[ch]"]) (simp add: runs_seqA)

interpretation leading: txn_relation "leads T" "\<lambda>_ _. True" P for T :: "'s Txn" and P
  by unfold_locales (auto intro: leads_refl leads_trans)

interpretation still: txn_relation "(=) :: 's \<Rightarrow> 's \<Rightarrow> bool" "(=)" P for P
  by unfold_locales auto

lemma leading_change:
  assumes "\<And>s x s'. runs a s x s' \<Longrightarrow> \<exists>ch. wf_change ch \<and> runs (perform T ch) s () s'"
  shows "leading.via T P (onTxn a)"
proof (rule leading.via_onTxn)
  fix s
  show "case a s of (Inr _, s') \<Rightarrow> leads T s s' | (Inl _, s') \<Rightarrow> True"
    using assms [of s] leads_perform by (fastforce simp: runs_def split: prod.split sum.split)
qed

lemma leading_mutation:
  "wf_change (Mutate mu) \<Longrightarrow> (\<And>s x s'. runs a s x s' \<Longrightarrow> runs (mutate T mu) s () s') \<Longrightarrow> leading.via T P (onTxn a)"
  by (rule leading_change) (metis perform.simps(1))

lemma leading_stores:
  "wf_args props \<Longrightarrow> leading.via T P (onTxn (CreateNode T labels props))"
  "wf_args props \<Longrightarrow> leading.via T P (onTxn (CreateEdge T ty src dst props))"
  "wf_val v \<Longrightarrow> v \<noteq> VNull \<Longrightarrow> leading.via T P (onTxn (SetProperty T n key v))"
  "wf_args props \<Longrightarrow> leading.via T P (onTxn (SetNodeProperties T n props rep))"
proof -
  show "leading.via T P (onTxn (CreateNode T labels props))" if "wf_args props"
    by (rule leading_mutation [of "MCreateNode labels props"]) (use that in \<open>auto simp: runs_bnd\<close>)
  show "leading.via T P (onTxn (CreateEdge T ty src dst props))" if "wf_args props"
    by (rule leading_mutation [of "MCreateEdge ty src dst props"]) (use that in \<open>auto simp: runs_bnd\<close>)
  show "leading.via T P (onTxn (SetProperty T n key v))" if "wf_val v" "v \<noteq> VNull"
    by (rule leading_mutation [of "MSetProperty n key v"]) (use that in simp_all)
  show "leading.via T P (onTxn (SetNodeProperties T n props rep))" if "wf_args props"
    by (rule leading_mutation [of "MSetNodeProperties n props rep"]) (use that in simp_all)
qed

lemma leading_calls:
  "leading.via T P (onTxn (AddLabels T n labels))" "leading.via T P (onTxn (RemoveProperty T n key))"
  "leading.via T P (onTxn (RemoveLabels T n labels))" "leading.via T P (onTxn (DeleteEdge T n))"
  "leading.via T P (onTxn (DeleteNode T n))" "leading.via T P (onTxn (DetachDeleteNode T n))"
proof -
  show "leading.via T P (onTxn (AddLabels T n labels))" by (rule leading_mutation [of "MAddLabels n labels"]) simp_all
  show "leading.via T P (onTxn (RemoveProperty T n key))" by (rule leading_mutation [of "MRemoveProperty n key"]) simp_all
  show "leading.via T P (onTxn (RemoveLabels T n labels))" by (rule leading_mutation [of "MRemoveLabels n labels"]) simp_all
  show "leading.via T P (onTxn (DeleteEdge T n))" by (rule leading_mutation [of "MDeleteEdge n"]) simp_all
  show "leading.via T P (onTxn (DeleteNode T n))" by (rule leading_mutation [of "MDeleteNode n"]) simp_all
  show "leading.via T P (onTxn (DetachDeleteNode T n))" by (rule leading_mutation [of "MDetachDeleteNode n"]) simp_all
qed

lemma leading_schema_calls:
  "leading.via T P (onTxn (InternLabel T name))" "leading.via T P (onTxn (InternType T name))" "leading.via T P (onTxn (InternKey T name))"
  "leading.via T P (onTxn (BuildIndex T l k name))" "leading.via T P (onTxn (BuildRelIndex T l k name))"
  "leading.via T P (onTxn (DropRelIndexEntries T l k))" "leading.via T P (onTxn (DropUniqueConstraint T l k))"
proof -
  show "leading.via T P (onTxn (InternLabel T name))" by (rule leading_change, rule exI [of _ "NewLabel name"]) (auto simp: runs_bnd)
  show "leading.via T P (onTxn (InternType T name))" by (rule leading_change, rule exI [of _ "NewType name"]) (auto simp: runs_bnd)
  show "leading.via T P (onTxn (InternKey T name))" by (rule leading_change, rule exI [of _ "NewKey name"]) (auto simp: runs_bnd)
  show "leading.via T P (onTxn (BuildIndex T l k name))" by (rule leading_change, rule exI [of _ "NewIndex l k name"]) simp
  show "leading.via T P (onTxn (BuildRelIndex T l k name))" by (rule leading_change, rule exI [of _ "NewRelIndex l k name"]) simp
  show "leading.via T P (onTxn (DropRelIndexEntries T l k))" by (rule leading_change, rule exI [of _ "EndRelIndex l k"]) simp
  show "leading.via T P (onTxn (DropUniqueConstraint T l k))" by (rule leading_change, rule exI [of _ "EndUnique l k"]) simp
qed

text \<open>A call that the source guards with the absence of a constraint, after reads that leave the transaction alone.\<close>

definition via_at :: "'s Txn \<Rightarrow> (bytes \<rightharpoonup> val) \<Rightarrow> 's \<Rightarrow> ('s Context, 'a) act \<Rightarrow> bool" where
  "via_at T P s m \<longleftrightarrow> (\<forall>c x c'. ctxTxn c = s \<longrightarrow> Params c = P \<longrightarrow> runs m c x c' \<longrightarrow> leads T s (ctxTxn c') \<and> Params c' = P)"

lemma via_at_query:
  assumes "\<And>s x. f s = Inr x \<Longrightarrow> via_at T P s (k x)"
  shows "leading.via T P (bnd (query f) k)"
  unfolding leading.via_def
proof (intro allI impI)
  fix c :: "'a Context"
  assume p: "Params c = P"
  obtain r c' where r: "bnd (query f) k c = (r, c')" by (cases "bnd (query f) k c")
  show "leading.moves T P (fst (bnd (query f) k c)) c (snd (bnd (query f) k c))"
  proof (cases r)
    case (Inr x)
    with r obtain y where "f (ctxTxn c) = Inr y" "runs (k y) c x c'" by (auto simp: bnd_def query_def runs_def split: sum.splits)
    with assms show ?thesis using r Inr p by (auto simp: via_at_def leading.moves_def)
  qed (use r in \<open>simp add: leading.moves_def\<close>)
qed

lemma via_at_reading: "reading W m \<Longrightarrow> (\<And>x. via_at T P s (f x)) \<Longrightarrow> via_at T P s (bnd m f)"
proof -
  assume "reading W m" and f: "\<And>x. via_at T P s (f x)"
  then have "ctxTxn c1 = ctxTxn c \<and> Params c1 = Params c" if "runs m c x c1" for c x c1
    using reading_kept [of W m c] that by (auto simp: runs_def kept_def)
  with f show ?thesis unfolding via_at_def runs_bnd by blast
qed

lemma via_at_throw: "via_at T P s (throw e)"
  by (simp add: via_at_def)

lemma via_at_via: "leading.via T P m \<Longrightarrow> via_at T P s m"
  unfolding via_at_def leading.via_def leading.moves_def runs_def by force

lemma via_at_call:
  assumes "\<And>u s'. runs a s u s' \<Longrightarrow> runs (perform T ch) s () s'" "wf_change ch"
  shows "via_at T P s (seqA (onTxn a) (ret x))"
proof -
  have "leads T s (ctxTxn c') \<and> Params c' = P" if "ctxTxn c = s" "Params c = P" "runs (onTxn a) c u c'" for c u c'
    using that assms leads_perform by (auto simp: runs_def onTxn_def split: prod.splits)
  then show ?thesis by (auto simp: via_at_def runs_seqA)
qed

lemma leading_reads: "reading W m \<Longrightarrow> leading.via T P m"
  by (rule leading.via_reading)

lemma leading_createIndex: "leading.via (Store W) P (createIndex W name label prop rel)"
proof -
  note r = reading_indexes(2) [of W, THEN leading_reads]
  show ?thesis unfolding createIndex_def createRelIndex_def
    by (auto intro!: via_rules leading.via_ret leading.via_bnd leading.via_seqA leading.via_cases leading_schema_calls r)
qed

lemma leading_dropIndex: "leading.via (Store W) P (dropIndex W name ifExists)"
proof -
  note rules = leading.via_ret leading.via_bnd leading.via_seqA leading.via_cases leading_schema_calls
  have guard: "leading.via (Store W) P (bnd (query (GetConstraint (Store W) l k)) (\<lambda>c. case c of
      Some d \<Rightarrow> bnd (query (ConstraintName (Store W) d)) (\<lambda>_. throw e)
    | None \<Rightarrow> seqA (onTxn (DropIndexEntries (Store W) l k)) (ret b)))" for l k e and b :: binding
  proof (rule via_at_query)
    fix s x
    assume g: "GetConstraint (Store W) l k s = Inr x"
    show "via_at (Store W) P s (case x of Some d \<Rightarrow> bnd (query (ConstraintName (Store W) d)) (\<lambda>_. throw e)
      | None \<Rightarrow> seqA (onTxn (DropIndexEntries (Store W) l k)) (ret b))"
    proof (cases x)
      case None
      then show ?thesis using g by (auto intro!: via_at_call [of _ _ _ "EndIndex l k"] simp: runs_unconstrained)
    qed (auto intro!: via_at_via rules)
  qed
  show ?thesis unfolding dropIndex_def
    by (auto intro!: rules guard reading_indexes(2) [of W, THEN leading_reads])
qed

lemma leading_createConstraint: "leading.via (Store W) P (createConstraint W name label prop)"
proof -
  note rules = leading.via_ret leading.via_bnd leading.via_seqA leading.via_cases leading_schema_calls
  have guard: "leading.via (Store W) P (bnd (query (GetConstraint (Store W) l k)) (\<lambda>def. case def of
      Some d \<Rightarrow> bnd (query (ConstraintName (Store W) d)) (\<lambda>(_, _, existing).
        if name \<noteq> [] \<and> name \<noteq> existing then throw e else ret b)
    | None \<Rightarrow> bnd (if name \<noteq> [] then findConstraint W name else ret None) (\<lambda>found.
        if found \<noteq> None then throw e' else seqA (onTxn (AddUniqueConstraint (Store W) l k name)) (ret b))))" for l k e e' and b :: binding
  proof (rule via_at_query)
    fix s x
    assume g: "GetConstraint (Store W) l k s = Inr x"
    show "via_at (Store W) P s (case x of Some d \<Rightarrow> bnd (query (ConstraintName (Store W) d)) (\<lambda>(_, _, existing).
        if name \<noteq> [] \<and> name \<noteq> existing then throw e else ret b)
      | None \<Rightarrow> bnd (if name \<noteq> [] then findConstraint W name else ret None) (\<lambda>found.
        if found \<noteq> None then throw e' else seqA (onTxn (AddUniqueConstraint (Store W) l k name)) (ret b)))"
    proof (cases x)
      case None
      have "reading W (if name \<noteq> [] then findConstraint W name else ret None)" by (intro reading_intros)
      moreover have "via_at (Store W) P s (if found \<noteq> None then throw e' else seqA (onTxn (AddUniqueConstraint (Store W) l k name)) (ret b))" for found :: "ConstraintDef option"
        using g None by (auto intro!: via_at_throw via_at_call [of _ _ _ "NewUnique l k name"] simp: runs_unconstrained)
      ultimately show ?thesis using None by (simp add: via_at_reading)
    next
      case (Some d)
      have "leading.via (Store W) P (bnd (query (ConstraintName (Store W) d)) (\<lambda>(_, _, existing). if name \<noteq> [] \<and> name \<noteq> existing then throw e else ret b))"
        by (auto intro!: rules)
      with Some show ?thesis by (simp add: via_at_via)
    qed
  qed
  show ?thesis unfolding createConstraint_def by (intro rules guard)
qed

lemma leading_dropConstraint: "leading.via (Store W) P (dropConstraint W name ifExists)"
  unfolding dropConstraint_def
  by (auto intro!: leading.via_ret leading.via_bnd leading.via_seqA leading.via_cases leading_schema_calls reading_constraints(1) [of W, THEN leading_reads])

interpretation changing: write_relation "leads (Store W)" "\<lambda>_ _. True" P W for P and W :: "'s World"
  by unfold_locales
    ((rule leading_stores leading_calls leading_createIndex leading_dropIndex leading_createConstraint leading_dropConstraint; assumption?)+)

end
