(* ===== verification/Exec_Read.thy ===== *)
theory Exec_Read
  imports Exec_Op
    Exec_Change
begin

text \<open>
  Building and running operators reads the transaction only, apart from the writing clauses: every auxiliary
  action of \<open>Exec_Op\<close> is reading. The effects of an operator are among those of the plan it is built from.
\<close>

section \<open>Reading operators\<close>

lemma reading_sum [reading_intros]:
  "(\<And>x. reading W (f x)) \<Longrightarrow> (\<And>y. reading W (g y)) \<Longrightarrow> reading W (case v of Inl x \<Rightarrow> f x | Inr y \<Rightarrow> g y)"
  by (cases v) auto

lemma reading_nodeScan [reading_intros]: "reading W (nodeScan_next W x src a)"
  unfolding nodeScan_next_def by (intro reading_intros)

lemma reading_propertyScanIDs [reading_intros]: "reading W (propertyScanIDs W label key e row)"
proof -
  have "reading W (filter_equal W keyID v is)" for keyID v "is" by (induction "is") (auto intro!: reading_intros)
  then show ?thesis unfolding propertyScanIDs_def nodesWithEqualProperty_def Let_def
    by (auto intro!: reading_intros reading_eval)
qed

lemma reading_propertyRangeScan [reading_intros]: "reading W (propertyRangeScan W x row)"
proof -
  have "reading W (eval_opt W e row)" for e unfolding eval_opt_def by (intro reading_intros reading_eval)
  then show ?thesis unfolding propertyRangeScan_def Let_def by (auto intro!: reading_intros)
qed

lemma reading_expand [reading_intros]:
  "reading W (lookup_types W names)" "reading W (gather W x tids n)" "reading W (expand_hit W x cur hit)"
  "reading W (bfs W x tids n)" "reading W (var_hit W x cur hit2)"
proof -
  show "reading W (lookup_types W names)" by (induction names) (auto intro!: reading_intros)
  show "reading W (gather W x tids n)" unfolding gather_def by (auto intro!: reading_intros)
  show "reading W (expand_hit W x cur hit)" unfolding expand_hit_def by (auto intro!: reading_intros split: option.split)
  have f: "reading W (bfs_front W x tids front)" for front
    by (induction front) (auto simp: var_neighbors_def intro!: reading_intros)
  have "reading W (bfs_layers k W x tids m d front)" for k m d front
    by (induction k arbitrary: d front) (auto intro!: reading_intros f)
  then show "reading W (bfs W x tids n)" unfolding bfs_def Let_def by (auto intro!: reading_intros)
  show "reading W (var_hit W x cur hit2)" unfolding var_hit_def fetchEdges_def by (auto intro!: reading_intros)
qed

lemma reading_seek [reading_intros]: "reading W (buildRelSeek W x row)" "reading W (seek_rows W x i)" "reading W (load_path W p)"
  unfolding buildRelSeek_def seek_rows_def load_path_def Let_def by (auto intro!: reading_intros reading_eval)

lemma reading_expandSide: "reading W (expandSide (Store W) query (check W) spec sd other)"
proof -
  have "reading W (expand_nodes (check W) (\<lambda>n. query (f n)) ns acc)" for f ns acc
  proof (induction ns arbitrary: acc)
    case (Cons n ns)
    show ?case unfolding expand_nodes.simps by (intro reading_intros Cons.IH)
  qed (auto intro: reading_intros)
  then show ?thesis unfolding expandSide_def Let_def by (intro reading_intros)
qed

text \<open>One layer, then the rest of the search: a step that keeps two alike contexts alike.\<close>

lemma alike_step:
  assumes "reading W m" "alike W c c'"
  obtains r c1 c1' where "m c = (r, c1)" "m c' = (r, c1')" "alike W c1 c1'" "ctxTxn c1 = ctxTxn c"
  using assms reading_txn [OF assms(1), of c] unfolding reading_def by (metis prod.collapse)

lemma search_kept: "kept (snd (search (Store W) query (check W) spec fwd bwd c)) = kept c"
proof (induction "Store W" "query :: ('a \<Rightarrow> EdgeRef list result) \<Rightarrow> ('a Context, EdgeRef list) act" "check W" spec fwd bwd c rule: search.induct)
  case (1 spec fwd bwd c)
  have t: "kept c1 = kept c" if "expandSide (Store W) query (check W) spec sd other c = (r, c1)" for sd other r c1
    using reading_kept [OF reading_expandSide, of W spec sd other c] that by simp
  show ?case
    using 1 by (subst search.simps) (auto simp: t split: prod.split sum.split)
qed

lemma search_alike:
  assumes "alike W c c'"
  shows "fst (search (Store W) query (check W) spec fwd bwd c) = fst (search (Store W) query (check W) spec fwd bwd c') \<and>
    alike W (snd (search (Store W) query (check W) spec fwd bwd c)) (snd (search (Store W) query (check W) spec fwd bwd c'))"
  using assms
proof (induction "Store W" "query :: ('a \<Rightarrow> EdgeRef list result) \<Rightarrow> ('a Context, EdgeRef list) act" "check W" spec fwd bwd c arbitrary: c' rule: search.induct)
  case (1 spec fwd bwd c)
  show ?case
  proof (cases "frontier fwd = [] \<or> frontier bwd = [] \<or> (PMaxHops spec > 0 \<and> int (sd_level fwd + sd_level bwd + 1) > PMaxHops spec)")
    case True
    then show ?thesis using "1.prems" by (auto simp: search.simps)
  next
    case go: False
    show ?thesis
    proof (cases "length (frontier bwd) < length (frontier fwd)")
      case True
      from alike_step [OF reading_expandSide "1.prems", of spec bwd fwd] obtain r c1 c1' where
        e: "expandSide (Store W) query (check W) spec bwd fwd c = (r, c1)" "expandSide (Store W) query (check W) spec bwd fwd c' = (r, c1')"
          "alike W c1 c1'" "ctxTxn c1 = ctxTxn c" by blast
      show ?thesis
      proof (cases r)
        case (Inr x)
        obtain sd meet where x: "x = (sd, meet)" by (cases x)
        have s: "search (Store W) query (check W) spec fwd bwd d =
            (if meet \<noteq> [] then (Inr (joinPaths fwd sd meet (PAll spec)), d1) else search (Store W) query (check W) spec fwd sd d1)"
          if "(d, d1) = (c, c1) \<or> (d, d1) = (c', c1')" for d d1
          using go True e Inr x that by (subst search.simps) auto
        show ?thesis
        proof (cases "meet = []")
          case m: True
          have "(r, c1) = expandSide (Store W) query (check W) spec bwd fwd c" using e(1) by simp
          from "1.hyps"(1) [OF _ _ True this Inr x [symmetric] _ e(3)] go m e(4) s [of c c1] s [of c' c1'] show ?thesis by simp
        qed (use s [of c c1] s [of c' c1'] e in simp)
      qed (use go True e in \<open>auto simp: search.simps\<close>)
    next
      case False
      from alike_step [OF reading_expandSide "1.prems", of spec fwd bwd] obtain r c1 c1' where
        e: "expandSide (Store W) query (check W) spec fwd bwd c = (r, c1)" "expandSide (Store W) query (check W) spec fwd bwd c' = (r, c1')"
          "alike W c1 c1'" "ctxTxn c1 = ctxTxn c" by blast
      show ?thesis
      proof (cases r)
        case (Inr x)
        obtain sd meet where x: "x = (sd, meet)" by (cases x)
        have s: "search (Store W) query (check W) spec fwd bwd d =
            (if meet \<noteq> [] then (Inr (joinPaths sd bwd meet (PAll spec)), d1) else search (Store W) query (check W) spec sd bwd d1)"
          if "(d, d1) = (c, c1) \<or> (d, d1) = (c', c1')" for d d1
          using go False e Inr x that by (subst search.simps) auto
        show ?thesis
        proof (cases "meet = []")
          case m: True
          have "(r, c1) = expandSide (Store W) query (check W) spec fwd bwd c" using e(1) by simp
          from "1.hyps"(2) [OF _ _ False this Inr x [symmetric] _ e(3)] go m e(4) s [of c c1] s [of c' c1'] show ?thesis by simp
        qed (use s [of c c1] s [of c' c1'] e in simp)
      qed (use go False e in \<open>auto simp: search.simps\<close>)
    qed
  qed
qed

lemma reading_ShortestPaths [reading_intros]: "reading W (ShortestPaths (Store W) query (check W) m n spec)"
proof -
  have "reading W (search (Store W) query (check W) spec fwd bwd)" for fwd bwd
    by (rule readingI [OF search_kept search_alike])
  then show ?thesis unfolding ShortestPaths_def by (intro reading_intros)
qed

lemma reading_catch: "reading W m \<Longrightarrow> reading W (\<lambda>c. case m c of (Inl _, c') \<Rightarrow> (Inr x, c') | (Inr v, c') \<Rightarrow> (Inr v, c'))"
proof (rule readingI)
  fix c
  assume "reading W m"
  from reading_kept [OF this, of c]
  show "kept (snd (case m c of (Inl _, c') \<Rightarrow> (Inr x, c') | (Inr v, c') \<Rightarrow> (Inr v, c'))) = kept c"
    by (auto split: prod.split sum.split)
next
  fix c c'
  assume "reading W m" "alike W c c'"
  then obtain r c1 c1' where "m c = (r, c1)" "m c' = (r, c1')" "alike W c1 c1'" by (rule alike_step)
  then show "fst (case m c of (Inl _, c') \<Rightarrow> (Inr x, c') | (Inr v, c') \<Rightarrow> (Inr v, c')) =
      fst (case m c' of (Inl _, c') \<Rightarrow> (Inr x, c') | (Inr v, c') \<Rightarrow> (Inr v, c')) \<and>
    alike W (snd (case m c of (Inl _, c') \<Rightarrow> (Inr x, c') | (Inr v, c') \<Rightarrow> (Inr v, c'))) (snd (case m c' of (Inl _, c') \<Rightarrow> (Inr x, c') | (Inr v, c') \<Rightarrow> (Inr v, c')))"
    by (cases r) simp_all
qed

lemma reading_sort [reading_intros]: "reading W (insertion_sort (sort_less W keys) acc rows)"
proof -
  have v: "reading W (sortValue W b e)" for b e unfolding sortValue_def by (intro reading_intros reading_catch reading_eval)
  have l: "reading W (sort_less W keys bi bj)" for bi bj by (induction keys) (auto intro!: reading_intros v)
  have i: "reading W (insert_back (sort_less W keys) x ys)" for x ys by (induction ys) (auto intro!: reading_intros l)
  show ?thesis by (induction rows arbitrary: acc) (auto intro!: reading_intros i)
qed

lemma reading_project [reading_intros]: "reading W (project_row W items b out)"
  by (induction items arbitrary: out) (auto intro!: reading_intros reading_eval)

lemma reading_agg_row [reading_intros]: "reading W (agg_row W gks specs groups b)"
proof -
  have a: "reading V (acc_add V b s ac)" for V :: "'a World" and b s ac unfolding acc_add_def by (intro reading_intros reading_eval)
  have l: "reading W (add_all W b ss acs)" for ss acs
    by (induction W b ss acs rule: add_all.induct) (auto intro!: reading_intros a)
  have "reading W (group_row W b specs key kvs groups)" for key kvs by (induction groups) (auto intro!: reading_intros l)
  then show ?thesis unfolding agg_row_def by (auto intro!: reading_intros reading_eval)
qed

lemma reading_evalCount [reading_intros]: "reading W (evalCount W e)"
  unfolding evalCount_def by (intro reading_intros reading_eval)

lemma reading_buildWith [reading_intros]: "reading W (buildWith W p a)"
  by (induction W p a rule: buildWith.induct) (auto intro!: reading_intros)

section \<open>The effects of a plan\<close>

text \<open>The writing clauses and schema statements in a plan, and in an operator.\<close>

fun plan_effects :: "Op \<Rightarrow> effect set" where
  "plan_effects (ExpandOp p _) = plan_effects p"
| "plan_effects (FilterOp p _) = plan_effects p"
| "plan_effects (ProjectOp p _ _) = plan_effects p"
| "plan_effects (AggregateOp p _ _ _) = plan_effects p"
| "plan_effects (SortOp p _) = plan_effects p"
| "plan_effects (SkipOp p _) = plan_effects p"
| "plan_effects (LimitOp p _) = plan_effects p"
| "plan_effects (CartesianProduct p q) = plan_effects p \<union> plan_effects q"
| "plan_effects (UnwindOp p _ _) = plan_effects p"
| "plan_effects (OuterApply p q _) = plan_effects p \<union> plan_effects q"
| "plan_effects (Apply p q) = plan_effects p \<union> plan_effects q"
| "plan_effects (UnionOp ps _ _) = \<Union> (set (map plan_effects ps))"
| "plan_effects (ShortestPathOp p _) = plan_effects p"
| "plan_effects (CreateOp p parts) = insert (WCreate parts) (plan_effects p)"
| "plan_effects (MergeOp p part onCreate onMatch) = insert (WMerge part onCreate onMatch) (plan_effects p)"
| "plan_effects (SetItems p items) = insert (WSet items) (plan_effects p)"
| "plan_effects (RemoveOp p items) = insert (WRemove items) (plan_effects p)"
| "plan_effects (DeleteOp p es detach) = insert (WDelete es detach) (plan_effects p)"
| "plan_effects (CreateIndexOp name label prop rel) = {WCreateIndex name label prop rel}"
| "plan_effects (DropIndexOp name ifExists) = {WDropIndex name ifExists}"
| "plan_effects (CreateConstraintOp name label prop) = {WCreateConstraint name label prop}"
| "plan_effects (DropConstraintOp name ifExists) = {WDropConstraint name ifExists}"
| "plan_effects _ = {}"

fun op_effects :: "op \<Rightarrow> effect set" where
  "op_effects (EFilter i _) = op_effects i"
| "op_effects (EProject i _ _) = op_effects i"
| "op_effects (ESort i _ _ _) = op_effects i"
| "op_effects (ESkip i _) = op_effects i"
| "op_effects (ELimit i _ _) = op_effects i"
| "op_effects (ECartesian l r _ _ _ _) = op_effects l \<union> op_effects r"
| "op_effects (EAggregate i _ _ _) = op_effects i"
| "op_effects (EUnwind i _ _ _ _) = op_effects i"
| "op_effects (EOuterApply i p _ _ None _) = op_effects i \<union> plan_effects p"
| "op_effects (EOuterApply i p _ _ (Some (_, o1, _, _)) _) = op_effects i \<union> plan_effects p \<union> op_effects o1"
| "op_effects (EUnion is _ _) = \<Union> (set (map op_effects is))"
| "op_effects (EExpand i _ _ _ _) = op_effects i"
| "op_effects (EVarExpand i _ _ _ _) = op_effects i"
| "op_effects (EShortest i _ _ _ _) = op_effects i"
| "op_effects (ECreate i parts) = insert (WCreate parts) (op_effects i)"
| "op_effects (EMerge i part onCreate onMatch _) = insert (WMerge part onCreate onMatch) (op_effects i)"
| "op_effects (ESet i items) = insert (WSet items) (op_effects i)"
| "op_effects (ERemove i items) = insert (WRemove items) (op_effects i)"
| "op_effects (EDelete i es detach) = insert (WDelete es detach) (op_effects i)"
| "op_effects (ECreateIndex name label prop rel _) = {WCreateIndex name label prop rel}"
| "op_effects (EDropIndex name ifExists _) = {WDropIndex name ifExists}"
| "op_effects (ECreateConstraint name label prop _) = {WCreateConstraint name label prop}"
| "op_effects (EDropConstraint name ifExists _) = {WDropConstraint name ifExists}"
| "op_effects _ = {}"

lemma mapA_all: "mapA f xs c = (Inr ys, c') \<Longrightarrow> (\<And>x y c c'. x \<in> set xs \<Longrightarrow> f x c = (Inr y, c') \<Longrightarrow> Q y) \<Longrightarrow> \<forall>y \<in> set ys. Q y"
proof (induction xs arbitrary: ys c)
  case (Cons x xs)
  then obtain y c1 zs where "f x c = (Inr y, c1)" "mapA f xs c1 = (Inr zs, c')" "ys = y # zs"
    by (auto simp: bnd_def ret_def split: prod.splits sum.splits)
  moreover have "\<forall>z \<in> set zs. Q z" by (rule Cons.IH [OF calculation(2)]) (use Cons.prems(2) in auto)
  moreover have "Q y" by (rule Cons.prems(2) [OF _ calculation(1)]) simp
  ultimately show ?case by simp
qed (simp add: ret_def)

text \<open>An operator has only effects of the plan it is built from.\<close>

lemma buildWith_effects: "runs (buildWith W p a) c o1 c' \<Longrightarrow> op_effects o1 \<subseteq> plan_effects p"
proof (induction W p a arbitrary: c o1 c' rule: buildWith.induct)
  case (31 W ps columns all a)
  then obtain os where os: "mapA (\<lambda>p. buildWith W p a) ps c = (Inr os, c')" "o1 = EUnion os columns (if all then None else Some [])"
    by (auto simp: runs_bnd) (auto simp: runs_def)
  have "\<forall>o2 \<in> set os. op_effects o2 \<subseteq> plan_effects (UnionOp ps columns all)"
    by (rule mapA_all [OF os(1)]) (use 31 in \<open>fastforce simp: runs_def\<close>)
  with os(2) show ?case by auto
qed (fastforce simp: runs_bnd propertyRangeScan_def buildRelSeek_def Let_def split: option.splits if_splits prod.splits)+

end
