(* ===== verification/Exec_Run.thy ===== *)
theory Exec_Run
  imports Exec_Read
begin

text \<open>
  Running a plan: the operators of \<open>Exec_Op\<close> move along every relation that the effects of the plan move along.
  A statement keeps the database consistent, a plan without effects does not write, and a run respects the limit
  on rows.
\<close>

section \<open>Operators move along a relation\<close>

lemma bndO_retO: "bndO (retO x) f = f x"
  by (rule ext) (simp add: bndO_def retO_def lft_def ret_def)

context txn_relation
begin

definition viaO :: "('a \<Rightarrow> bool) \<Rightarrow> ('s Context, 'a) run \<Rightarrow> bool" where
  "viaO Q m \<longleftrightarrow> (\<forall>c r c'. Params c = P \<longrightarrow> m c = Some (r, c') \<longrightarrow> moves r c c' \<and> (\<forall>x. r = Inr x \<longrightarrow> Q x))"

lemma viaO_lftP:
  assumes "via m" "\<And>c x c'. runs m c x c' \<Longrightarrow> Q x"
  shows "viaO Q (lft m)"
proof -
  have "moves r c c' \<and> (\<forall>x. r = Inr x \<longrightarrow> Q x)" if "Params c = P" "m c = (r, c')" for c r c'
  proof
    show "moves r c c'" using assms(1) that by (metis fst_conv snd_conv via_def)
    show "\<forall>x. r = Inr x \<longrightarrow> Q x" using assms(2) [of c _ c'] that(2) by (auto simp: runs_def)
  qed
  then show ?thesis by (simp add: viaO_def lft_def)
qed

lemma viaO_lft: "via m \<Longrightarrow> viaO (\<lambda>_. True) (lft m)"
  by (rule viaO_lftP) simp_all

lemma viaO_ret [via_rules]: "Q x \<Longrightarrow> viaO Q (retO x)" "viaO Q (throwO e)"
  by (auto simp: viaO_def retO_def throwO_def lft_def ret_def throw_def moves_def R_refl E_refl)

lemma viaO_none [via_rules]: "viaO Q (\<lambda>c. None)"
  by (simp add: viaO_def)

lemma viaO_bnd:
  assumes "viaO Q1 m" "\<And>x. Q1 x \<Longrightarrow> viaO Q (f x)"
  shows "viaO Q (bndO m f)"
  unfolding viaO_def
proof (intro allI impI)
  fix r and c c' :: "'s Context"
  assume p: "Params c = P" and h: "bndO m f c = Some (r, c')"
  then obtain r1 c1 where m: "m c = Some (r1, c1)" by (auto simp: bndO_def split: option.splits)
  then have a: "moves r1 c c1" "\<And>x. r1 = Inr x \<Longrightarrow> Q1 x" using assms(1) p by (auto simp: viaO_def)
  show "moves r c c' \<and> (\<forall>x. r = Inr x \<longrightarrow> Q x)"
  proof (cases r1)
    case (Inr x)
    then have f: "f x c1 = Some (r, c')" using h m by (simp add: bndO_def)
    have "Params c1 = P" using a(1) Inr by (simp add: moves_def)
    with f assms(2) [OF a(2) [OF Inr]] have "moves r c1 c'" "\<forall>x. r = Inr x \<longrightarrow> Q x" by (auto simp: viaO_def)
    with moves_trans [OF a(1) [unfolded Inr]] show ?thesis by blast
  qed (use h m a in \<open>auto simp: bndO_def moves_def\<close>)
qed

lemma viaO_read: "via m \<Longrightarrow> (\<And>x. viaO Q (f x)) \<Longrightarrow> viaO Q (bndO (lft m) f)"
  by (rule viaO_bnd [OF viaO_lft])

text \<open>Rows with an operator that \<open>ok\<close> accepts.\<close>

definition rows :: "(op \<Rightarrow> bool) \<Rightarrow> ('s Context, binding option \<times> op \<times> argument) run \<Rightarrow> bool" where
  "rows ok m \<longleftrightarrow> viaO (\<lambda>(r, o1, a). ok o1) m"

lemma rows_ret [via_rules]: "ok o1 \<Longrightarrow> rows ok (retO (r, o1, a))" "rows ok (throwO e)"
  by (auto simp: rows_def intro: viaO_ret)

lemma rows_read: "via m \<Longrightarrow> (\<And>x. rows ok (f x)) \<Longrightarrow> rows ok (bndO (lft m) f)"
  unfolding rows_def by (rule viaO_read)

lemma rows_bnd: "rows ok m \<Longrightarrow> (\<And>r o1 a. ok o1 \<Longrightarrow> rows ok' (f (r, o1, a))) \<Longrightarrow> rows ok' (bndO m f)"
  unfolding rows_def by (rule viaO_bnd [where ?Q1.0 = "\<lambda>(r, o1, a). ok o1"]) auto

lemma rows_pull: "rows ok m \<Longrightarrow> (\<And>i. ok i \<Longrightarrow> ok' (wrap i)) \<Longrightarrow> (\<And>b i a. ok i \<Longrightarrow> rows ok' (k b i a)) \<Longrightarrow> rows ok' (pull m wrap k)"
  unfolding pull_def by (erule rows_bnd) (auto split: option.split intro: rows_ret)

lemma rows_cases [via_rules]:
  "(Q \<Longrightarrow> rows ok m) \<Longrightarrow> (\<not> Q \<Longrightarrow> rows ok n) \<Longrightarrow> rows ok (if Q then m else n)"
  "rows ok m \<Longrightarrow> (\<And>x. v = Some x \<Longrightarrow> rows ok (f x)) \<Longrightarrow> rows ok (case v of None \<Rightarrow> m | Some x \<Rightarrow> f x)"
  "(\<And>x y. rows ok (g x y)) \<Longrightarrow> rows ok (case p of (x, y) \<Rightarrow> g x y)"
  "rows ok m \<Longrightarrow> (\<And>y ys. rows ok (h y ys)) \<Longrightarrow> rows ok (case l of [] \<Rightarrow> m | y # ys \<Rightarrow> h y ys)"
  by (auto split: option.split prod.split list.split)

lemma rows_write:
  assumes "\<And>o1 a. ok o1 \<Longrightarrow> rows ok (nx o1 a)" "ok i" "\<And>i. ok i \<Longrightarrow> ok (wrap i)" "\<And>b. via (row b)"
  shows "rows ok (write_next nx i wrap row a)"
  unfolding write_next_def using assms by (auto intro!: rows_pull [where ok = ok] rows_read rows_ret)

lemma rows_once: "via m \<Longrightarrow> ok (wrap True) \<Longrightarrow> rows ok (once finished wrap m a)"
  unfolding once_def by (auto intro!: rows_read via_rules)

lemma rows_listing: "via m \<Longrightarrow> (\<And>rs. ok (wrap rs)) \<Longrightarrow> rows ok (listing rs0 wrap m a)"
  unfolding listing_def by (cases rs0) (auto intro!: rows_read via_rules simp: bndO_retO)

end

section \<open>Every operator moves along the relation\<close>

text \<open>An operator or plan that may run when the effects \<open>S\<close> are allowed.\<close>

definition runnable :: "effect set \<Rightarrow> op \<Rightarrow> bool" where
  "runnable S o1 \<longleftrightarrow> op_effects o1 \<subseteq> S"

definition runnable_plan :: "effect set \<Rightarrow> Op \<Rightarrow> bool" where
  "runnable_plan S p \<longleftrightarrow> plan_effects p \<subseteq> S"

lemma runnable_simps [simp]:
  "runnable S (EFilter i p) = runnable S i" "runnable S (EProject i items seen) = runnable S i"
  "runnable S (ESort i keys rs loaded) = runnable S i" "runnable S (ESkip i n) = runnable S i" "runnable S (ELimit i m k) = runnable S i"
  "runnable S (ECartesian l r rights loaded cl todo) = (runnable S l \<and> runnable S r)" "runnable S (EAggregate i gks aggs st) = runnable S i"
  "runnable S (EUnwind i e x cur vs) = runnable S i" "runnable S (EUnion ps cols seen) = (\<forall>p \<in> set ps. runnable S p)"
  "runnable S (EExpand i xa tids cur hits) = runnable S i" "runnable S (EVarExpand i xa tids cur hits2) = runnable S i"
  "runnable S (EShortest i sx spec cur paths) = runnable S i" "runnable S (ERelSeek rx ids rs)" "runnable S EArgument" "runnable S (EUnit b)"
  "runnable S (ENodeScan x src)" "runnable S (EShowIndexes ors)" "runnable S (EShowConstraints ors)"
  by (auto simp: runnable_def)

lemma runnable_writes [simp]:
  "runnable S (ECreate i parts) = (WCreate parts \<in> S \<and> runnable S i)" "runnable S (ESet i items) = (WSet items \<in> S \<and> runnable S i)"
  "runnable S (EMerge i part onC onM out) = (WMerge part onC onM \<in> S \<and> runnable S i)"
  "runnable S (ERemove i ritems) = (WRemove ritems \<in> S \<and> runnable S i)" "runnable S (EDelete i es detach) = (WDelete es detach \<in> S \<and> runnable S i)"
  "runnable S (ECreateIndex name label prop rel fin) = (WCreateIndex name label prop rel \<in> S)"
  "runnable S (EDropIndex name ifExists fin) = (WDropIndex name ifExists \<in> S)"
  "runnable S (ECreateConstraint name label prop fin) = (WCreateConstraint name label prop \<in> S)"
  "runnable S (EDropConstraint name ifExists fin) = (WDropConstraint name ifExists \<in> S)"
  by (auto simp: runnable_def)

lemma runnable_apply [simp]:
  "runnable S (EOuterApply i p nv inner None pe) = (runnable S i \<and> runnable_plan S p)"
  "runnable S (EOuterApply i p nv inner (Some (b, o1, a1, em)) pe) = (runnable S i \<and> runnable_plan S p \<and> runnable S o1)"
  by (auto simp: runnable_def runnable_plan_def)

lemma runnable_build: "runs (buildWith W p a) c o1 c' \<Longrightarrow> runnable_plan S p \<Longrightarrow> runnable S o1"
  using buildWith_effects by (fastforce simp: runnable_def runnable_plan_def)

lemma nodeScan_runnable: "runs (nodeScan_next W x src a) c (r, o1, a') c' \<Longrightarrow> runnable S o1"
  unfolding nodeScan_next_def by (auto simp: runs_bnd split: sum.splits list.splits option.splits prod.splits)

context txn_relation
begin

lemma rows_reading: "reading W m \<Longrightarrow> (\<And>x. rows ok (f x)) \<Longrightarrow> rows ok (bndO (lft m) f)"
  by (rule rows_read [OF via_reading])

lemma rows_check: "(\<And>x. rows ok (f x)) \<Longrightarrow> rows ok (bndO (lft (check W)) f)"
  by (rule rows_reading [of W]) (intro reading_intros)

lemma rows_eval: "(\<And>x. rows ok (f x)) \<Longrightarrow> rows ok (bndO (lft (eval W e b)) f)"
  by (rule rows_reading [OF reading_eval])

lemma rows_scan: "rows (runnable S) (lft (nodeScan_next W x src a))"
  unfolding rows_def by (rule viaO_lftP [OF via_reading [OF reading_nodeScan]]) (auto dest: nodeScan_runnable)

lemma rows_read_ops:
  assumes nx: "\<And>o1 a. runnable S o1 \<Longrightarrow> rows (runnable S) (nx o1 a)" and i: "runnable S i"
  shows "rows (runnable S) (filter_next W nx i p a)" "rows (runnable S) (project_next W nx i items seen a)"
    "rows (runnable S) (sort_next W nx i keys rs loaded a)" "rows (runnable S) (skip_next W nx i n a)" "rows (runnable S) (limit_next W nx i m k a)"
proof -
  note r = rows_check rows_eval rows_ret rows_pull [OF nx] rows_bnd [OF nx] rows_cases nx i
  show "rows (runnable S) (filter_next W nx i p a)" unfolding filter_next_def by (intro r) simp_all
  show "rows (runnable S) (project_next W nx i items seen a)"
    unfolding project_next_def by (intro r rows_reading [OF reading_project]) simp_all
  show "rows (runnable S) (sort_next W nx i keys rs loaded a)"
    unfolding sort_next_def using i by (auto intro!: r rows_reading [OF reading_sort] split: option.split list.split)
  show "rows (runnable S) (skip_next W nx i n a)" unfolding skip_next_def by (cases n) (auto intro!: r)
  show "rows (runnable S) (limit_next W nx i m k a)" unfolding limit_next_def using i by (auto intro!: r)
qed

end

context txn_relation
begin

lemma rows_join_ops:
  assumes nx: "\<And>o1 a. runnable S o1 \<Longrightarrow> rows (runnable S) (nx o1 a)" and i: "runnable S i"
  shows "runnable S r \<Longrightarrow> rows (runnable S) (cartesian_next W nx i r rights loaded cl todo a)"
    "rows (runnable S) (aggregate_next W nx i gks aggs st a)" "rows (runnable S) (unwind_next W nx i e x cur vs a)"
proof -
  note s = rows_check rows_eval rows_ret rows_pull [OF nx] rows_bnd [OF nx] nx i
  show "rows (runnable S) (cartesian_next W nx i r rights loaded cl todo a)" if "runnable S r"
    unfolding cartesian_next_def Let_def using that i by (auto intro!: s split: option.split list.split)
  have p: "reading W (liftR (parseAggFuncs W aggs))" by (intro reading_intros)
  show "rows (runnable S) (aggregate_next W nx i gks aggs st a)"
    unfolding aggregate_next_def using i
    by (auto intro!: s rows_reading [OF p] rows_reading [OF reading_agg_row] split: option.split list.split agg_state.split)
  show "rows (runnable S) (unwind_next W nx i e x cur vs a)"
    unfolding unwind_next_def using i by (auto intro!: s split: list.split val.split)
qed

lemma rows_seek:
  assumes nx: "\<And>o1 a. runnable S o1 \<Longrightarrow> rows (runnable S) (nx o1 a)"
  shows "rows (runnable S) (relSeek_next W nx rx ids rs a)"
  unfolding relSeek_next_def by (auto intro!: rows_check rows_ret nx rows_reading [OF reading_seek(2)] split: list.split)

lemma rows_path_ops:
  assumes nx: "\<And>o1 a. runnable S o1 \<Longrightarrow> rows (runnable S) (nx o1 a)" and i: "runnable S i"
  shows "rows (runnable S) (expand_next W nx i x tids cur hits a)" "rows (runnable S) (varExpand_next W nx i x tids cur hits2 a)"
    "rows (runnable S) (shortest_next W nx i sx spec cur paths a)"
proof -
  note s = rows_check rows_eval rows_ret rows_pull [OF nx] nx i
  show "rows (runnable S) (expand_next W nx i x tids cur hits a)"
    unfolding expand_next_def using i
    by (auto intro!: s rows_reading [OF reading_expand(2)] rows_reading [OF reading_expand(3)] split: option.split list.split)
  show "rows (runnable S) (varExpand_next W nx i x tids cur hits2 a)"
    unfolding varExpand_next_def using i
    by (auto intro!: s rows_reading [OF reading_expand(4)] rows_reading [OF reading_expand(5)] split: option.split list.split)
  show "rows (runnable S) (shortest_next W nx i sx spec cur paths a)"
    unfolding shortest_next_def Let_def using i
    by (auto intro!: s rows_reading [OF reading_seek(3)] rows_reading [OF reading_ShortestPaths] split: option.split list.split val.split)
qed

lemma rows_apply_ops:
  assumes nx: "\<And>o1 a. runnable S o1 \<Longrightarrow> rows (runnable S) (nx o1 a)"
  shows "runnable S (EOuterApply i p nv inner cur pe) \<Longrightarrow> rows (runnable S) (outerApply_next W (buildWith W) nx i p nv inner cur pe a)"
    "\<forall>p \<in> set ps. runnable S p \<Longrightarrow> rows (runnable S) (union_next W nx ps cols seen a)"
proof -
  note s = rows_check rows_ret rows_pull [OF nx] rows_bnd [OF nx] nx
  have b: "rows (runnable S) (bndO (lft (buildWith W p a)) f)" if "runnable_plan S p" "\<And>o1. runnable S o1 \<Longrightarrow> rows (runnable S) (f o1)" for a f
    unfolding rows_def
  proof (rule viaO_bnd)
    show "viaO (runnable S) (lft (buildWith W p a))"
      by (rule viaO_lftP [OF via_reading [OF reading_buildWith]]) (rule runnable_build [OF _ that(1)])
  qed (use that(2) in \<open>simp add: rows_def\<close>)
  show "rows (runnable S) (outerApply_next W (buildWith W) nx i p nv inner cur pe a)" if "runnable S (EOuterApply i p nv inner cur pe)"
    unfolding outerApply_next_def Let_def using that by (cases cur) (auto intro!: s b split: option.split)
  show "rows (runnable S) (union_next W nx ps cols seen a)" if "\<forall>p \<in> set ps. runnable S p"
    unfolding union_next_def using that by (auto intro!: s split: option.split list.split)
qed

lemma rows_write_ops:
  assumes nx: "\<And>o1 a. runnable S o1 \<Longrightarrow> rows (runnable S) (nx o1 a)" and W: "\<And>wr. wr \<in> S \<Longrightarrow> via_effect W wr" and i: "runnable S i"
  shows "WCreate parts \<in> S \<Longrightarrow> rows (runnable S) (create_next W nx i parts a)" "WSet items \<in> S \<Longrightarrow> rows (runnable S) (set_next W nx i items a)"
    "WRemove ritems \<in> S \<Longrightarrow> rows (runnable S) (remove_next W nx i ritems a)" "WDelete es detach \<in> S \<Longrightarrow> rows (runnable S) (delete_next W nx i es detach a)"
    "WMerge part onC onM \<in> S \<Longrightarrow> rows (runnable S) (merge_next W nx i part onC onM out a)"
proof -
  note r = rows_pull [OF nx] rows_read rows_ret nx
  note d = create_next_def set_next_def remove_next_def delete_next_def write_next_def
  show "rows (runnable S) (create_next W nx i parts a)" if "WCreate parts \<in> S" using W [OF that] that i by (auto simp: d intro!: r)
  show "rows (runnable S) (set_next W nx i items a)" if "WSet items \<in> S" using W [OF that] that i by (auto simp: d intro!: r)
  show "rows (runnable S) (remove_next W nx i ritems a)" if "WRemove ritems \<in> S" using W [OF that] that i by (auto simp: d intro!: r)
  show "rows (runnable S) (delete_next W nx i es detach a)" if "WDelete es detach \<in> S" using W [OF that] that i by (auto simp: d intro!: r)
  show "rows (runnable S) (merge_next W nx i part onC onM out a)" if "WMerge part onC onM \<in> S"
    using W [OF that] that i by (auto simp: merge_next_def intro!: r split: list.split)
qed

lemma rows_step:
  assumes nx: "\<And>o1 a. runnable S o1 \<Longrightarrow> rows (runnable S) (nx o1 a)" and W: "\<And>wr. wr \<in> S \<Longrightarrow> via_effect W wr" and o1: "runnable S o1"
  shows "rows (runnable S) (step W nx o1 a)"
proof -
  note ops = rows_read_ops [of S nx, OF nx] rows_join_ops [of S nx, OF nx] rows_path_ops [of S nx, OF nx] rows_seek [of S nx, OF nx]
    rows_apply_ops [of S nx, OF nx] rows_write_ops [of S nx W, OF nx W]
  show ?thesis
    using o1
    by (cases o1) (auto simp: argument_next_def split: option.split bool.split dest: W
        intro!: ops rows_ret rows_scan rows_once rows_listing via_reading [OF reading_indexes(3)] via_reading [OF reading_constraints(2)])
qed

end

context txn_relation
begin

lemma rows_next: "(\<And>wr. wr \<in> S \<Longrightarrow> via_effect W wr) \<Longrightarrow> runnable S o1 \<Longrightarrow> rows (runnable S) (op_next n W o1 a)"
proof (induction n arbitrary: o1 a)
  case (Suc n)
  then show ?case by (auto intro!: rows_step)
qed (simp add: rows_def via_rules)

lemma viaO_rows: "rows ok m \<Longrightarrow> (\<And>r o1 a. ok o1 \<Longrightarrow> viaO Q (f (r, o1, a))) \<Longrightarrow> viaO Q (bndO m f)"
  unfolding rows_def by (rule viaO_bnd [where ?Q1.0 = "\<lambda>(r, o1, a). ok o1"]) auto

lemma viaO_Run:
  assumes W: "\<And>wr. wr \<in> S \<Longrightarrow> via_effect W wr" and p: "runnable_plan S p"
  shows "viaO (\<lambda>_. True) (Run n W p columns)"
proof -
  note nx = rows_next [of S W, OF W]
  have c: "via (check W)" by (rule via_reading [of W]) (intro reading_intros)
  have d: "viaO (\<lambda>_. True) (drain k W o1 a)" if "runnable S o1" for k o1 a
    using that
  proof (induction k arbitrary: o1 a)
    case (Suc k)
    then show ?case by (auto intro!: viaO_read [OF c] viaO_rows [OF nx] viaO_ret split: option.split)
  qed (simp add: viaO_none)
  have r: "viaO (\<lambda>_. True) (collect_rows k W columns mx o1 a rs)" if "runnable S o1" for k mx o1 a rs
    using that
  proof (induction k arbitrary: o1 a rs)
    case (Suc k)
    then show ?case by (auto simp: Let_def intro!: viaO_read [OF c] viaO_rows [OF nx] viaO_ret split: option.split)
  qed (simp add: viaO_none)
  have "viaO (\<lambda>_. True) (bndO (lft (buildWith W p None)) (\<lambda>o1. if columns = [] then drain n W o1 None else collect_rows n W columns mx o1 None []))" for mx
  proof (rule viaO_bnd)
    show "viaO (runnable S) (lft (buildWith W p None))"
      by (rule viaO_lftP [OF via_reading [OF reading_buildWith]]) (rule runnable_build [OF _ p])
  qed (auto intro: d r)
  then show ?thesis by (simp add: viaO_def Run_def)
qed

end

section \<open>Two plans\<close>











section \<open>Statements and the database\<close>







end
