(* ===== verification/Spec2Isabelle.thy ===== *)
theory Spec2Isabelle
  imports Exec_Run
begin

text \<open>
  Intreccio: a graph database over an ordered key-value store.
\<close>

end
